(* ===== verification/Prelude.thy ===== *)
theory Prelude
  imports Main
begin

text \<open>
  Shared vocabulary of the development: the faults a C program may run into, the result
  type that carries them, bounded array accesses, C strings, the case-insensitive comparison
  of the C library and decimal conversion.  Everything here is generic; nothing models a
  particular function of the server.
\<close>

section \<open>Faults and results\<close>

text \<open>
  An access that the C standard leaves undefined is not given a value: it is a \<open>fault\<close>, and
  every later step of the function is skipped.  \<open>Inr\<close> is ordinary return.
\<close>

datatype fault =
    NullDeref     \<comment> \<open>a null pointer is read, written or passed to a library routine\<close>
  | OutOfBounds   \<comment> \<open>an index at or past the end of an array or an allocation\<close>
  | UseAfterFree  \<comment> \<open>a block or node that was freed, or never allocated, is accessed\<close>
  | BadFree       \<comment> \<open>\<open>free\<close> of a pointer that is not a live allocation\<close>
  | Uninit        \<comment> \<open>an indeterminate value is used\<close>
  | IntOverflow   \<comment> \<open>signed overflow\<close>

type_synonym 'a res = "fault + 'a"

named_theorems rbind_simps
named_theorems cstr_simps

definition rbind :: "'a res \<Rightarrow> ('a \<Rightarrow> 'b res) \<Rightarrow> 'b res" where
  "rbind m f = (case m of Inl e \<Rightarrow> Inl e | Inr x \<Rightarrow> f x)"

lemma rbind_Inl [simp, rbind_simps]: "rbind (Inl e) f = Inl e"
  by (simp add: rbind_def)

lemma rbind_Inr [simp, rbind_simps]: "rbind (Inr x) f = f x"
  by (simp add: rbind_def)

lemma rbind_eq_Inr: "rbind m f = Inr y \<longleftrightarrow> (\<exists>x. m = Inr x \<and> f x = Inr y)"
  by (cases m) auto

lemma rbind_eq_Inl: "rbind m f = Inl e \<longleftrightarrow> m = Inl e \<or> (\<exists>x. m = Inr x \<and> f x = Inl e)"
  by (cases m) auto

lemma rbind_assoc: "rbind (rbind m f) g = rbind m (\<lambda>x. rbind (f x) g)"
  by (cases m) auto

lemma rbind_cong [fundef_cong]:
  "m = m' \<Longrightarrow> (\<And>x. m' = Inr x \<Longrightarrow> f x = f' x) \<Longrightarrow> rbind m f = rbind m' f'"
  by (cases m') auto

section \<open>Arrays of fixed size\<close>

text \<open>\<open>arr_put\<close> is \<open>a[i] = v\<close>, \<open>arr_get\<close> reads \<open>a[i]\<close>, \<open>arr_write\<close> is
  \<open>memcpy(a + off, ys, n)\<close>.  All check the bounds of the destination.\<close>

definition arr_put :: "'a list \<Rightarrow> nat \<Rightarrow> 'a \<Rightarrow> 'a list res" where
  "arr_put xs i v = (if i < length xs then Inr (xs[i := v]) else Inl OutOfBounds)"

definition arr_get :: "'a list \<Rightarrow> nat \<Rightarrow> 'a res" where
  "arr_get xs i = (if i < length xs then Inr (xs ! i) else Inl OutOfBounds)"

definition overwrite :: "'a list \<Rightarrow> nat \<Rightarrow> 'a list \<Rightarrow> 'a list" where
  "overwrite xs off ys = take off xs @ ys @ drop (off + length ys) xs"

definition arr_write :: "'a list \<Rightarrow> nat \<Rightarrow> 'a list \<Rightarrow> 'a list res" where
  "arr_write xs off ys =
     (if off + length ys \<le> length xs then Inr (overwrite xs off ys) else Inl OutOfBounds)"

lemma arr_put_eq_Inr: "arr_put xs i v = Inr ys \<longleftrightarrow> i < length xs \<and> ys = xs[i := v]"
  by (auto simp: arr_put_def)

lemma arr_write_eq_Inr:
  "arr_write xs off ys = Inr zs \<longleftrightarrow> off + length ys \<le> length xs \<and> zs = overwrite xs off ys"
  by (auto simp: arr_write_def)

lemma arr_put_ok [simp]: "i < length xs \<Longrightarrow> arr_put xs i v = Inr (xs[i := v])"
  by (simp add: arr_put_def)

lemma arr_get_ok [simp]: "i < length xs \<Longrightarrow> arr_get xs i = Inr (xs ! i)"
  by (simp add: arr_get_def)

lemma arr_write_ok [simp]:
  "off + length ys \<le> length xs \<Longrightarrow> arr_write xs off ys = Inr (overwrite xs off ys)"
  by (simp add: arr_write_def)

lemma length_overwrite [simp]:
  "off + length ys \<le> length xs \<Longrightarrow> length (overwrite xs off ys) = length xs"
  by (simp add: overwrite_def)

lemma take_overwrite [simp]:
  "off + length ys \<le> length xs \<Longrightarrow> take (off + length ys) (overwrite xs off ys) = take off xs @ ys"
  by (simp add: overwrite_def)

lemma overwrite_Nil [simp]: "overwrite xs off [] = xs"
  by (simp add: overwrite_def)

lemma nth_overwrite_after:
  "off + length ys \<le> i \<Longrightarrow> i < length xs \<Longrightarrow> overwrite xs off ys ! i = xs ! i"
  by (auto simp: overwrite_def nth_append)

lemma overwrite_full: "length ys = length xs \<Longrightarrow> overwrite xs 0 ys = ys"
  by (simp add: overwrite_def)

lemma take_Suc_put: "i < length xs \<Longrightarrow> take (Suc i) (xs[i := v]) = take i xs @ [v]"
  by (simp add: take_Suc_conv_app_nth)

lemma overwrite_Cons:
  "off < length xs \<Longrightarrow> overwrite (xs[off := c]) (Suc off) ys = overwrite xs off (c # ys)"
  by (simp add: overwrite_def take_Suc_put)

lemma overwrite_single: "off < length xs \<Longrightarrow> overwrite xs off [c] = xs[off := c]"
  by (simp add: overwrite_def upd_conv_take_nth_drop)

lemma overwrite_append:
  "off + length ys \<le> length xs \<Longrightarrow>
     overwrite (overwrite xs off ys) (off + length ys) zs = overwrite xs off (ys @ zs)"
  by (simp add: overwrite_def ac_simps)

section \<open>C strings\<close>

definition NUL :: char where
  "NUL = CHR 0x00"

definition no_nul :: "char list \<Rightarrow> bool" where
  "no_nul s \<longleftrightarrow> NUL \<notin> set s"

text \<open>The string held by an array: the characters before the first NUL.\<close>

definition cstr :: "char list \<Rightarrow> char list" where
  "cstr xs = takeWhile (\<lambda>c. c \<noteq> NUL) xs"

text \<open>\<open>strlen\<close> of an array: running past its end without meeting a NUL is a fault.\<close>

definition cstring :: "char list \<Rightarrow> char list res" where
  "cstring xs = (if NUL \<in> set xs then Inr (cstr xs) else Inl OutOfBounds)"

text \<open>\<open>strncpy(dst, src, n)\<close> writes exactly \<open>n\<close> bytes: the source up to its first NUL, then
  zeros.\<close>

definition strncpy_bytes :: "char list \<Rightarrow> nat \<Rightarrow> char list" where
  "strncpy_bytes src n = (let s = take n (cstr src) in s @ replicate (n - length s) NUL)"

definition zeros :: "nat \<Rightarrow> char list" where
  "zeros n = replicate n NUL"

lemma no_nul_Nil [simp, cstr_simps]: "no_nul []"
  by (simp add: no_nul_def)

lemma no_nul_Cons [simp, cstr_simps]: "no_nul (c # s) \<longleftrightarrow> c \<noteq> NUL \<and> no_nul s"
  by (auto simp: no_nul_def)

lemma no_nul_append [simp, cstr_simps]: "no_nul (s @ t) \<longleftrightarrow> no_nul s \<and> no_nul t"
  by (auto simp: no_nul_def)

lemma cstr_no_nul [simp, cstr_simps]: "no_nul s \<Longrightarrow> cstr s = s"
  by (induction s) (simp_all add: cstr_def)

lemma no_nul_cstr [simp, cstr_simps]: "no_nul (cstr xs)"
  by (auto simp: cstr_def no_nul_def dest: set_takeWhileD)

lemma cstr_terminated [simp, cstr_simps]: "no_nul s \<Longrightarrow> cstr (s @ NUL # t) = s"
  by (induction s) (simp_all add: cstr_def)

lemma cstr_append_nul_free: "no_nul s \<Longrightarrow> cstr (s @ t) = s @ cstr t"
  by (induction s) (simp_all add: cstr_def)

lemma length_cstr_le: "length (cstr xs) \<le> length xs"
  by (simp add: cstr_def length_takeWhile_le)

lemma cstring_terminated [simp]: "no_nul s \<Longrightarrow> cstring (s @ NUL # t) = Inr s"
  by (simp add: cstring_def)

lemma length_cstr_less: "NUL \<in> set xs \<Longrightarrow> length (cstr xs) < length xs"
  by (induction xs) (auto simp: cstr_def)

lemma length_strncpy_bytes [simp]: "length (strncpy_bytes src n) = n"
  by (simp add: strncpy_bytes_def Let_def)

lemma strncpy_bytes_exact: "no_nul s \<Longrightarrow> strncpy_bytes (s @ t) (length s) = s"
  by (simp add: strncpy_bytes_def Let_def cstr_append_nul_free)

lemma length_zeros [simp]: "length (zeros n) = n"
  by (simp add: zeros_def)

lemma cstr_zeros [simp]: "0 < n \<Longrightarrow> cstr (zeros n) = []"
  by (cases n) (simp_all add: zeros_def cstr_def)

lemma overwrite_zeros: "length s \<le> n \<Longrightarrow> overwrite (zeros n) 0 s = s @ zeros (n - length s)"
  by (simp add: overwrite_def zeros_def)

text \<open>An array cleared by \<open>memset\<close> and then filled with a short string holds that string.\<close>

lemma cstr_padded [simp]: "no_nul s \<Longrightarrow> cstr (s @ zeros k) = s"
  by (cases k) (simp_all add: zeros_def)

section \<open>Case-insensitive comparison\<close>

definition tolower :: "char \<Rightarrow> char" where
  "tolower c = (if 65 \<le> (of_char c :: nat) \<and> (of_char c :: nat) \<le> 90
                then char_of ((of_char c :: nat) + 32) else c)"

text \<open>\<open>strcasecmp(a, b) == 0\<close> on two C strings.\<close>

definition strcaseeq :: "char list \<Rightarrow> char list \<Rightarrow> bool" where
  "strcaseeq a b \<longleftrightarrow> map tolower a = map tolower b"

lemma strcaseeq_refl [simp]: "strcaseeq a a"
  by (simp add: strcaseeq_def)

lemma strcaseeq_sym: "strcaseeq a b \<longleftrightarrow> strcaseeq b a"
  by (auto simp: strcaseeq_def)

lemma strcaseeq_trans: "strcaseeq a b \<Longrightarrow> strcaseeq b c \<Longrightarrow> strcaseeq a c"
  by (simp add: strcaseeq_def)

lemma strcaseeq_length: "strcaseeq a b \<Longrightarrow> length a = length b"
  unfolding strcaseeq_def by (metis length_map)

section \<open>Machine integers and decimal conversion\<close>

definition INT_MAX :: int where
  "INT_MAX = 2147483647"

text \<open>The digits that \<open>printf("%d")\<close> writes.\<close>

definition digit :: "nat \<Rightarrow> char" where
  "digit d = char_of (48 + d)"

fun show_nat :: "nat \<Rightarrow> char list" where
  "show_nat n = (if n < 10 then [digit n] else show_nat (n div 10) @ [digit (n mod 10)])"

declare show_nat.simps [simp del]

definition show_int :: "int \<Rightarrow> char list" where
  "show_int i = (if i < 0 then CHR ''-'' # show_nat (nat (- i)) else show_nat (nat i))"

definition is_digit :: "char \<Rightarrow> bool" where
  "is_digit c \<longleftrightarrow> 48 \<le> (of_char c :: nat) \<and> (of_char c :: nat) \<le> 57"

definition digit_val :: "char \<Rightarrow> nat" where
  "digit_val c = of_char c - 48"

text \<open>The value of the leading digits of a string.\<close>

definition dec_value :: "char list \<Rightarrow> nat" where
  "dec_value s = foldl (\<lambda>a c. 10 * a + digit_val c) 0 (takeWhile is_digit s)"

lemma of_char_digit: "d < 10 \<Longrightarrow> of_char (digit d) = (48 + d :: nat)"
  by (simp add: digit_def)

lemma is_digit_digit: "d < 10 \<Longrightarrow> is_digit (digit d)"
  by (simp add: is_digit_def of_char_digit)

lemma digit_val_digit: "d < 10 \<Longrightarrow> digit_val (digit d) = d"
  by (simp add: digit_val_def of_char_digit)

lemma digit_not_nul: "d < 10 \<Longrightarrow> digit d \<noteq> NUL"
  using of_char_digit [of d] by (auto simp: NUL_def)

lemma show_nat_digits: "\<forall>c \<in> set (show_nat n). is_digit c"
proof (induction n rule: show_nat.induct)
  case (1 n)
  then show ?case
    by (subst show_nat.simps) (auto simp: is_digit_digit)
qed

lemma no_nul_show_nat [simp]: "no_nul (show_nat n)"
  using show_nat_digits [of n] by (auto simp: no_nul_def is_digit_def NUL_def)

lemma show_nat_nonempty [simp]: "show_nat n \<noteq> []"
  by (subst show_nat.simps) simp

lemma foldl_show_nat: "foldl (\<lambda>a c. 10 * a + digit_val c) 0 (show_nat n) = n"
proof (induction n rule: show_nat.induct)
  case (1 n)
  then show ?case
    by (subst show_nat.simps) (auto simp: digit_val_digit)
qed

lemma dec_value_show_nat:
  assumes "s = [] \<or> \<not> is_digit (hd s)"
  shows "dec_value (show_nat n @ s) = n"
proof -
  have "takeWhile is_digit s = []" using assms by (cases s) auto
  then show ?thesis
    using show_nat_digits [of n] by (simp add: dec_value_def foldl_show_nat)
qed

text \<open>A number below \<open>10 ^ k\<close> takes at most \<open>k\<close> digits.\<close>

lemma length_show_nat: "0 < k \<Longrightarrow> n < 10 ^ k \<Longrightarrow> length (show_nat n) \<le> k"
proof (induction n arbitrary: k rule: show_nat.induct)
  case (1 n)
  show ?case
  proof (cases "n < 10")
    case True
    with 1(2) show ?thesis by (subst show_nat.simps) simp
  next
    case False
    obtain j where j: "k = Suc j" using 1(2) by (cases k) auto
    with False 1(3) have "0 < j" by (cases j) auto
    moreover have "n div 10 < 10 ^ j" using 1(3) j by (simp add: less_mult_imp_div_less mult.commute)
    ultimately have "length (show_nat (n div 10)) \<le> j" using 1(1) [OF False] by blast
    with False j show ?thesis by (subst show_nat.simps) simp
  qed
qed

end
