(* ===== verification/Config.thy ===== *)
theory Config
  imports Prelude
begin

text \<open>
  The limits and the shared structs of \<^verbatim>\<open>src/config/config.h\<close>: sizes of the fixed buffers of
  a request, the method codes and the key-value pair of the query parser.
\<close>

definition MAX_KEY_SIZE :: nat where
  "MAX_KEY_SIZE = 128"

definition MAX_VALUE_SIZE :: nat where
  "MAX_VALUE_SIZE = 128"

definition MAX_METHOD_SIZE :: nat where
  "MAX_METHOD_SIZE = 8"

definition MAX_PATH_SIZE :: nat where
  "MAX_PATH_SIZE = 256"

definition MAX_HEADER_COUNT :: nat where
  "MAX_HEADER_COUNT = 128"

definition MAX_QUERY_COUNT :: nat where
  "MAX_QUERY_COUNT = 10"

lemmas config_sizes = MAX_KEY_SIZE_def MAX_VALUE_SIZE_def MAX_METHOD_SIZE_def MAX_PATH_SIZE_def
  MAX_HEADER_COUNT_def MAX_QUERY_COUNT_def

text \<open>The anonymous enumeration of methods, with its C values.\<close>

definition GET :: int where
  "GET = 1"

definition POST :: int where
  "POST = 2"

text \<open>\<open>pair_t\<close>: two character arrays.\<close>

record pair_t =
  pkey :: "char list"
  pval :: "char list"

definition zero_pair :: pair_t where
  "zero_pair = \<lparr>pkey = zeros MAX_KEY_SIZE, pval = zeros MAX_VALUE_SIZE\<rparr>"

end
