(* ===== verification/Decoder.thy ===== *)
theory Decoder
  imports Prelude
begin

text \<open>
  The percent-decoder of \<^verbatim>\<open>src/url/decoder.c\<close>: the two escape tables and the index loop of
  \<open>decode_url\<close>, writing into a caller-supplied array.  The loop is shown equivalent to a
  structural decoder on strings, from which the bounds, the totality and the round trip follow,
  and what the loop does with an escape at the very end of the path.
\<close>

section \<open>The code\<close>

definition get_2_char :: "char \<Rightarrow> char" where
  "get_2_char x =
     (if x = CHR ''0'' then CHR '' ''
      else if x = CHR ''2'' then CHR 0x22
      else if x = CHR ''3'' then CHR ''#''
      else if x = CHR ''5'' then CHR ''%''
      else if x = CHR ''7'' then CHR 0x27
      else if x = CHR ''B'' then CHR ''+''
      else if x = CHR ''F'' then CHR ''/''
      else NUL)"

definition get_3_char :: "char \<Rightarrow> char" where
  "get_3_char x =
     (if x = CHR ''A'' then CHR '':''
      else if x = CHR ''B'' then CHR '';''
      else if x = CHR ''C'' then CHR ''<''
      else if x = CHR ''D'' then CHR ''=''
      else if x = CHR ''E'' then CHR ''>''
      else if x = CHR ''F'' then CHR ''?''
      else NUL)"

text \<open>The loop of \<open>decode_url\<close>; \<open>url\<close> is the C string without its terminator, \<open>dec\<close> the output
  array.  The guard compares signed integers, so \<open>n - 3\<close> may be negative.\<close>

function dec_loop :: "char list \<Rightarrow> nat \<Rightarrow> nat \<Rightarrow> char list \<Rightarrow> (int \<times> char list) res" where
  "dec_loop url i len dec =
     (let n = length url in
      if i < n then
        (if url ! i = CHR ''%'' \<and> int i < int n - 3 then
           (if url ! (i + 1) = CHR ''2'' then
              (let x = get_2_char (url ! (i + 2)) in
               if x = NUL then Inr (-1, dec)
               else rbind (arr_put dec len x) (\<lambda>dec'. dec_loop url (i + 3) (len + 1) dec'))
            else if url ! (i + 1) = CHR ''3'' then
              (let x = get_3_char (url ! (i + 2)) in
               if x = NUL then Inr (-1, dec)
               else rbind (arr_put dec len x) (\<lambda>dec'. dec_loop url (i + 3) (len + 1) dec'))
            else Inr (-1, dec))
         else rbind (arr_put dec len (url ! i)) (\<lambda>dec'. dec_loop url (i + 1) (len + 1) dec'))
      else rbind (arr_put dec len NUL) (\<lambda>dec'. Inr (0, dec')))"
  by pat_completeness auto
termination
  by (relation "measure (\<lambda>(url, i, len, dec). length url - i)") (auto simp: Let_def)

declare dec_loop.simps [simp del]

definition decode_url :: "char list \<Rightarrow> char list \<Rightarrow> (int \<times> char list) res" where
  "decode_url url dec = dec_loop url 0 0 dec"

section \<open>A structural decoder\<close>

definition escape :: "char \<Rightarrow> char \<Rightarrow> char option" where
  "escape a b =
     (let x = (if a = CHR ''2'' then get_2_char b else if a = CHR ''3'' then get_3_char b else NUL)
      in if x = NUL then None else Some x)"

text \<open>An escape is recognised when at least three characters follow the percent sign, one more
  than it needs.\<close>

fun pct_decode :: "char list \<Rightarrow> char list option" where
  "pct_decode (p # a # b # c # rest) =
     (if p = CHR ''%'' then
        (case escape a b of None \<Rightarrow> None | Some x \<Rightarrow> map_option ((#) x) (pct_decode (c # rest)))
      else map_option ((#) p) (pct_decode (a # b # c # rest)))"
| "pct_decode s = Some s"


lemma pct_decode_plain:
  "\<not> (x = CHR ''%'' \<and> 3 \<le> length xs) \<Longrightarrow> pct_decode (x # xs) = map_option ((#) x) (pct_decode xs)"
  by (cases xs rule: pct_decode.cases) (auto simp: numeral_3_eq_3 elim: pct_decode.elims split: list.splits)

lemma length_pct_decode: "pct_decode s = Some t \<Longrightarrow> length t \<le> length s"
  by (induction s arbitrary: t rule: pct_decode.induct) (fastforce split: if_splits option.splits)+

lemma escape_not_nul: "escape a b = Some x \<Longrightarrow> x \<noteq> NUL"
  by (auto simp: escape_def Let_def split: if_splits)

lemma no_nul_pct_decode: "pct_decode s = Some t \<Longrightarrow> no_nul s \<Longrightarrow> no_nul t"
  by (induction s arbitrary: t rule: pct_decode.induct)
     (auto split: if_splits option.splits dest: escape_not_nul)

text \<open>The loop, started at any index, computes the structural decoder on the rest of the input.\<close>

lemma dec_loop_eq:
  assumes "i \<le> length url" and "len \<le> i" and "length url < length dec"
  shows "case pct_decode (drop i url) of
           None \<Rightarrow> \<exists>d. dec_loop url i len dec = Inr (-1, d) \<and> length d = length dec
         | Some s \<Rightarrow> dec_loop url i len dec = Inr (0, overwrite dec len (s @ [NUL]))"
  using assms
proof (induction url i len dec rule: dec_loop.induct)
  case (1 url i len dec)
  have room: "len < length dec" using 1 by simp
  show ?case
  proof (cases "i < length url")
    case False
    with 1 room show ?thesis
      by (subst dec_loop.simps) (simp add: overwrite_single)
  next
    case True
    show ?thesis
    proof (cases "url ! i = CHR ''%'' \<and> int i < int (length url) - 3")
      case False
      have d: "drop i url = url ! i # drop (i + 1) url" using True by (simp add: Cons_nth_drop_Suc)
      have p: "pct_decode (drop i url) = map_option ((#) (url ! i)) (pct_decode (drop (i + 1) url))"
        unfolding d using False True by (intro pct_decode_plain) auto
      have e: "dec_loop url i len dec = dec_loop url (i + 1) (len + 1) (dec[len := url ! i])"
        by (subst dec_loop.simps)
           (simp only: Let_def if_P [OF True] if_not_P [OF False] arr_put_ok [OF room] rbind_Inr)
      have "case pct_decode (drop (i + 1) url) of
           None \<Rightarrow> \<exists>d. dec_loop url (i + 1) (len + 1) (dec[len := url ! i]) = Inr (-1, d)
                    \<and> length d = length (dec[len := url ! i])
         | Some s \<Rightarrow> dec_loop url (i + 1) (len + 1) (dec[len := url ! i])
               = Inr (0, overwrite (dec[len := url ! i]) (len + 1) (s @ [NUL]))"
        using 1 True False room by (intro "1.IH"(3)) auto
      then show ?thesis unfolding p e using room
        by (auto simp: overwrite_Cons split: option.splits)
    next
      case pct: True
      then have four: "i + 3 < length url" by simp
      have d: "drop i url = url ! i # url ! (i + 1) # url ! (i + 2) # url ! (i + 3) # drop (i + 4) url"
        using four by (simp add: Cons_nth_drop_Suc numeral_eq_Suc)
      have d3: "drop (i + 3) url = url ! (i + 3) # drop (i + 4) url"
        using four by (simp add: Cons_nth_drop_Suc numeral_eq_Suc)
      show ?thesis
      proof (cases "escape (url ! (i + 1)) (url ! (i + 2))")
        case None
        then have "dec_loop url i len dec = Inr (-1, dec)"
          using True pct by (subst dec_loop.simps) (auto simp: Let_def escape_def split: if_splits)
        then show ?thesis unfolding d using pct None by simp
      next
        case (Some x)
        have e: "dec_loop url i len dec = dec_loop url (i + 3) (len + 1) (dec[len := x])"
          using True pct Some room
          by (subst dec_loop.simps) (auto simp: Let_def escape_def split: if_splits)
        have p: "pct_decode (drop i url) = map_option ((#) x) (pct_decode (drop (i + 3) url))"
          unfolding d using pct Some d3 by simp
        have "case pct_decode (drop (i + 3) url) of
           None \<Rightarrow> \<exists>d. dec_loop url (i + 3) (len + 1) (dec[len := x]) = Inr (-1, d)
                    \<and> length d = length (dec[len := x])
         | Some s \<Rightarrow> dec_loop url (i + 3) (len + 1) (dec[len := x])
               = Inr (0, overwrite (dec[len := x]) (len + 1) (s @ [NUL]))"
        proof (cases "url ! (i + 1) = CHR ''2''")
          case c2: True
          with Some have "x = get_2_char (url ! (i + 2))" "x \<noteq> NUL"
            by (auto simp: escape_def Let_def split: if_splits)
          then show ?thesis using 1 True pct four room c2 by (intro "1.IH"(1)) auto
        next
          case c2: False
          with Some have "x = get_3_char (url ! (i + 2))" "x \<noteq> NUL" "url ! (i + 1) = CHR ''3''"
            by (auto simp: escape_def Let_def split: if_splits)
          then show ?thesis using 1 True pct four room c2 by (intro "1.IH"(2)) auto
        qed
        then show ?thesis unfolding p e using room
          by (auto simp: overwrite_Cons split: option.splits)
      qed
    qed
  qed
qed

section \<open>The contract the URL parser relies on\<close>

text \<open>Given the raw path and an array one longer, decoding either reports failure or leaves a
  NUL-terminated string without inner NULs that is no longer than the input.\<close>

locale url_decoder =
  fixes decode :: "char list \<Rightarrow> char list \<Rightarrow> (int \<times> char list) res"
  assumes decode_total: "no_nul raw \<Longrightarrow> length dec = length raw + 1 \<Longrightarrow>
      (\<exists>d. decode raw dec = Inr (-1, d))
    \<or> (\<exists>s t. decode raw dec = Inr (0, s @ NUL # t) \<and> no_nul s \<and> length s \<le> length raw)"
begin

lemma decode_cstring:
  assumes "no_nul raw" and "length dec = length raw + 1" and "decode raw dec = Inr (0, d)"
  shows "\<exists>s. cstring d = Inr s \<and> no_nul s \<and> length s \<le> length raw"
  using decode_total [OF assms(1,2)] assms(3) by auto

lemma decode_no_fault: "no_nul raw \<Longrightarrow> length dec = length raw + 1 \<Longrightarrow> decode raw dec \<noteq> Inl e"
  using decode_total by fastforce

end

lemma decode_url_cases:
  assumes "length url < length dec"
  shows "case pct_decode url of
           None \<Rightarrow> \<exists>d. decode_url url dec = Inr (-1, d) \<and> length d = length dec
         | Some s \<Rightarrow> decode_url url dec = Inr (0, s @ NUL # drop (length s + 1) dec)"
  using dec_loop_eq [of 0 url 0 dec] assms length_pct_decode [of url]
  by (auto simp: decode_url_def overwrite_def split: option.splits)

interpretation decoder: url_decoder decode_url
proof
  fix raw dec :: "char list"
  assume "no_nul raw" and "length dec = length raw + 1"
  then show "(\<exists>d. decode_url raw dec = Inr (-1, d))
    \<or> (\<exists>s t. decode_url raw dec = Inr (0, s @ NUL # t) \<and> no_nul s \<and> length s \<le> length raw)"
    using decode_url_cases [of raw dec] length_pct_decode no_nul_pct_decode
    by (fastforce split: option.splits)
qed

section \<open>An encoder, for the round trip\<close>

text \<open>The inverse of the two tables: every character an escape exists for is escaped.\<close>

definition escape_of :: "char \<Rightarrow> char list" where
  "escape_of c =
     (if c = CHR '' '' then ''%20'' else if c = CHR 0x22 then ''%22'' else if c = CHR ''#'' then ''%23''
      else if c = CHR ''%'' then ''%25'' else if c = CHR 0x27 then ''%27'' else if c = CHR ''+'' then ''%2B''
      else if c = CHR ''/'' then ''%2F'' else if c = CHR '':'' then ''%3A'' else if c = CHR '';'' then ''%3B''
      else if c = CHR ''<'' then ''%3C'' else if c = CHR ''='' then ''%3D'' else if c = CHR ''>'' then ''%3E''
      else if c = CHR ''?'' then ''%3F'' else [c])"

definition pct_encode :: "char list \<Rightarrow> char list" where
  "pct_encode s = concat (map escape_of s)"

lemma pct_encode_simps [simp]:
  "pct_encode [] = []" "pct_encode (c # s) = escape_of c @ pct_encode s"
  by (simp_all add: pct_encode_def)

lemma pct_decode_escape_of:
  "rest \<noteq> [] \<Longrightarrow> pct_decode (escape_of c @ rest) = map_option ((#) c) (pct_decode rest)"
  by (cases rest)
     (auto simp: escape_of_def escape_def get_2_char_def get_3_char_def NUL_def pct_decode_plain)

lemma pct_decode_encode:
  "rest \<noteq> [] \<Longrightarrow> pct_decode (pct_encode s @ rest) = map_option ((@) s) (pct_decode rest)"
proof (induction s)
  case Nil
  then show ?case by (simp add: option.map_ident)
next
  case (Cons c s)
  then show ?case by (simp add: pct_decode_escape_of option.map_comp comp_def)
qed

section \<open>Properties\<close>

text \<open>C35: \<open>decode_url\<close> with an output array longer than its input never writes out of bounds and
  computes exactly the structural decoder: it returns 0 with the decoded string, terminated,
  at the front of the array (the rest of the array untouched), or -1 when an escape is not in
  its tables.\<close>

theorem decode_url_correct:
  assumes "length url < length dec"
  shows "(pct_decode url = None \<and> (\<exists>d. decode_url url dec = Inr (-1, d)))
       \<or> (\<exists>s. pct_decode url = Some s \<and> length s \<le> length url
            \<and> decode_url url dec = Inr (0, s @ NUL # drop (length s + 1) dec))"
  using decode_url_cases [OF assms] length_pct_decode [of url] by (auto split: option.splits)

theorem decode_url_correct_witness:
  "decode_url ''/a%20b'' (zeros 7) = Inr (0, ''/a b'' @ NUL # zeros 2)"
proof -
  have p: "pct_decode ''/a%20b'' = Some ''/a b''"
    by (simp add: escape_def get_2_char_def NUL_def)
  have l: "length ''/a%20b'' < length (zeros 7)" by simp
  show ?thesis using decode_url_correct [OF l] unfolding p by (auto simp: zeros_def)
qed

text \<open>Round trip: escape every character that has an escape, append any one character, and
  \<open>decode_url\<close> gives the original back, for every string and every output array that is longer
  than the encoded input.\<close>

theorem decode_url_roundtrip:
  assumes "length (pct_encode s @ [c]) < length dec"
  shows "decode_url (pct_encode s @ [c]) dec = Inr (0, s @ c # NUL # drop (length s + 2) dec)"
  using decode_url_cases [OF assms] by (simp add: pct_decode_encode)

theorem decode_url_roundtrip_witness:
  "decode_url (pct_encode ''a/b='' @ ''c'') (zeros 11) = Inr (0, ''a/b=c'' @ NUL # zeros 5)"
proof -
  have l: "length (pct_encode ''a/b='' @ [CHR ''c'']) < length (zeros 11)"
    by (simp add: escape_of_def)
  show ?thesis using decode_url_roundtrip [OF l] by (simp add: zeros_def)
qed

text \<open>An escape at the very end of the path is never decoded (the loop guard asks for one
  character too many): whatever two characters follow the last percent sign, known escape or
  not, all three are copied through.\<close>

theorem decode_url_trailing_escape:
  assumes "length (pct_encode s) + 3 < length dec"
  shows "decode_url (pct_encode s @ [CHR ''%'', a, b]) dec
           = Inr (0, s @ [CHR ''%'', a, b] @ NUL # drop (length s + 4) dec)"
  using decode_url_cases [of "pct_encode s @ [CHR ''%'', a, b]" dec] assms
  by (simp add: pct_decode_encode numeral_eq_Suc)

theorem decode_url_trailing_escape_witness:
  "decode_url ''docs%2F'' (zeros 8) = Inr (0, ''docs%2F'' @ [NUL])"
  using decode_url_trailing_escape [of "''docs''" "zeros 8" "CHR ''2''" "CHR ''F''"]
  by (simp add: escape_of_def zeros_def)

text \<open>Only the thirteen escapes of the two tables are understood: any other escape that is
  followed by at least one character makes \<open>decode_url\<close> fail, which is reported as a bad
  request; so for instance \<open>%41\<close> and the lower-case \<open>%2f\<close> are refused.\<close>

theorem decode_url_rejects_unknown:
  assumes "escape a b = None" and "length (pct_encode s) + 4 + length rest < length dec"
  shows "\<exists>d. decode_url (pct_encode s @ CHR ''%'' # a # b # c # rest) dec = Inr (-1, d)"
  using decode_url_cases [of "pct_encode s @ CHR ''%'' # a # b # c # rest" dec] assms
  by (auto simp: pct_decode_encode)

theorem decode_url_rejects_unknown_witness:
  "\<exists>d. decode_url ''x%2fy'' (zeros 6) = Inr (-1, d)"
  using decode_url_rejects_unknown [of "CHR ''2''" "CHR ''f''" "''x''" "[]" "zeros 6" "CHR ''y''"]
  by (simp add: escape_def get_2_char_def escape_of_def)

end
