(* ===== verification/Url.thy ===== *)
theory Url
  imports Config Decoder
begin

text \<open>
  The URL splitter of \<^verbatim>\<open>src/url/url.c\<close> and \<^verbatim>\<open>url.h\<close>: \<open>seperate_query\<close> decodes the raw path and
  walks over it once, filling the fixed arrays of \<open>url_t\<close> (one path of 256 bytes, ten queries of
  two 128-byte arrays).  Every write is bounds-checked, so the theory can say exactly which
  requests overrun the arrays, that well-formed requests come back as they were rendered, and
  what the walk does to a value that contains an equals sign.
\<close>

section \<open>The code\<close>

record url_t =
  path :: "char list"
  queries :: "pair_t list"
  query_count :: nat
  path_len :: nat

definition init_url :: url_t where
  "init_url = \<lparr>path = zeros MAX_PATH_SIZE, queries = replicate MAX_QUERY_COUNT zero_pair,
               query_count = 0, path_len = 0\<rparr>"

text \<open>\<open>url->queries[q].key[j] = c\<close> and \<open>url->queries[q].value[j] = c\<close>.\<close>

definition put_key :: "url_t \<Rightarrow> nat \<Rightarrow> char \<Rightarrow> url_t res" where
  "put_key u j c =
     rbind (arr_get (queries u) (query_count u)) (\<lambda>p.
     rbind (arr_put (pkey p) j c) (\<lambda>k.
     Inr (u\<lparr>queries := (queries u)[query_count u := p\<lparr>pkey := k\<rparr>]\<rparr>)))"

definition put_value :: "url_t \<Rightarrow> nat \<Rightarrow> char \<Rightarrow> url_t res" where
  "put_value u j c =
     rbind (arr_get (queries u) (query_count u)) (\<lambda>p.
     rbind (arr_put (pval p) j c) (\<lambda>v.
     Inr (u\<lparr>queries := (queries u)[query_count u := p\<lparr>pval := v\<rparr>]\<rparr>)))"

text \<open>The local variables of the loop.\<close>

record walk =
  w_url :: url_t
  w_found :: bool
  w_name :: bool     \<comment> \<open>\<open>qeury_name\<close>: the next characters belong to a key\<close>
  w_j :: nat

definition walk_init :: walk where
  "walk_init = \<lparr>w_url = init_url, w_found = False, w_name = True, w_j = 0\<rparr>"

text \<open>One round of the loop on the character \<open>dec_path[i]\<close>.\<close>

definition walk_step :: "char \<Rightarrow> walk \<Rightarrow> walk res" where
  "walk_step c w =
     (if w_found w then
        (if c = CHR ''&'' then
           rbind (put_value (w_url w) (w_j w) NUL) (\<lambda>u.
           Inr (w\<lparr>w_url := u\<lparr>query_count := query_count u + 1\<rparr>, w_j := 0, w_name := True\<rparr>))
         else if c = CHR ''='' then
           rbind (put_key (w_url w) (w_j w) NUL) (\<lambda>u.
           Inr (w\<lparr>w_url := u, w_j := 0, w_name := False\<rparr>))
         else if w_name w then
           rbind (put_key (w_url w) (w_j w) c) (\<lambda>u. Inr (w\<lparr>w_url := u, w_j := w_j w + 1\<rparr>))
         else
           rbind (put_value (w_url w) (w_j w) c) (\<lambda>u. Inr (w\<lparr>w_url := u, w_j := w_j w + 1\<rparr>)))
      else if c = CHR ''?'' then Inr (w\<lparr>w_found := True\<rparr>)
      else rbind (arr_put (path (w_url w)) (path_len (w_url w)) c) (\<lambda>p.
           Inr (w\<lparr>w_url := (w_url w)\<lparr>path := p, path_len := path_len (w_url w) + 1\<rparr>\<rparr>)))"

fun walk_loop :: "char list \<Rightarrow> walk \<Rightarrow> walk res" where
  "walk_loop [] w = Inr w"
| "walk_loop (c # s) w = rbind (walk_step c w) (walk_loop s)"

text \<open>After the loop: terminate the path, and close the last query.\<close>

definition walk_end :: "walk \<Rightarrow> url_t res" where
  "walk_end w =
     rbind (arr_put (path (w_url w)) (path_len (w_url w)) NUL) (\<lambda>p.
     let u = (w_url w)\<lparr>path := p\<rparr> in
     if w_found w
     then rbind (put_value u (w_j w) NUL) (\<lambda>u'. Inr (u'\<lparr>query_count := query_count u' + 1\<rparr>))
     else Inr u)"

text \<open>\<open>seperate_query\<close>; \<open>junk\<close> is the indeterminate content of the array \<open>dec_path\<close>, which has
  \<open>strlen(raw_path) + 1\<close> bytes.  It returns 1 when decoding fails (the struct is then cleared).\<close>

definition seperate_query :: "(nat \<Rightarrow> char) \<Rightarrow> char list \<Rightarrow> (int \<times> url_t) res" where
  "seperate_query junk raw_path =
     rbind (decode_url raw_path (map junk [0..<length raw_path + 1])) (\<lambda>(r, dec_path).
     if r \<noteq> 0 then Inr (1, init_url)
     else rbind (cstring dec_path) (\<lambda>s.
          rbind (walk_loop s walk_init) (\<lambda>w.
          rbind (walk_end w) (\<lambda>u. Inr (0, u)))))"

text \<open>What the function computes once the path is decoded.\<close>

definition split_url :: "char list \<Rightarrow> url_t res" where
  "split_url s = rbind (walk_loop s walk_init) walk_end"

lemma seperate_query_eq:
  assumes "no_nul raw"
  shows "seperate_query junk raw =
     (case pct_decode raw of None \<Rightarrow> Inr (1, init_url)
      | Some s \<Rightarrow> rbind (split_url s) (\<lambda>u. Inr (0, u)))"
  using decode_url_cases [of raw "map junk [0..<length raw + 1]"] assms no_nul_pct_decode [of raw]
  by (auto simp: seperate_query_def split_url_def rbind_assoc split: option.splits)

section \<open>Walking over a run of ordinary characters\<close>

lemma walk_loop_append: "walk_loop (s @ t) w = rbind (walk_loop s w) (walk_loop t)"
proof (induction s arbitrary: w)
  case (Cons c s)
  then show ?case by (cases "walk_step c w") simp_all
qed simp

definition no_sep :: "char list \<Rightarrow> bool" where
  "no_sep s \<longleftrightarrow> CHR ''&'' \<notin> set s \<and> CHR ''='' \<notin> set s"

lemma no_sep_simps [simp]:
  "no_sep []" "no_sep (c # s) \<longleftrightarrow> c \<noteq> CHR ''&'' \<and> c \<noteq> CHR ''='' \<and> no_sep s"
  by (auto simp: no_sep_def)

lemma walk_path:
  "\<lbrakk>\<not> w_found w; CHR ''?'' \<notin> set s; path_len (w_url w) + length s \<le> length (path (w_url w))\<rbrakk> \<Longrightarrow>
   walk_loop s w = Inr (w\<lparr>w_url := (w_url w)\<lparr>path := overwrite (path (w_url w)) (path_len (w_url w)) s,
                                              path_len := path_len (w_url w) + length s\<rparr>\<rparr>)"
proof (induction s arbitrary: w)
  case Nil
  then show ?case by simp
next
  case (Cons c s)
  then show ?case by (auto simp: walk_step_def overwrite_Cons)
qed

abbreviation cur :: "url_t \<Rightarrow> pair_t" where
  "cur u \<equiv> queries u ! query_count u"

lemma walk_key:
  "\<lbrakk>w_found w; w_name w; no_sep s; query_count (w_url w) < length (queries (w_url w));
    w_j w + length s \<le> length (pkey (cur (w_url w)))\<rbrakk> \<Longrightarrow>
   walk_loop s w = Inr (w\<lparr>w_url := (w_url w)\<lparr>queries := (queries (w_url w))[query_count (w_url w) :=
       (cur (w_url w))\<lparr>pkey := overwrite (pkey (cur (w_url w))) (w_j w) s\<rparr>]\<rparr>, w_j := w_j w + length s\<rparr>)"
proof (induction s arbitrary: w)
  case Nil
  then show ?case by simp
next
  case (Cons c s)
  then show ?case by (simp add: walk_step_def put_key_def overwrite_Cons)
qed

lemma walk_value:
  "\<lbrakk>w_found w; \<not> w_name w; no_sep s; query_count (w_url w) < length (queries (w_url w));
    w_j w + length s \<le> length (pval (cur (w_url w)))\<rbrakk> \<Longrightarrow>
   walk_loop s w = Inr (w\<lparr>w_url := (w_url w)\<lparr>queries := (queries (w_url w))[query_count (w_url w) :=
       (cur (w_url w))\<lparr>pval := overwrite (pval (cur (w_url w))) (w_j w) s\<rparr>]\<rparr>, w_j := w_j w + length s\<rparr>)"
proof (induction s arbitrary: w)
  case Nil
  then show ?case by simp
next
  case (Cons c s)
  then show ?case by (simp add: walk_step_def put_value_def overwrite_Cons)
qed

section \<open>Which paths fit the arrays\<close>

text \<open>The shape of \<open>url_t\<close>: no operation changes the sizes of its arrays.\<close>

definition url_sized :: "url_t \<Rightarrow> bool" where
  "url_sized u \<longleftrightarrow> length (path u) = 256 \<and> length (queries u) = 10
     \<and> (\<forall>p \<in> set (queries u). length (pkey p) = 128 \<and> length (pval p) = 128)"

lemma url_sized_init: "url_sized init_url"
  by (simp add: url_sized_def init_url_def zero_pair_def config_sizes)

lemma url_sized_upd:
  "url_sized u \<Longrightarrow> length (pkey p) = 128 \<Longrightarrow> length (pval p) = 128 \<Longrightarrow>
     url_sized (u\<lparr>queries := (queries u)[i := p]\<rparr>)"
  by (auto simp: url_sized_def dest!: set_update_subset_insert [THEN subsetD])

lemma url_sized_cur:
  "url_sized u \<Longrightarrow> query_count u < 10 \<Longrightarrow> length (pkey (cur u)) = 128 \<and> length (pval (cur u)) = 128"
  by (simp add: url_sized_def)

lemma put_value_cases:
  assumes "url_sized u"
  shows "if query_count u < 10 \<and> j < 128
         then \<exists>v. put_value u j c = Inr v \<and> url_sized v \<and> query_count v = query_count u
                \<and> path v = path u \<and> path_len v = path_len u
         else put_value u j c = Inl OutOfBounds"
  using url_sized_cur [OF assms] assms
  by (auto simp: put_value_def arr_get_def arr_put_def url_sized_def [of u]
      intro!: url_sized_upd [OF assms])

lemma put_key_cases:
  assumes "url_sized u"
  shows "if query_count u < 10 \<and> j < 128
         then \<exists>v. put_key u j c = Inr v \<and> url_sized v \<and> query_count v = query_count u
                \<and> path v = path u \<and> path_len v = path_len u
         else put_key u j c = Inl OutOfBounds"
  using url_sized_cur [OF assms] assms
  by (auto simp: put_key_def arr_get_def arr_put_def url_sized_def [of u]
      intro!: url_sized_upd [OF assms])

text \<open>The fields of a query string: the maximal runs between ampersands and equals signs.\<close>

fun fields :: "char list \<Rightarrow> char list list" where
  "fields [] = [[]]"
| "fields (c # s) = (if c = CHR ''&'' \<or> c = CHR ''='' then [] # fields s
                    else (c # hd (fields s)) # tl (fields s))"

lemma fields_nonempty [simp]: "fields s \<noteq> []"
  by (cases s) auto

definition query_fits :: "nat \<Rightarrow> nat \<Rightarrow> char list \<Rightarrow> bool" where
  "query_fits q j s \<longleftrightarrow> q + count_list s (CHR ''&'') < 10 \<and> j + length (hd (fields s)) < 128
      \<and> (\<forall>f \<in> set (tl (fields s)). length f < 128)"

lemma fields_all: "(\<forall>f \<in> set (fields s). P f) \<longleftrightarrow> P (hd (fields s)) \<and> (\<forall>f \<in> set (tl (fields s)). P f)"
  by (cases "fields s") auto

text \<open>The query part of the walk, to its end.\<close>

lemma walk_query_cases:
  assumes "url_sized (w_url w)" and "w_found w" and "path_len (w_url w) < 256"
  shows "if query_fits (query_count (w_url w)) (w_j w) s
         then \<exists>u. rbind (walk_loop s w) walk_end = Inr u \<and> path u = (path (w_url w))[path_len (w_url w) := NUL]
                \<and> query_count u = query_count (w_url w) + count_list s (CHR ''&'') + 1
         else rbind (walk_loop s w) walk_end = Inl OutOfBounds"
  using assms
proof (induction s arbitrary: w)
  case Nil
  have sz: "url_sized ((w_url w)\<lparr>path := (path (w_url w))[path_len (w_url w) := NUL]\<rparr>)"
    using Nil by (simp add: url_sized_def)
  from Nil have len: "path_len (w_url w) < length (path (w_url w))" by (simp add: url_sized_def)
  from put_value_cases [OF sz, of "w_j w" NUL] Nil len show ?case
    by (auto simp: walk_end_def query_fits_def Let_def split: if_splits)
next
  case (Cons c s)
  note v = put_value_cases [OF Cons.prems(1), of "w_j w"]
  note k = put_key_cases [OF Cons.prems(1), of "w_j w"]
  show ?case
  proof (cases "query_count (w_url w) < 10 \<and> w_j w < 128")
    case False
    then have "walk_step c w = Inl OutOfBounds"
      using v k Cons.prems(2) by (auto simp: walk_step_def)
    with False show ?thesis by (auto simp: query_fits_def)
  next
    case True
    consider (amp) "c = CHR ''&''" | (eq) "c = CHR ''=''" | (name) "c \<noteq> CHR ''&''" "c \<noteq> CHR ''=''" "w_name w"
      | (val) "c \<noteq> CHR ''&''" "c \<noteq> CHR ''=''" "\<not> w_name w" by blast
    then obtain w' where w': "walk_step c w = Inr w'" "url_sized (w_url w')" "w_found w'"
      "path (w_url w') = path (w_url w)" "path_len (w_url w') = path_len (w_url w)"
      "query_count (w_url w') = query_count (w_url w) + (if c = CHR ''&'' then 1 else 0)"
      "w_j w' = (if c = CHR ''&'' \<or> c = CHR ''='' then 0 else w_j w + 1)"
    proof cases
      case amp
      obtain u where "put_value (w_url w) (w_j w) NUL = Inr u" "url_sized u"
        "query_count u = query_count (w_url w)" "path u = path (w_url w)" "path_len u = path_len (w_url w)"
        using v [of NUL] True by auto
      with amp Cons.prems(2) show ?thesis
        by (intro that [of "w\<lparr>w_url := u\<lparr>query_count := query_count u + 1\<rparr>, w_j := 0, w_name := True\<rparr>"])
           (auto simp: walk_step_def url_sized_def)
    next
      case eq
      obtain u where "put_key (w_url w) (w_j w) NUL = Inr u" "url_sized u"
        "query_count u = query_count (w_url w)" "path u = path (w_url w)" "path_len u = path_len (w_url w)"
        using k [of NUL] True by auto
      with eq Cons.prems(2) show ?thesis
        by (intro that [of "w\<lparr>w_url := u, w_j := 0, w_name := False\<rparr>"]) (auto simp: walk_step_def)
    next
      case name
      obtain u where "put_key (w_url w) (w_j w) c = Inr u" "url_sized u"
        "query_count u = query_count (w_url w)" "path u = path (w_url w)" "path_len u = path_len (w_url w)"
        using k [of c] True by auto
      with name Cons.prems(2) show ?thesis
        by (intro that [of "w\<lparr>w_url := u, w_j := w_j w + 1\<rparr>"]) (auto simp: walk_step_def)
    next
      case val
      obtain u where "put_value (w_url w) (w_j w) c = Inr u" "url_sized u"
        "query_count u = query_count (w_url w)" "path u = path (w_url w)" "path_len u = path_len (w_url w)"
        using v [of c] True by auto
      with val Cons.prems(2) show ?thesis
        by (intro that [of "w\<lparr>w_url := u, w_j := w_j w + 1\<rparr>"]) (auto simp: walk_step_def)
    qed
    have "query_fits (query_count (w_url w)) (w_j w) (c # s)
        \<longleftrightarrow> query_fits (query_count (w_url w')) (w_j w') s"
      using True w'(6,7) by (auto simp: query_fits_def fields_all)
    then show ?thesis
      using Cons.IH [of w'] w' Cons.prems by (auto split: if_splits)
  qed
qed

definition path_part :: "char list \<Rightarrow> char list" where
  "path_part s = takeWhile (\<lambda>c. c \<noteq> CHR ''?'') s"

definition query_part :: "char list \<Rightarrow> char list" where
  "query_part s = tl (dropWhile (\<lambda>c. c \<noteq> CHR ''?'') s)"

lemma path_query_split:
  "CHR ''?'' \<in> set s \<Longrightarrow> s = path_part s @ CHR ''?'' # query_part s"
  unfolding path_part_def query_part_def by (induction s) auto

lemma path_part_id: "CHR ''?'' \<notin> set s \<Longrightarrow> path_part s = s"
  unfolding path_part_def by (induction s) auto

lemma path_part_no_mark: "CHR ''?'' \<notin> set (path_part s)"
  unfolding path_part_def by (auto dest: set_takeWhileD)

lemma no_nul_path_part [simp]: "no_nul s \<Longrightarrow> no_nul (path_part s)"
  unfolding path_part_def by (auto simp: no_nul_def dest: set_takeWhileD)

lemma length_path_part: "length (path_part s) \<le> length s"
  unfolding path_part_def by (rule length_takeWhile_le)

text \<open>The state after the path has been copied.\<close>

definition after_path :: "char list \<Rightarrow> walk" where
  "after_path p = walk_init\<lparr>w_url := init_url\<lparr>path := p @ zeros (256 - length p), path_len := length p\<rparr>\<rparr>"

lemma walk_path_init:
  "CHR ''?'' \<notin> set p \<Longrightarrow> length p \<le> 256 \<Longrightarrow> walk_loop p walk_init = Inr (after_path p)"
  using walk_path [of walk_init p]
  by (simp add: walk_init_def init_url_def after_path_def config_sizes overwrite_zeros)

lemma url_sized_after_path: "length p \<le> 256 \<Longrightarrow> url_sized (w_url (after_path p))"
  by (simp add: url_sized_def after_path_def init_url_def walk_init_def zero_pair_def config_sizes)

lemma zeros_put: "(zeros n)[j := NUL] = zeros n"
  by (cases "j < n") (simp_all add: zeros_def list_update_same_conv list_update_beyond)

lemma padded_put: "length p < n \<Longrightarrow> (p @ zeros (n - length p))[length p := NUL] = p @ zeros (n - length p)"
  by (simp add: list_update_append zeros_put)

lemma split_url_cases:
  assumes "length s < 256"
  shows "if CHR ''?'' \<in> set s \<and> \<not> query_fits 0 0 (query_part s)
         then split_url s = Inl OutOfBounds
         else \<exists>u. split_url s = Inr u \<and> path u = path_part s @ zeros (256 - length (path_part s))
                \<and> query_count u = (if CHR ''?'' \<in> set s then count_list (query_part s) (CHR ''&'') + 1 else 0)"
proof (cases "CHR ''?'' \<in> set s")
  case False
  have "walk_loop s walk_init = Inr (after_path s)" using False assms by (simp add: walk_path_init)
  then have "split_url s = walk_end (after_path s)" by (simp add: split_url_def)
  with False assms show ?thesis
    by (simp add: path_part_id walk_end_def after_path_def padded_put Let_def walk_init_def init_url_def)
next
  case True
  let ?p = "path_part s" and ?q = "query_part s"
  let ?w = "(after_path ?p)\<lparr>w_found := True\<rparr>"
  have lp: "length ?p < 256" using length_path_part [of s] assms by simp
  have "split_url s = split_url (?p @ CHR ''?'' # ?q)" using path_query_split [OF True] by simp
  also have "\<dots> = rbind (walk_loop ?q ?w) walk_end"
    unfolding split_url_def walk_loop_append walk_path_init [OF path_part_no_mark less_imp_le [OF lp]]
    by (simp add: walk_step_def after_path_def walk_init_def)
  finally have eq: "split_url s = rbind (walk_loop ?q ?w) walk_end" .
  have w: "w_j ?w = 0" "query_count (w_url ?w) = 0" "path_len (w_url ?w) = length ?p"
    "path (w_url ?w) = ?p @ zeros (256 - length ?p)" "w_found ?w" "w_url ?w = w_url (after_path ?p)"
    by (simp_all add: after_path_def walk_init_def init_url_def)
  have "url_sized (w_url ?w)" unfolding w(6) using lp by (intro url_sized_after_path) simp
  from walk_query_cases [OF this w(5), of ?q, unfolded w(1-4)] show ?thesis
    unfolding eq using True lp by (auto simp: padded_put split: if_splits)
qed

lemma query_fits_0:
  "query_fits 0 0 q \<longleftrightarrow> count_list q (CHR ''&'') < 10 \<and> (\<forall>f \<in> set (fields q). length f < 128)"
  by (simp add: query_fits_def fields_all)

lemma path_of_result:
  assumes "no_nul raw" and "length raw < 256" and "pct_decode raw = Some s"
    and "seperate_query junk raw = Inr (0, u)"
  shows "cstring (path u) = Inr (path_part s)
     \<and> query_count u = (if CHR ''?'' \<in> set s then count_list (query_part s) (CHR ''&'') + 1 else 0)"
proof -
  have s: "length s < 256" "no_nul s"
    using length_pct_decode [OF assms(3)] no_nul_pct_decode [OF assms(3)] assms(1,2) by auto
  have "length (path_part s) < 256" using length_path_part [of s] s by simp
  moreover have "zeros (Suc n) = NUL # zeros n" for n by (simp add: zeros_def)
  ultimately have "cstring (path_part s @ zeros (256 - length (path_part s))) = Inr (path_part s)"
    using s(2) by (metis Suc_diff_Suc cstring_terminated no_nul_path_part)
  then show ?thesis
    using split_url_cases [OF s(1)] seperate_query_eq [OF assms(1), of junk] assms(3,4)
    by (auto split: if_splits)
qed

section \<open>Well-formed query strings\<close>

text \<open>A pair stored with its padding.\<close>

definition stored :: "char list \<Rightarrow> char list \<Rightarrow> pair_t" where
  "stored k v = \<lparr>pkey = k @ zeros (128 - length k), pval = v @ zeros (128 - length v)\<rparr>"

lemma zero_pair_stored: "zero_pair = stored [] []"
  by (simp add: zero_pair_def stored_def config_sizes)

lemma stored_put:
  "length v < 128 \<Longrightarrow> length (pval (stored k v)) = 128"
  "length v < 128 \<Longrightarrow> (stored k v)\<lparr>pval := (pval (stored k v))[length v := NUL]\<rparr> = stored k v"
  by (simp_all add: stored_def padded_put)

text \<open>Walking over \<open>k=v\<close> with a cleared current query.\<close>

lemma walk_pair:
  assumes "w_found w" "w_name w" "w_j w = 0" "no_sep k" "no_sep v" "length k < 128" "length v < 128"
    and "query_count (w_url w) < length (queries (w_url w))" "cur (w_url w) = zero_pair"
  shows "walk_loop (k @ CHR ''='' # v) w = Inr (w\<lparr>w_url := (w_url w)\<lparr>queries :=
     (queries (w_url w))[query_count (w_url w) := stored k v]\<rparr>, w_name := False, w_j := length v\<rparr>)"
  using assms
  by (simp add: walk_loop_append walk_key walk_value walk_step_def put_key_def zero_pair_def
      config_sizes overwrite_zeros padded_put stored_def)

lemma walk_amp:
  assumes "w_found w" and "queries (w_url w) = done @ stored k v # rest"
    and "query_count (w_url w) = length done" and "w_j w = length v" and "length v < 128"
  shows "walk_step CHR ''&'' w = Inr (w\<lparr>w_url := (w_url w)\<lparr>queries := done @ stored k v # rest,
     query_count := length done + 1\<rparr>, w_j := 0, w_name := True\<rparr>)"
  using assms by (simp add: walk_step_def put_value_def stored_put)

fun render :: "(char list \<times> char list) list \<Rightarrow> char list" where
  "render [] = []"
| "render [(k, v)] = k @ CHR ''='' # v"
| "render ((k, v) # r) = k @ CHR ''='' # v @ CHR ''&'' # render r"

definition pairs_ok :: "(char list \<times> char list) list \<Rightarrow> bool" where
  "pairs_ok ps \<longleftrightarrow> (\<forall>(k, v) \<in> set ps. no_sep k \<and> no_sep v \<and> length k < 128 \<and> length v < 128)"

lemma walk_render:
  assumes "ps \<noteq> []" and "pairs_ok ps" and "w_found w" "w_name w" "w_j w = 0"
    and "queries (w_url w) = done @ replicate n zero_pair" and "query_count (w_url w) = length done"
    and "length ps \<le> n" and "path_len (w_url w) < length (path (w_url w))"
  shows "rbind (walk_loop (render ps) w) walk_end =
     Inr ((w_url w)\<lparr>path := (path (w_url w))[path_len (w_url w) := NUL],
        queries := done @ map (\<lambda>(k, v). stored k v) ps @ replicate (n - length ps) zero_pair,
        query_count := length done + length ps\<rparr>)"
  using assms
proof (induction ps arbitrary: w "done" n rule: render.induct)
  case 1
  then show ?case by simp
next
  case (2 k v)
  then obtain m where n: "n = Suc m" by (cases n) auto
  from 2 n have "walk_loop (k @ CHR ''='' # v) w = Inr (w\<lparr>w_url := (w_url w)\<lparr>queries :=
     done @ stored k v # replicate m zero_pair\<rparr>, w_name := False, w_j := length v\<rparr>)"
    by (subst walk_pair) (simp_all add: pairs_ok_def nth_append)
  with 2 n show ?case
    by (simp add: walk_end_def Let_def put_value_def nth_append pairs_ok_def stored_def padded_put)
next
  case (3 k v p r)
  then obtain m where n: "n = Suc m" by (cases n) auto
  let ?w = "w\<lparr>w_url := (w_url w)\<lparr>queries := (done @ [stored k v]) @ replicate m zero_pair,
                                 query_count := length (done @ [stored k v])\<rparr>, w_j := 0, w_name := True\<rparr>"
  from 3 n have kv: "walk_loop (k @ CHR ''='' # v) w = Inr (w\<lparr>w_url := (w_url w)\<lparr>queries :=
     done @ stored k v # replicate m zero_pair\<rparr>, w_name := False, w_j := length v\<rparr>)"
    by (subst walk_pair) (simp_all add: pairs_ok_def nth_append)
  have v: "length v < 128" using 3 by (simp add: pairs_ok_def)
  have "walk_loop (render ((k, v) # p # r)) w
      = rbind (walk_loop (k @ CHR ''='' # v) w) (walk_loop (CHR ''&'' # render (p # r)))"
    using walk_loop_append [of "k @ CHR ''='' # v" "CHR ''&'' # render (p # r)" w] by simp
  also have "\<dots> = walk_loop (render (p # r)) ?w"
    unfolding kv using 3(4,8) v
    by (simp only: rbind_Inr walk_loop.simps, subst walk_amp [of _ "done" k v "replicate m zero_pair"]) simp_all
  finally have "walk_loop (render ((k, v) # p # r)) w = walk_loop (render (p # r)) ?w" .
  moreover have "rbind (walk_loop (render (p # r)) ?w) walk_end =
     Inr ((w_url ?w)\<lparr>path := (path (w_url ?w))[path_len (w_url ?w) := NUL],
        queries := (done @ [stored k v]) @ map (\<lambda>(k, v). stored k v) (p # r)
                     @ replicate (m - length (p # r)) zero_pair,
        query_count := length (done @ [stored k v]) + length (p # r)\<rparr>)"
    using 3 n by (intro "3.IH") (auto simp: pairs_ok_def)
  ultimately show ?case using n by simp
qed

section \<open>Every array is terminated\<close>

text \<open>An array of \<open>n\<close> bytes that holds a C string, and the structs all of whose arrays do.\<close>

definition text_array :: "nat \<Rightarrow> char list \<Rightarrow> bool" where
  "text_array n a \<longleftrightarrow> length a = n \<and> NUL \<in> set a"

definition pair_typed :: "pair_t \<Rightarrow> bool" where
  "pair_typed p \<longleftrightarrow> text_array MAX_KEY_SIZE (pkey p) \<and> text_array MAX_VALUE_SIZE (pval p)"

definition url_typed :: "url_t \<Rightarrow> bool" where
  "url_typed u \<longleftrightarrow> text_array MAX_PATH_SIZE (path u) \<and> length (queries u) = MAX_QUERY_COUNT
     \<and> query_count u \<le> MAX_QUERY_COUNT \<and> (\<forall>p \<in> set (queries u). pair_typed p)"

text \<open>What makes it so: the last byte of every array is NUL, until a field fills its array.  Then \<open>w_j\<close> is out of
  bounds, so that the separator or the end that closes the field faults.\<close>

definition last_nul :: "nat \<Rightarrow> char list \<Rightarrow> bool" where
  "last_nul n a \<longleftrightarrow> length a = Suc n \<and> a ! n = NUL"

definition walk_typed :: "walk \<Rightarrow> bool" where
  "walk_typed w \<longleftrightarrow> url_sized (w_url w) \<and> (\<not> w_found w \<longrightarrow> w_j w = 0 \<and> query_count (w_url w) = 0)
     \<and> query_count (w_url w) \<le> 10
     \<and> (path_len (w_url w) < 256 \<longrightarrow> path (w_url w) ! 255 = NUL)
     \<and> (w_j w < 128 \<longrightarrow> (\<forall>p \<in> set (queries (w_url w)). last_nul 127 (pkey p) \<and> last_nul 127 (pval p)))"

lemma last_nul_text: "last_nul n a \<Longrightarrow> text_array (Suc n) a"
  by (auto simp: last_nul_def text_array_def in_set_conv_nth)

lemma last_nul_put: "last_nul n a \<Longrightarrow> j < n \<or> c = NUL \<Longrightarrow> last_nul n (a[j := c])"
  by (cases "j = n") (auto simp: last_nul_def)

lemma put_value_typed:
  assumes "put_value u j c = Inr v" and "url_sized u" and "\<forall>p \<in> set (queries u). last_nul 127 (pkey p) \<and> last_nul 127 (pval p)"
  shows "j < 128 \<and> query_count u < 10 \<and> url_sized v \<and> query_count v = query_count u \<and> path v = path u \<and> path_len v = path_len u
     \<and> (j < 127 \<or> c = NUL \<longrightarrow> (\<forall>p \<in> set (queries v). last_nul 127 (pkey p) \<and> last_nul 127 (pval p)))"
proof -
  have "query_count u < 10 \<and> j < 128" using put_value_cases [OF assms(2), of j c] assms(1) by (auto split: if_splits)
  with put_value_cases [OF assms(2), of j c] assms show ?thesis
    by (auto simp: put_value_def arr_get_def rbind_eq_Inr arr_put_eq_Inr url_sized_def split: if_splits
        dest!: set_update_subset_insert [THEN subsetD] intro!: last_nul_put)
qed

lemma put_key_typed:
  assumes "put_key u j c = Inr v" and "url_sized u" and "\<forall>p \<in> set (queries u). last_nul 127 (pkey p) \<and> last_nul 127 (pval p)"
  shows "j < 128 \<and> query_count u < 10 \<and> url_sized v \<and> query_count v = query_count u \<and> path v = path u \<and> path_len v = path_len u
     \<and> (j < 127 \<or> c = NUL \<longrightarrow> (\<forall>p \<in> set (queries v). last_nul 127 (pkey p) \<and> last_nul 127 (pval p)))"
proof -
  have "query_count u < 10 \<and> j < 128" using put_key_cases [OF assms(2), of j c] assms(1) by (auto split: if_splits)
  with put_key_cases [OF assms(2), of j c] assms show ?thesis
    by (auto simp: put_key_def arr_get_def rbind_eq_Inr arr_put_eq_Inr url_sized_def split: if_splits
        dest!: set_update_subset_insert [THEN subsetD] intro!: last_nul_put)
qed

lemma put_bounds:
  assumes "url_sized u"
  shows "put_value u j c = Inr v \<Longrightarrow> j < 128" and "put_key u j c = Inr v \<Longrightarrow> j < 128"
  using put_value_cases [OF assms, of j c] put_key_cases [OF assms, of j c] by (auto split: if_splits)

lemma walk_step_typed:
  assumes t: "walk_typed w" and s: "walk_step c w = Inr w'"
  shows "walk_typed w'"
proof (cases "w_found w")
  case True
  have sz: "url_sized (w_url w)" using t by (simp add: walk_typed_def)
  have "w_j w < 128"
    using s True put_bounds [OF sz] by (auto simp: walk_step_def rbind_eq_Inr split: if_splits)
  then have q: "\<forall>p \<in> set (queries (w_url w)). last_nul 127 (pkey p) \<and> last_nul 127 (pval p)"
    using t by (simp add: walk_typed_def)
  note pv = put_value_typed [OF _ sz q] and pk = put_key_typed [OF _ sz q]
  show ?thesis
    using s True t by (auto simp: walk_step_def rbind_eq_Inr walk_typed_def url_sized_def split: if_splits dest!: pv pk)
next
  case False
  then show ?thesis
    using s t by (auto simp: walk_step_def rbind_eq_Inr arr_put_eq_Inr walk_typed_def url_sized_def nth_list_update split: if_splits)
qed

lemma walk_loop_typed: "walk_typed w \<Longrightarrow> walk_loop s w = Inr w' \<Longrightarrow> walk_typed w'"
  by (induction s arbitrary: w) (auto simp: rbind_eq_Inr dest: walk_step_typed)

lemma url_typedI:
  assumes "url_sized u" and "NUL \<in> set (path u)" and "query_count u \<le> 10"
    and "\<forall>p \<in> set (queries u). last_nul 127 (pkey p) \<and> last_nul 127 (pval p)"
  shows "url_typed u"
  using assms last_nul_text [of 127]
  by (simp add: url_typed_def url_sized_def pair_typed_def config_sizes) (simp add: text_array_def)

lemma walk_end_typed:
  assumes t: "walk_typed w" and e: "walk_end w = Inr u"
  shows "url_typed u"
proof -
  let ?u = "(w_url w)\<lparr>path := (path (w_url w))[path_len (w_url w) := NUL]\<rparr>"
  have sz: "url_sized (w_url w)" "url_sized ?u" using t by (simp_all add: walk_typed_def url_sized_def)
  have p: "path_len (w_url w) < 256" using e sz(1) by (auto simp: walk_end_def rbind_eq_Inr arr_put_eq_Inr url_sized_def)
  have n: "NUL \<in> set (path ?u)" using p sz(1) by (simp add: url_sized_def set_update_memI)
  show ?thesis
  proof (cases "w_found w")
    case True
    then obtain v where v: "put_value ?u (w_j w) NUL = Inr v" "u = v\<lparr>query_count := query_count v + 1\<rparr>"
      using e by (auto simp: walk_end_def rbind_eq_Inr arr_put_eq_Inr Let_def)
    have "w_j w < 128" by (rule put_bounds(1) [OF sz(2) v(1)])
    then have "\<forall>p \<in> set (queries ?u). last_nul 127 (pkey p) \<and> last_nul 127 (pval p)" using t by (simp add: walk_typed_def)
    from put_value_typed [OF v(1) sz(2) this] n show ?thesis unfolding v(2) by (intro url_typedI) (auto simp: url_sized_def)
  next
    case False
    then have "u = ?u" using e by (auto simp: walk_end_def rbind_eq_Inr arr_put_eq_Inr Let_def)
    then show ?thesis using t False sz n by (intro url_typedI) (auto simp: walk_typed_def)
  qed
qed

lemma last_zero: "last_nul n (zeros (Suc n))"
  by (simp add: last_nul_def zeros_def del: replicate_Suc)

lemma init_url_typed: "url_typed init_url"
  using last_zero [of 127]
  by (intro url_typedI url_sized_init) (simp_all add: init_url_def zeros_def zero_pair_def config_sizes)

lemma seperate_query_typed:
  assumes "seperate_query junk raw = Inr (r, u)"
  shows "url_typed u"
proof -
  have "walk_typed walk_init"
    using url_sized_init last_zero [of 127]
    by (auto simp: walk_typed_def walk_init_def init_url_def zeros_def zero_pair_def config_sizes)
  then show ?thesis
    using assms init_url_typed walk_loop_typed walk_end_typed
    by (fastforce simp: seperate_query_def rbind_eq_Inr split: if_splits)
qed

section \<open>Properties\<close>

text \<open>One content of the local array, for concrete runs.\<close>

definition junk0 :: "nat \<Rightarrow> char" where
  "junk0 i = CHR ''x''"

text \<open>C36: Exactly which decoded paths overrun the arrays: for a raw path that fits the request's
  256-byte buffer, \<open>seperate_query\<close> runs into an out-of-bounds write if and only if the decoded
  path has a query string with ten or more ampersands, or one of whose keys or values (maximal
  runs between \<open>&\<close> and \<open>=\<close>) is 128 characters or longer; there is no other fault, whatever the
  indeterminate content of the local array.\<close>

theorem seperate_query_overflow_iff:
  assumes "no_nul raw" and "length raw < 256" and "pct_decode raw = Some s"
  shows "seperate_query junk raw = Inl e \<longleftrightarrow> e = OutOfBounds \<and> CHR ''?'' \<in> set s
     \<and> (10 \<le> count_list (query_part s) (CHR ''&'')
        \<or> (\<exists>f \<in> set (fields (query_part s)). 128 \<le> length f))"
proof -
  have "length s < 256" using length_pct_decode [OF assms(3)] assms(2) by simp
  from split_url_cases [OF this] show ?thesis
    using seperate_query_eq [OF assms(1), of junk] assms(3)
    by (auto simp: query_fits_0 not_less [symmetric] split: if_splits)
qed

theorem seperate_query_overflow_iff_witness:
  "seperate_query junk0 ''/?a&b&c&d&e&f&g&h&i&j&k'' = Inl OutOfBounds"
proof -
  let ?s = "''/?a&b&c&d&e&f&g&h&i&j&k''"
  have d: "pct_decode ?s = Some ?s" by simp
  have q: "query_part ?s = ''a&b&c&d&e&f&g&h&i&j&k''" by (simp add: query_part_def)
  have "no_nul ?s" by (simp add: NUL_def)
  from seperate_query_overflow_iff [OF this _ d, of junk0 OutOfBounds] q show ?thesis by simp
qed

text \<open>The path is parsed correctly whatever the query string is: when \<open>seperate_query\<close>
  returns 0, the path array holds the decoded path up to its first question mark, terminated,
  and the number of queries is the number of ampersands after it plus one (zero without a
  question mark).\<close>

theorem seperate_query_path:
  assumes "no_nul raw" and "length raw < 256" and "pct_decode raw = Some s"
    and "seperate_query junk raw = Inr (0, u)"
  shows "cstring (path u) = Inr (path_part s)
     \<and> query_count u = (if CHR ''?'' \<in> set s then count_list (query_part s) (CHR ''&'') + 1 else 0)"
  by (rule path_of_result [OF assms])

theorem seperate_query_path_witness:
  "\<exists>u. seperate_query junk0 ''/a%20b?x=1&y'' = Inr (0, u) \<and> cstring (path u) = Inr ''/a b''
     \<and> query_count u = 2"
proof -
  let ?r = "''/a%20b?x=1&y''" and ?s = "''/a b?x=1&y''"
  have d: "pct_decode ?r = Some ?s" by (simp add: escape_def get_2_char_def NUL_def)
  have n: "no_nul ?r" by (simp add: NUL_def)
  have parts: "query_part ?s = ''x=1&y''" "path_part ?s = ''/a b''"
    by (simp_all add: query_part_def path_part_def)
  have "seperate_query junk0 ?r \<noteq> Inl e" for e
    using seperate_query_overflow_iff [OF n _ d, of junk0 e] parts by simp
  then obtain u where "seperate_query junk0 ?r = Inr (0, u)"
    using seperate_query_eq [OF n, of junk0] d by (cases "split_url ?s") auto
  with seperate_query_path [OF n _ d this] parts show ?thesis by auto
qed

text \<open>C37: Round trip with the query syntax: render up to ten key-value pairs, none containing a
  separator or longer than 127 characters, after a path without a question mark; the parser
  gives back the path and the pairs, in order, each in its own slot.\<close>

theorem seperate_query_roundtrip:
  assumes "no_nul (p @ CHR ''?'' # render ps)" and "length (p @ CHR ''?'' # render ps) < 256"
    and "pct_decode raw = Some (p @ CHR ''?'' # render ps)" and "no_nul raw"
    and "CHR ''?'' \<notin> set p" and "ps \<noteq> []" and "length ps \<le> 10" and "pairs_ok ps"
  shows "\<exists>u. seperate_query junk raw = Inr (0, u) \<and> query_count u = length ps
     \<and> path u = p @ zeros (256 - length p)
     \<and> (\<forall>i < length ps. queries u ! i = stored (fst (ps ! i)) (snd (ps ! i)))"
proof -
  let ?w = "(after_path p)\<lparr>w_found := True\<rparr>"
  have lp: "length p < 256" using assms(2) by simp
  have "split_url (p @ CHR ''?'' # render ps) = rbind (walk_loop (render ps) ?w) walk_end"
    unfolding split_url_def walk_loop_append walk_path_init [OF assms(5) less_imp_le [OF lp]]
    by (simp add: walk_step_def after_path_def walk_init_def)
  also have "\<dots> = Inr ((w_url ?w)\<lparr>path := (path (w_url ?w))[path_len (w_url ?w) := NUL],
        queries := [] @ map (\<lambda>(k, v). stored k v) ps @ replicate (10 - length ps) zero_pair,
        query_count := length ([] :: pair_t list) + length ps\<rparr>)"
    using assms(6-8) lp
    by (intro walk_render) (simp_all add: after_path_def walk_init_def init_url_def config_sizes)
  finally show ?thesis
    using seperate_query_eq [OF assms(4), of junk] assms(3) lp
    by (auto simp: after_path_def padded_put nth_append split: prod.splits)
qed

lemma cstr_stored: "no_nul k \<Longrightarrow> no_nul v \<Longrightarrow> cstr (pkey (stored k v)) = k \<and> cstr (pval (stored k v)) = v"
  by (simp add: stored_def)

theorem seperate_query_roundtrip_witness:
  "\<exists>u. seperate_query junk0 ''/s?q=ab&n=1'' = Inr (0, u) \<and> query_count u = 2
     \<and> cstr (pkey (queries u ! 1)) = ''n'' \<and> cstr (pval (queries u ! 1)) = ''1''"
proof -
  let ?ps = "[(''q'', ''ab''), (''n'', ''1'')]"
  have r: "''/s?q=ab&n=1'' = ''/s'' @ CHR ''?'' # render ?ps" by simp
  have "\<exists>u. seperate_query junk0 ''/s?q=ab&n=1'' = Inr (0, u) \<and> query_count u = length ?ps
     \<and> path u = ''/s'' @ zeros (256 - length ''/s'')
     \<and> (\<forall>i < length ?ps. queries u ! i = stored (fst (?ps ! i)) (snd (?ps ! i)))"
    by (rule seperate_query_roundtrip) (simp_all add: NUL_def pairs_ok_def)
  then show ?thesis by (auto simp: cstr_stored NUL_def)
qed

lemma cstr_cut:
  assumes "no_nul k"
  shows "cstr ((k @ zeros n)[i := NUL]) = take i k"
proof (cases "i < length k")
  case True
  then have "(k @ zeros n)[i := NUL] = take i k @ NUL # (drop (Suc i) k @ zeros n)"
    by (simp add: list_update_append upd_conv_take_nth_drop)
  moreover have "no_nul (take i k)" using assms by (auto simp: no_nul_def dest: in_set_takeD)
  ultimately show ?thesis by simp
next
  case False
  then have "(k @ zeros n)[i := NUL] = k @ zeros n"
    by (simp add: list_update_append zeros_put)
  with False assms show ?thesis by simp
qed

lemma cstr_overwritten:
  assumes "no_nul v" and "length v < length xs"
  shows "cstr ((overwrite xs 0 v)[length v := NUL]) = v"
proof -
  have "(overwrite xs 0 v)[length v := NUL] = v @ NUL # drop (Suc (length v)) xs"
    using assms(2) by (simp add: overwrite_def list_update_append Cons_nth_drop_Suc [symmetric])
  with assms(1) show ?thesis by simp
qed

text \<open>A second equals sign in a query corrupts it: for \<open>path?k=v1=v2\<close> the parser drops \<open>v1\<close>,
  stores \<open>v2\<close> as the value, and cuts the key down to the length of \<open>v1\<close>.\<close>

theorem seperate_query_second_equals:
  assumes "no_nul (p @ k @ v1 @ v2)" and "CHR ''?'' \<notin> set p"
    and "no_sep k" "no_sep v1" "no_sep v2" "length k < 128" "length v1 < 128" "length v2 < 128"
    and "length p < 256" and "no_nul raw"
    and "pct_decode raw = Some (p @ CHR ''?'' # k @ CHR ''='' # v1 @ CHR ''='' # v2)"
  shows "\<exists>u. seperate_query junk raw = Inr (0, u) \<and> query_count u = 1
     \<and> cstr (pkey (queries u ! 0)) = take (length v1) k \<and> cstr (pval (queries u ! 0)) = v2"
proof -
  let ?w = "(after_path p)\<lparr>w_found := True\<rparr>"
  let ?w1 = "?w\<lparr>w_url := (w_url ?w)\<lparr>queries := stored k v1 # replicate 9 zero_pair\<rparr>, w_name := False,
                w_j := length v1\<rparr>"
  let ?u2 = "(w_url ?w)\<lparr>queries := (stored k v1)\<lparr>pkey := (pkey (stored k v1))[length v1 := NUL]\<rparr>
               # replicate 9 zero_pair\<rparr>"
  let ?w2 = "?w\<lparr>w_url := ?u2, w_name := False, w_j := 0\<rparr>"
  let ?s = "p @ CHR ''?'' # (k @ CHR ''='' # v1) @ CHR ''='' # v2"
  have ten: "replicate 10 zero_pair = zero_pair # replicate 9 zero_pair" by (simp add: numeral_eq_Suc)
  have kv: "walk_loop (k @ CHR ''='' # v1) ?w = Inr ?w1"
    using assms(3-7) ten
    by (subst walk_pair) (simp_all add: after_path_def walk_init_def init_url_def config_sizes)
  have eqs: "walk_step CHR ''='' ?w1 = Inr ?w2"
    using assms(6,7)
    by (simp add: walk_step_def put_key_def after_path_def walk_init_def init_url_def stored_def)
  have "split_url ?s = rbind (walk_loop ((k @ CHR ''='' # v1) @ CHR ''='' # v2) ?w) walk_end"
    unfolding split_url_def walk_loop_append [of p] walk_path_init [OF assms(2) less_imp_le [OF assms(9)]]
    by (simp add: walk_step_def after_path_def walk_init_def)
  also have "\<dots> = rbind (walk_loop v2 ?w2) walk_end"
    by (simp only: walk_loop_append [of "k @ CHR ''='' # v1"] kv rbind_Inr walk_loop.simps eqs)
  finally have sp: "split_url ?s = rbind (walk_loop v2 ?w2) walk_end" .
  define xs where "xs = overwrite (v1 @ zeros (128 - length v1)) 0 v2"
  have lx: "length xs = 128" using assms(7,8) by (simp add: xs_def)
  have w2: "walk_loop v2 ?w2 = Inr (?w2\<lparr>w_url := ?u2\<lparr>queries :=
       \<lparr>pkey = (pkey (stored k v1))[length v1 := NUL], pval = xs\<rparr> # replicate 9 zero_pair\<rparr>,
       w_j := length v2\<rparr>)"
    using assms(5,7,8)
    by (subst walk_value) (simp_all add: after_path_def walk_init_def init_url_def stored_def xs_def)
  have "\<exists>u. rbind (walk_loop v2 ?w2) walk_end = Inr u \<and> query_count u = 1
     \<and> queries u ! 0 = \<lparr>pkey = (pkey (stored k v1))[length v1 := NUL], pval = xs[length v2 := NUL]\<rparr>"
    unfolding w2 using assms(8,9) lx
    by (simp add: walk_end_def Let_def put_value_def after_path_def walk_init_def init_url_def)
  moreover have "cstr ((pkey (stored k v1))[length v1 := NUL]) = take (length v1) k"
    using assms(1) by (simp add: stored_def cstr_cut)
  moreover have "cstr (xs[length v2 := NUL]) = v2"
    unfolding xs_def using assms(1,7,8) by (intro cstr_overwritten) simp_all
  ultimately show ?thesis
    using seperate_query_eq [OF assms(10), of junk] assms(11) sp by (auto)
qed

theorem seperate_query_second_equals_witness:
  "\<exists>u. seperate_query junk0 ''/f?path=a=b'' = Inr (0, u) \<and> cstr (pkey (queries u ! 0)) = ''p''
     \<and> cstr (pval (queries u ! 0)) = ''b''"
proof -
  have "\<exists>u. seperate_query junk0 ''/f?path=a=b'' = Inr (0, u) \<and> query_count u = 1
     \<and> cstr (pkey (queries u ! 0)) = take (length ''a'') ''path'' \<and> cstr (pval (queries u ! 0)) = ''b''"
    by (rule seperate_query_second_equals [where p = "''/f''"]) (simp_all add: NUL_def)
  then show ?thesis by auto
qed

end
