(* ===== verification/CMemory.thy ===== *)
theory CMemory
  imports Prelude
begin

text \<open>
  The byte heap of the C program, as the string functions use it: \<open>malloc\<close>, \<open>realloc\<close> and
  \<open>free\<close> over blocks of characters, and the library's \<open>memcpy\<close>, \<open>memset\<close> and \<open>strncpy\<close> on them.
  Addresses are never reused, so a dangling pointer stays dangling.  Whether the \<open>n\<close>-th
  allocation fails, and what a fresh block contains, is chosen by the environment.
\<close>

type_synonym ptr = "nat option"     \<comment> \<open>\<open>None\<close> is NULL\<close>

record heap =
  hmem :: "nat \<rightharpoonup> char list"
  hnext :: nat
  hfail :: "nat \<Rightarrow> bool"
  hjunk :: "nat \<Rightarrow> nat \<Rightarrow> char"

definition PTRDIFF_MAX :: nat where
  "PTRDIFF_MAX = 9223372036854775807"

text \<open>Conversion of an \<open>int\<close> to \<open>size_t\<close>.\<close>

definition size_of_int :: "int \<Rightarrow> nat" where
  "size_of_int i = nat (i mod 18446744073709551616)"

definition malloc :: "nat \<Rightarrow> heap \<Rightarrow> ptr \<times> heap" where
  "malloc n h =
     (if PTRDIFF_MAX < n \<or> hfail h (hnext h) then (None, h\<lparr>hnext := Suc (hnext h)\<rparr>)
      else (Some (hnext h),
            h\<lparr>hmem := (hmem h)(hnext h \<mapsto> map (hjunk h (hnext h)) [0..<n]), hnext := Suc (hnext h)\<rparr>))"

definition free :: "ptr \<Rightarrow> heap \<Rightarrow> heap res" where
  "free p h =
     (case p of None \<Rightarrow> Inr h
      | Some a \<Rightarrow> if hmem h a = None then Inl BadFree else Inr (h\<lparr>hmem := (hmem h)(a := None)\<rparr>))"

text \<open>The block a pointer points to.\<close>

definition block :: "ptr \<Rightarrow> heap \<Rightarrow> char list res" where
  "block p h =
     (case p of None \<Rightarrow> Inl NullDeref
      | Some a \<Rightarrow> (case hmem h a of None \<Rightarrow> Inl UseAfterFree | Some b \<Rightarrow> Inr b))"

text \<open>\<open>realloc\<close> moves the block; when it fails the old block stays as it was.\<close>

definition realloc :: "ptr \<Rightarrow> nat \<Rightarrow> heap \<Rightarrow> (ptr \<times> heap) res" where
  "realloc p n h =
     (case p of None \<Rightarrow> Inr (malloc n h)
      | Some a \<Rightarrow>
          (case hmem h a of None \<Rightarrow> Inl BadFree
           | Some b \<Rightarrow>
               (case malloc n h of
                  (None, h') \<Rightarrow> Inr (None, h')
                | (Some a', h') \<Rightarrow>
                    Inr (Some a', h'\<lparr>hmem := (hmem h')(a' \<mapsto> take n b @ map (hjunk h a') [length b..<n],
                                                      a := None)\<rparr>))))"

text \<open>Writing bytes at an offset: \<open>memcpy(p + off, bytes, n)\<close>, or \<open>p[off] = c\<close>.  A negative offset
  is outside the block.\<close>

definition store :: "ptr \<Rightarrow> int \<Rightarrow> char list \<Rightarrow> heap \<Rightarrow> heap res" where
  "store p off bytes h =
     rbind (block p h) (\<lambda>b.
     if off < 0 then Inl OutOfBounds
     else rbind (arr_write b (nat off) bytes) (\<lambda>b'.
          Inr (h\<lparr>hmem := (hmem h)(the p \<mapsto> b')\<rparr>)))"

text \<open>The bytes \<open>memcpy\<close> reads: none for length zero, and never past the end of the block.\<close>

definition load :: "ptr \<Rightarrow> nat \<Rightarrow> heap \<Rightarrow> char list res" where
  "load p n h =
     (if n = 0 then Inr []
      else rbind (block p h) (\<lambda>b. if n \<le> length b then Inr (take n b) else Inl OutOfBounds))"

text \<open>The bytes \<open>strncpy(dst, p, n)\<close> writes: it reads up to the first NUL, at most \<open>n\<close> bytes.\<close>

definition load_strncpy :: "ptr \<Rightarrow> nat \<Rightarrow> heap \<Rightarrow> char list res" where
  "load_strncpy p n h =
     rbind (block p h) (\<lambda>b.
     if n \<le> length b \<or> NUL \<in> set b then Inr (strncpy_bytes b n) else Inl OutOfBounds)"

section \<open>Lemmas\<close>

text \<open>No address at or above the next one is in use.\<close>

definition heap_ok :: "heap \<Rightarrow> bool" where
  "heap_ok h \<longleftrightarrow> (\<forall>a. hnext h \<le> a \<longrightarrow> hmem h a = None)"

definition no_fail :: "heap \<Rightarrow> bool" where
  "no_fail h \<longleftrightarrow> (\<forall>n. \<not> hfail h n)"

lemma size_of_int_pos [simp]: "0 \<le> i \<Longrightarrow> i < 18446744073709551616 \<Longrightarrow> size_of_int i = nat i"
  by (simp add: size_of_int_def)

lemma heap_ok_fresh: "heap_ok h \<Longrightarrow> hmem h (hnext h) = None"
  by (simp add: heap_ok_def)

lemma heap_ok_used: "heap_ok h \<Longrightarrow> hmem h a = Some b \<Longrightarrow> a < hnext h"
  by (force simp: heap_ok_def not_less [symmetric])

lemma malloc_ok:
  "no_fail h \<Longrightarrow> n \<le> PTRDIFF_MAX \<Longrightarrow> malloc n h = (Some (hnext h),
     h\<lparr>hmem := (hmem h)(hnext h \<mapsto> map (hjunk h (hnext h)) [0..<n]), hnext := Suc (hnext h)\<rparr>)"
  by (simp add: malloc_def no_fail_def)

lemma malloc_fails:
  "hfail h (hnext h) \<Longrightarrow> malloc n h = (None, h\<lparr>hnext := Suc (hnext h)\<rparr>)"
  by (simp add: malloc_def)

text \<open>The contents of a block after \<open>realloc\<close> to \<open>n\<close> bytes, at address \<open>a\<close>.\<close>

definition resized :: "heap \<Rightarrow> nat \<Rightarrow> char list \<Rightarrow> nat \<Rightarrow> char list" where
  "resized h a b n = take n b @ map (hjunk h a) [length b..<n]"

lemma length_resized [simp]: "length (resized h a b n) = n"
  by (auto simp: resized_def)

lemma take_resized: "k \<le> n \<Longrightarrow> k \<le> length b \<Longrightarrow> take k (resized h a b n) = take k b"
  by (auto simp: resized_def)

lemma realloc_ok:
  "no_fail h \<Longrightarrow> n \<le> PTRDIFF_MAX \<Longrightarrow> hmem h p = Some b \<Longrightarrow> realloc (Some p) n h = Inr (Some (hnext h),
     h\<lparr>hmem := (hmem h)(hnext h \<mapsto> resized h (hnext h) b n, p := None), hnext := Suc (hnext h)\<rparr>)"
  by (simp add: realloc_def malloc_ok resized_def)

lemma realloc_fails:
  "hfail h (hnext h) \<Longrightarrow> hmem h p = Some b \<Longrightarrow>
     realloc (Some p) n h = Inr (None, h\<lparr>hnext := Suc (hnext h)\<rparr>)"
  by (simp add: realloc_def malloc_fails)

lemma no_fail_simps [simp]:
  "no_fail (h\<lparr>hmem := m\<rparr>) = no_fail h" "no_fail (h\<lparr>hnext := n\<rparr>) = no_fail h"
  by (simp_all add: no_fail_def)

lemma heap_ok_alloc [simp]:
  "heap_ok h \<Longrightarrow> heap_ok (h\<lparr>hmem := (hmem h)(hnext h \<mapsto> b), hnext := Suc (hnext h)\<rparr>)"
  by (auto simp: heap_ok_def)

lemma heap_ok_drop: "heap_ok h \<Longrightarrow> heap_ok (h\<lparr>hmem := (hmem h)(p := None)\<rparr>)"
  by (auto simp: heap_ok_def)

lemma store_block:
  "block p h = Inr b \<Longrightarrow> 0 \<le> off \<Longrightarrow> nat off + length bytes \<le> length b \<Longrightarrow>
     store p off bytes h = Inr (h\<lparr>hmem := (hmem h)(the p \<mapsto> overwrite b (nat off) bytes)\<rparr>)"
  by (simp add: store_def)

end
