(* ===== verification/Parser.thy ===== *)
theory Parser
  imports Url CMemory
begin

text \<open>
  The request parser of \<^verbatim>\<open>src/parser.c\<close> and \<^verbatim>\<open>parser.h\<close>: the callbacks that copy what the third-party
  parser llhttp finds into the fixed arrays of a request, \<open>parse_http_request\<close>, the method codes and
  the test for \<open>Connection: close\<close>.  llhttp is a parameter: what it reports for a buffer is a list of
  events, in the order in which it would call the callbacks, and an error number.
\<close>

section \<open>Data\<close>

record header_t =
  h_key :: "char list"
  h_value :: "char list"

definition zero_header :: header_t where
  "zero_header = \<lparr>h_key = zeros MAX_KEY_SIZE, h_value = zeros MAX_VALUE_SIZE\<rparr>"

record http_request_t =
  r_method :: "char list"
  r_raw_path :: "char list"
  r_path_len :: nat
  r_url :: url_t
  r_headers :: "header_t list"
  r_header_count :: nat
  r_cur_header :: header_t
  r_body :: ptr

text \<open>The callbacks llhttp may make, with the bytes of the span.\<close>

datatype event =
    EvMethod "char list"
  | EvUrl "char list"
  | EvField "char list"
  | EvValue "char list"
  | EvHeadersComplete
  | EvBody "char list"
  | EvMessageComplete

text \<open>llhttp: the state \<open>llhttp_init\<close> makes, and \<open>llhttp_execute\<close> on some bytes.\<close>

record 'p llhttp =
  lh_init :: 'p
  lh_execute :: "'p \<Rightarrow> char list \<Rightarrow> event list \<times> int \<times> 'p"

record 'p request_ctx_t =
  req :: http_request_t
  lparser :: 'p

definition HPE_OK :: int where "HPE_OK = 0"

section \<open>The code\<close>

definition http_request_t_init :: http_request_t where
  "http_request_t_init = \<lparr>r_method = zeros MAX_METHOD_SIZE, r_raw_path = zeros MAX_PATH_SIZE,
     r_path_len = 0, r_url = init_url, r_headers = replicate MAX_HEADER_COUNT zero_header,
     r_header_count = 0, r_cur_header = zero_header, r_body = None\<rparr>"

text \<open>\<open>memcpy(a, at, len); a[len] = '\0'\<close>.\<close>

definition copy_span :: "char list \<Rightarrow> char list \<Rightarrow> char list res" where
  "copy_span a at = rbind (arr_write a 0 at) (\<lambda>a1. arr_put a1 (length at) NUL)"

definition on_method :: "char list \<Rightarrow> http_request_t \<Rightarrow> http_request_t res" where
  "on_method at r = rbind (copy_span (r_method r) at) (\<lambda>a. Inr (r\<lparr>r_method := a\<rparr>))"

definition on_url :: "char list \<Rightarrow> http_request_t \<Rightarrow> http_request_t res" where
  "on_url at r = rbind (copy_span (r_raw_path r) at) (\<lambda>a.
     Inr (r\<lparr>r_raw_path := a, r_path_len := length at\<rparr>))"

definition on_header_field :: "char list \<Rightarrow> http_request_t \<Rightarrow> http_request_t res" where
  "on_header_field at r = rbind (copy_span (h_key (r_cur_header r)) at) (\<lambda>a.
     Inr (r\<lparr>r_cur_header := (r_cur_header r)\<lparr>h_key := a\<rparr>\<rparr>))"

definition on_header_value :: "char list \<Rightarrow> http_request_t \<Rightarrow> http_request_t res" where
  "on_header_value at r =
     rbind (copy_span (h_value (r_cur_header r)) at) (\<lambda>a.
     let r1 = r\<lparr>r_cur_header := (r_cur_header r)\<lparr>h_value := a\<rparr>\<rparr> in
     rbind (arr_put (r_headers r1) (r_header_count r1) (r_cur_header r1)) (\<lambda>hs.
     Inr (r1\<lparr>r_headers := hs, r_header_count := r_header_count r1 + 1\<rparr>)))"

definition on_header_complete :: "http_request_t \<Rightarrow> http_request_t res" where
  "on_header_complete r = Inr r"

definition on_body :: "char list \<Rightarrow> http_request_t \<Rightarrow> http_request_t res" where
  "on_body at r = Inr r"

definition on_message_complete :: "http_request_t \<Rightarrow> http_request_t res" where
  "on_message_complete r = Inr r"

text \<open>The callbacks as \<open>init_req_ctx\<close> installs them.\<close>

fun on_event :: "event \<Rightarrow> http_request_t \<Rightarrow> http_request_t res" where
  "on_event (EvMethod s) r = on_method s r"
| "on_event (EvUrl s) r = on_url s r"
| "on_event (EvField s) r = on_header_field s r"
| "on_event (EvValue s) r = on_header_value s r"
| "on_event EvHeadersComplete r = on_header_complete r"
| "on_event (EvBody s) r = on_body s r"
| "on_event EvMessageComplete r = on_message_complete r"

fun run_events :: "event list \<Rightarrow> http_request_t \<Rightarrow> http_request_t res" where
  "run_events [] r = Inr r"
| "run_events (e # es) r = rbind (on_event e r) (run_events es)"

text \<open>\<open>reset_req_ctx\<close> restarts the parser only; \<open>init_req_ctx\<close> clears the request first.\<close>

definition reset_req_ctx :: "'p llhttp \<Rightarrow> 'p request_ctx_t \<Rightarrow> 'p request_ctx_t" where
  "reset_req_ctx L ctx = ctx\<lparr>lparser := lh_init L\<rparr>"

definition init_req_ctx :: "'p llhttp \<Rightarrow> 'p request_ctx_t \<Rightarrow> 'p request_ctx_t" where
  "init_req_ctx L ctx = reset_req_ctx L (ctx\<lparr>req := http_request_t_init\<rparr>)"

text \<open>\<open>junk\<close> is the indeterminate content of the local array of \<open>seperate_query\<close>.\<close>

definition parse_http_request ::
  "'p llhttp \<Rightarrow> (nat \<Rightarrow> char) \<Rightarrow> 'p request_ctx_t \<Rightarrow> char list \<Rightarrow> int \<Rightarrow> (int \<times> 'p request_ctx_t) res" where
  "parse_http_request L junk ctx buf len =
     (if length buf < size_of_int len then Inl OutOfBounds
      else (case lh_execute L (lparser ctx) (take (size_of_int len) buf) of (evs, err, p) \<Rightarrow>
        rbind (run_events evs (req ctx)) (\<lambda>r.
        let ctx1 = ctx\<lparr>req := r, lparser := p\<rparr> in
        if err \<noteq> HPE_OK then Inr (1, ctx1)
        else rbind (cstring (r_raw_path r)) (\<lambda>raw.
             rbind (seperate_query junk raw) (\<lambda>(ret, u).
             Inr (ret, ctx1\<lparr>req := r\<lparr>r_url := u\<rparr>\<rparr>))))))"

definition get_mothod_type :: "char list \<Rightarrow> int" where
  "get_mothod_type method =
     (if strcaseeq ''get'' method then GET else if strcaseeq ''post'' method then POST else -1)"

text \<open>The loop of \<open>is_closed_conn\<close> from index \<open>i\<close>.\<close>

function closed_from :: "header_t list \<Rightarrow> nat \<Rightarrow> nat \<Rightarrow> bool res" where
  "closed_from hs n i =
     (if i < n then
        rbind (arr_get hs i) (\<lambda>h.
        rbind (cstring (h_key h)) (\<lambda>k.
        if strcaseeq ''Connection'' k then
          rbind (cstring (h_value h)) (\<lambda>v.
          if strcaseeq ''Close'' v then Inr True else closed_from hs n (i + 1))
        else closed_from hs n (i + 1)))
      else Inr False)"
  by pat_completeness auto
termination by (relation "measure (\<lambda>(_, n, i). n - i)") auto

declare closed_from.simps [simp del]

definition is_closed_conn :: "'p request_ctx_t \<Rightarrow> bool res" where
  "is_closed_conn ctx = closed_from (r_headers (req ctx)) (r_header_count (req ctx)) 0"

section \<open>Lemmas\<close>

text \<open>The arrays of a request keep their sizes.\<close>

definition header_sized :: "header_t \<Rightarrow> bool" where
  "header_sized h \<longleftrightarrow> length (h_key h) = 128 \<and> length (h_value h) = 128"

definition req_sized :: "http_request_t \<Rightarrow> bool" where
  "req_sized r \<longleftrightarrow> length (r_method r) = 8 \<and> length (r_raw_path r) = 256
     \<and> length (r_headers r) = 128 \<and> header_sized (r_cur_header r)"

fun event_fits :: "event \<Rightarrow> bool" where
  "event_fits (EvMethod s) = (length s < 8)"
| "event_fits (EvUrl s) = (length s < 256)"
| "event_fits (EvField s) = (length s < 128)"
| "event_fits (EvValue s) = (length s < 128)"
| "event_fits _ = True"

fun value_count :: "event list \<Rightarrow> nat" where
  "value_count [] = 0"
| "value_count (EvValue s # es) = Suc (value_count es)"
| "value_count (_ # es) = value_count es"

lemma req_sized_init: "req_sized http_request_t_init"
  by (simp add: req_sized_def http_request_t_init_def header_sized_def zero_header_def config_sizes)

lemma copy_span_eq:
  "copy_span a s = (if length s < length a then Inr (s @ NUL # drop (Suc (length s)) a) else Inl OutOfBounds)"
proof -
  have "(overwrite a 0 s)[length s := NUL] = s @ NUL # drop (Suc (length s)) a" if "length s < length a"
    using that by (simp add: overwrite_def list_update_append Cons_nth_drop_Suc [symmetric])
  then show ?thesis by (auto simp: copy_span_def arr_put_def arr_write_def)
qed

lemma on_event_cases:
  assumes "req_sized r"
  shows "if event_fits e \<and> r_header_count r + value_count [e] \<le> 128 \<or> (event_fits e \<and> value_count [e] = 0)
     then \<exists>r'. on_event e r = Inr r' \<and> req_sized r' \<and> r_header_count r' = r_header_count r + value_count [e]
     else on_event e r = Inl OutOfBounds"
  using assms
  by (cases e) (auto simp: req_sized_def header_sized_def on_method_def on_url_def on_header_field_def
      on_header_value_def on_header_complete_def on_body_def on_message_complete_def copy_span_eq
      arr_put_def Let_def)

lemma value_count_Cons: "value_count (e # es) = value_count [e] + value_count es"
  by (cases e) auto

lemma run_events_cases:
  assumes "req_sized r" and "r_header_count r \<le> 128"
  shows "if (\<forall>e \<in> set es. event_fits e) \<and> r_header_count r + value_count es \<le> 128
     then \<exists>r'. run_events es r = Inr r' \<and> req_sized r' \<and> r_header_count r' = r_header_count r + value_count es
     else run_events es r = Inl OutOfBounds"
  using assms
proof (induction es arbitrary: r)
  case (Cons e es)
  show ?case
  proof (cases "event_fits e \<and> r_header_count r + value_count [e] \<le> 128")
    case True
    then obtain r' where r': "on_event e r = Inr r'" "req_sized r'"
      "r_header_count r' = r_header_count r + value_count [e]"
      using on_event_cases [OF Cons.prems(1), of e] by auto
    then have "r_header_count r' \<le> 128" using True by simp
    from Cons.IH [OF r'(2) this] show ?thesis
      using True r' by (auto simp: value_count_Cons [of e es] ac_simps split: if_splits)
  next
    case False
    then have "on_event e r = Inl OutOfBounds"
      using on_event_cases [OF Cons.prems(1), of e] Cons.prems(2) by (auto split: if_splits)
    then show ?thesis using False by (auto simp: value_count_Cons [of e es])
  qed
qed simp

lemma run_events_two:
  "run_events (e # f # es) r = rbind (rbind (on_event e r) (on_event f)) (run_events es)"
  by (auto simp: rbind_def split: sum.splits)

lemma run_events_append: "run_events (es @ fs) r = rbind (run_events es r) (run_events fs)"
  by (induction es arbitrary: r) (auto simp: rbind_def split: sum.splits)

section \<open>Well-formed requests\<close>

text \<open>What llhttp reports for a request with the given method, target and headers; \<open>rest\<close> are the
  events the code ignores.\<close>

definition pair_events :: "(char list \<times> char list) list \<Rightarrow> event list" where
  "pair_events hs = concat (map (\<lambda>(k, v). [EvField k, EvValue v]) hs)"

definition request_events :: "char list \<Rightarrow> char list \<Rightarrow> (char list \<times> char list) list \<Rightarrow> event list \<Rightarrow> event list" where
  "request_events m u hs rest = EvMethod m # EvUrl u # pair_events hs @ rest"

definition ignored :: "event \<Rightarrow> bool" where
  "ignored e \<longleftrightarrow> e = EvHeadersComplete \<or> e = EvMessageComplete \<or> (\<exists>s. e = EvBody s)"

definition request_fits :: "char list \<Rightarrow> char list \<Rightarrow> (char list \<times> char list) list \<Rightarrow> bool" where
  "request_fits m u hs \<longleftrightarrow> no_nul m \<and> length m < 8 \<and> no_nul u \<and> length u < 256 \<and> length hs \<le> 128
     \<and> (\<forall>(k, v) \<in> set hs. no_nul k \<and> length k < 128 \<and> no_nul v \<and> length v < 128)"

text \<open>The first headers of a request are the given pairs.\<close>

definition headers_are :: "http_request_t \<Rightarrow> (char list \<times> char list) list \<Rightarrow> bool" where
  "headers_are r hs \<longleftrightarrow> r_header_count r = length hs
     \<and> (\<forall>i < length hs. \<exists>a b. r_headers r ! i = \<lparr>h_key = fst (hs ! i) @ NUL # a, h_value = snd (hs ! i) @ NUL # b\<rparr>)"

lemma run_pairs:
  assumes "req_sized r" and "headers_are r gs" and "length gs + length hs \<le> 128"
    and "\<forall>(k, v) \<in> set hs. length k < 128 \<and> length v < 128"
  shows "\<exists>r'. run_events (pair_events hs) r = Inr r' \<and> req_sized r' \<and> headers_are r' (gs @ hs)
     \<and> r_method r' = r_method r \<and> r_raw_path r' = r_raw_path r \<and> r_path_len r' = r_path_len r"
  using assms
proof (induction hs arbitrary: r gs)
  case Nil
  then show ?case by (simp add: pair_events_def)
next
  case (Cons h hs)
  obtain k v where h: "h = (k, v)" by (cases h)
  with Cons.prems have kv: "length k < 128" "length v < 128" "length gs < 128" by auto
  let ?c = "\<lparr>h_key = k @ NUL # drop (Suc (length k)) (h_key (r_cur_header r)),
             h_value = v @ NUL # drop (Suc (length v)) (h_value (r_cur_header r))\<rparr>"
  let ?r = "r\<lparr>r_cur_header := ?c, r_headers := (r_headers r)[length gs := ?c], r_header_count := Suc (length gs)\<rparr>"
  have s: "rbind (on_event (EvField k) r) (on_event (EvValue v)) = Inr ?r"
    using Cons.prems(1,2) kv
    by (cases "r_cur_header r") (simp add: on_header_field_def on_header_value_def copy_span_eq
        req_sized_def header_sized_def headers_are_def Let_def)
  have 1: "req_sized ?r" using Cons.prems(1) kv by (simp add: req_sized_def header_sized_def)
  have 2: "headers_are ?r (gs @ [h])"
    using Cons.prems(1,2) kv h
    by (auto simp: headers_are_def req_sized_def nth_append nth_list_update less_Suc_eq)
  have 3: "length (gs @ [h]) + length hs \<le> 128" "\<forall>(k, v) \<in> set hs. length k < 128 \<and> length v < 128"
    using Cons.prems(3,4) by auto
  have e: "run_events (pair_events (h # hs)) r = run_events (pair_events hs) ?r"
    using s by (simp only: pair_events_def h list.map concat.simps append.simps prod.case run_events_two rbind_Inr)
  show ?case using Cons.IH [OF 1 2 3] unfolding e by simp
qed

lemma run_ignored: "\<forall>e \<in> set es. ignored e \<Longrightarrow> run_events es r = Inr r"
  by (induction es) (auto simp: ignored_def on_header_complete_def on_body_def on_message_complete_def)

lemma run_request:
  assumes "request_fits m u hs" and "\<forall>e \<in> set rest. ignored e"
  shows "\<exists>r. run_events (request_events m u hs rest) http_request_t_init = Inr r \<and> headers_are r hs
     \<and> cstring (r_method r) = Inr m \<and> cstring (r_raw_path r) = Inr u \<and> r_path_len r = length u
     \<and> length (r_headers r) = 128 \<and> length (r_raw_path r) = 256"
proof -
  let ?z = http_request_t_init
  from assms(1) have f: "length m < 8" "length u < 256" "length hs \<le> 128" "no_nul m" "no_nul u"
    "\<forall>(k, v) \<in> set hs. length k < 128 \<and> length v < 128" by (auto simp: request_fits_def)
  let ?r = "?z\<lparr>r_method := m @ NUL # drop (Suc (length m)) (r_method ?z),
               r_raw_path := u @ NUL # drop (Suc (length u)) (r_raw_path ?z), r_path_len := length u\<rparr>"
  have z: "length (r_method ?z) = 8" "length (r_raw_path ?z) = 256" "length (r_headers ?z) = 128"
    "header_sized (r_cur_header ?z)" "r_header_count ?z = 0"
    using req_sized_init by (simp_all add: req_sized_def http_request_t_init_def)
  have 1: "rbind (on_event (EvMethod m) ?z) (on_event (EvUrl u)) = Inr ?r"
    using f(1,2) z by (simp add: on_method_def on_url_def copy_span_eq)
  have "req_sized ?r" "headers_are ?r []" using f(1,2) z by (simp_all add: req_sized_def headers_are_def)
  from run_pairs [OF this, of hs] f(3,6) obtain r where
    2: "run_events (pair_events hs) ?r = Inr r" "req_sized r" "headers_are r hs"
    "r_method r = r_method ?r" "r_raw_path r = r_raw_path ?r" "r_path_len r = r_path_len ?r" by auto
  have "run_events (request_events m u hs rest) ?z
      = rbind (rbind (on_event (EvMethod m) ?z) (on_event (EvUrl u))) (run_events (pair_events hs @ rest))"
    by (simp only: request_events_def run_events_two)
  also have "\<dots> = Inr r" unfolding 1 rbind_Inr run_events_append 2(1) by (rule run_ignored [OF assms(2)])
  finally show ?thesis using 2 f(4,5) by (auto simp: req_sized_def)
qed

lemma closed_from_eq:
  assumes "headers_are r hs" and "length (r_headers r) = 128" and "length hs \<le> 128"
    and "\<forall>(k, v) \<in> set hs. no_nul k \<and> no_nul v"
  shows "i \<le> length hs \<Longrightarrow> closed_from (r_headers r) (length hs) i
     = Inr (\<exists>(k, v) \<in> set (drop i hs). strcaseeq ''Connection'' k \<and> strcaseeq ''Close'' v)"
proof (induction "length hs - i" arbitrary: i)
  case 0
  then show ?case by (subst closed_from.simps) simp
next
  case (Suc n)
  then have i: "i < length hs" by simp
  obtain k v where kv: "hs ! i = (k, v)" by (cases "hs ! i")
  then have "(k, v) \<in> set hs" using i by (metis nth_mem)
  then have nn: "no_nul k" "no_nul v" using assms(4) by auto
  from assms(1) i kv obtain a b where h: "r_headers r ! i = \<lparr>h_key = k @ NUL # a, h_value = v @ NUL # b\<rparr>"
    by (fastforce simp: headers_are_def)
  have d: "drop i hs = (k, v) # drop (Suc i) hs" using i kv by (simp add: Cons_nth_drop_Suc [symmetric])
  have "closed_from (r_headers r) (length hs) (Suc i)
      = Inr (\<exists>(k, v) \<in> set (drop (Suc i) hs). strcaseeq ''Connection'' k \<and> strcaseeq ''Close'' v)"
    using Suc by simp
  then show ?case
    using i assms(2,3) h nn d by (subst closed_from.simps) simp
qed

text \<open>A request that fits, from the buffer to the decoded path.\<close>

lemma parse_request_ok:
  assumes "lh_execute L (lh_init L) (take (nat n) buf) = (request_events m u hs rest, HPE_OK, p)"
    and "0 \<le> n" and "nat n \<le> length buf" and "n < INT_MAX"
    and "request_fits m u hs" and "\<forall>e \<in> set rest. ignored e"
    and "\<forall>s. pct_decode u = Some s \<longrightarrow> CHR ''?'' \<in> set s \<longrightarrow> count_list (query_part s) (CHR ''&'') < 10
           \<and> (\<forall>f \<in> set (Url.fields (query_part s)). length f < 128)"
  shows "\<exists>ret ctx. parse_http_request L junk (init_req_ctx L ctx0) buf n = Inr (ret, ctx)
     \<and> cstring (r_method (req ctx)) = Inr m \<and> cstring (r_raw_path (req ctx)) = Inr u
     \<and> headers_are (req ctx) hs \<and> length (r_raw_path (req ctx)) = 256
     \<and> (case pct_decode u of None \<Rightarrow> ret = 1
        | Some s \<Rightarrow> ret = 0 \<and> cstring (path (r_url (req ctx))) = Inr (path_part s))"
proof -
  from run_request [OF assms(5,6)] obtain r where r:
    "run_events (request_events m u hs rest) http_request_t_init = Inr r" "headers_are r hs" "length (r_raw_path r) = 256"
    "cstring (r_method r) = Inr m" "cstring (r_raw_path r) = Inr u" by blast
  have u: "no_nul u" "length u < 256" using assms(5) by (auto simp: request_fits_def)
  have n: "size_of_int n = nat n" using assms(2,4) by (simp add: INT_MAX_def)
  have run: "parse_http_request L junk (init_req_ctx L ctx0) buf n
     = rbind (seperate_query junk u) (\<lambda>(ret, url). Inr (ret, ctx0\<lparr>lparser := p, req := r\<lparr>r_url := url\<rparr>\<rparr>))"
    using assms(1,3) r(1,5) n
    by (simp add: parse_http_request_def init_req_ctx_def reset_req_ctx_def)
  show ?thesis
  proof (cases "pct_decode u")
    case None
    then show ?thesis using run r seperate_query_eq [OF u(1), of junk] by (simp add: headers_are_def)
  next
    case (Some s)
    have "seperate_query junk u \<noteq> Inl e" for e
    proof -
      have s: "length s < 256" using length_pct_decode [OF Some] u(2) by simp
      show ?thesis
        using split_url_cases [OF s] seperate_query_eq [OF u(1), of junk] Some assms(7)
        by (auto simp: query_fits_0 split: if_splits)
    qed
    then obtain w where w: "seperate_query junk u = Inr (0, w)"
      using seperate_query_eq [OF u(1), of junk] Some by (cases "split_url s") auto
    have "cstring (path w) = Inr (path_part s)"
      using path_of_result [OF u Some w] by simp
    then show ?thesis using run r w Some by (simp add: headers_are_def)
  qed
qed

text \<open>The requests all of whose arrays hold a C string.\<close>

definition header_typed :: "header_t \<Rightarrow> bool" where
  "header_typed h \<longleftrightarrow> text_array MAX_KEY_SIZE (h_key h) \<and> text_array MAX_VALUE_SIZE (h_value h)"

definition req_typed :: "http_request_t \<Rightarrow> bool" where
  "req_typed r \<longleftrightarrow> text_array MAX_METHOD_SIZE (r_method r) \<and> text_array MAX_PATH_SIZE (r_raw_path r)
     \<and> header_typed (r_cur_header r) \<and> length (r_headers r) = MAX_HEADER_COUNT \<and> r_header_count r \<le> MAX_HEADER_COUNT
     \<and> (\<forall>h \<in> set (r_headers r). header_typed h) \<and> url_typed (r_url r)"

lemma copy_span_typed: "copy_span a s = Inr b \<Longrightarrow> text_array n a \<Longrightarrow> text_array n b"
  by (auto simp: copy_span_eq text_array_def split: if_splits)

lemma text_array_cstring: "text_array n a \<Longrightarrow> \<exists>s. cstring a = Inr s \<and> length s < n"
  by (auto simp: text_array_def cstring_def length_cstr_less)

lemma req_typed_init: "req_typed http_request_t_init"
  using init_url_typed
  by (simp add: req_typed_def header_typed_def text_array_def http_request_t_init_def zero_header_def
      zeros_def config_sizes)

lemma on_event_typed:
  assumes "req_typed r" and "on_event e r = Inr r'"
  shows "req_typed r'"
  using assms
  by (cases e; auto simp: req_typed_def header_typed_def on_method_def on_url_def on_header_field_def on_header_value_def
      on_header_complete_def on_body_def on_message_complete_def arr_put_def Let_def rbind_eq_Inr
      dest!: set_update_subset_insert [THEN subsetD] split: if_splits; blast intro: copy_span_typed)

lemma run_events_typed: "req_typed r \<Longrightarrow> run_events es r = Inr r' \<Longrightarrow> req_typed r'"
  by (induction es arbitrary: r) (auto simp: rbind_eq_Inr dest: on_event_typed)

lemma closed_from_returns:
  assumes "\<forall>h \<in> set hs. header_typed h" and "n \<le> length hs"
  shows "\<exists>b. closed_from hs n i = Inr b"
  using assms
proof (induction hs n i rule: closed_from.induct)
  case (1 hs n i)
  show ?case
  proof (cases "i < n")
    case less: True
    then have "header_typed (hs ! i)" using 1 by simp
    then obtain k v where kv: "cstring (h_key (hs ! i)) = Inr k" "cstring (h_value (hs ! i)) = Inr v"
      by (auto simp: header_typed_def dest!: text_array_cstring)
    have g: "arr_get hs i = Inr (hs ! i)" using less 1 by (simp add: arr_get_def)
    show ?thesis
    proof (cases "strcaseeq ''Connection'' k \<and> strcaseeq ''Close'' v")
      case True
      then show ?thesis using kv g less by (subst closed_from.simps) auto
    next
      case False
      then have "\<exists>b. closed_from hs n (i + 1) = Inr b" using less g kv 1 by (cases "strcaseeq ''Connection'' k") auto
      then show ?thesis using kv g False less by (subst closed_from.simps) auto
    qed
  qed (subst closed_from.simps, auto)
qed

section \<open>Properties\<close>

definition fresh_ctx :: "nat request_ctx_t" where
  "fresh_ctx = \<lparr>req = http_request_t_init, lparser = 0\<rparr>"

text \<open>A parser that reports one fixed request.\<close>

definition llhttp0 :: "nat llhttp" where
  "llhttp0 = \<lparr>lh_init = 0, lh_execute = (\<lambda>p s. (request_events ''GET'' ''/a%20b?x=1''
     [(''Host'', ''h''), (''connection'', ''close'')] [EvHeadersComplete, EvMessageComplete], 0, 1))\<rparr>"

text \<open>C28: Exactly which requests overrun the arrays of a request: whatever llhttp reports, running the
  callbacks on a cleared request writes out of bounds if and only if some method has 8 characters or
  more (as \<open>PROPFIND\<close> has), some target 256, some header name or value 128, or there are more than
  128 header values; no other fault can occur.\<close>

theorem callbacks_overflow_iff:
  shows "run_events es http_request_t_init = Inl e \<longleftrightarrow>
     e = OutOfBounds \<and> (value_count es > 128 \<or> (\<exists>ev \<in> set es. \<not> event_fits ev))"
  using run_events_cases [OF req_sized_init, of es]
  by (auto simp: http_request_t_init_def not_less [symmetric] split: if_splits)

text \<open>C27: A well-formed request that fits is parsed correctly: when llhttp reports a method, a target
  and headers for the buffer, \<open>parse_http_request\<close> on a freshly initialised context stores the
  method, the raw target and every header in order; it returns 1 if the target cannot be decoded,
  and otherwise 0 with the decoded path.\<close>

theorem parse_http_request_correct:
  assumes "lh_execute L (lh_init L) (take (nat n) buf) = (request_events m u hs rest, HPE_OK, p)"
    and "0 \<le> n" and "nat n \<le> length buf" and "n < INT_MAX"
    and "request_fits m u hs" and "\<forall>e \<in> set rest. ignored e"
    and "\<forall>s. pct_decode u = Some s \<longrightarrow> CHR ''?'' \<in> set s \<longrightarrow> count_list (query_part s) (CHR ''&'') < 10
           \<and> (\<forall>f \<in> set (Url.fields (query_part s)). length f < 128)"
  shows "\<exists>ret ctx. parse_http_request L junk (init_req_ctx L ctx0) buf n = Inr (ret, ctx)
     \<and> cstring (r_method (req ctx)) = Inr m \<and> cstring (r_raw_path (req ctx)) = Inr u
     \<and> headers_are (req ctx) hs
     \<and> (case pct_decode u of None \<Rightarrow> ret = 1
        | Some s \<Rightarrow> ret = 0 \<and> cstring (path (r_url (req ctx))) = Inr (path_part s))"
  using parse_request_ok [OF assms, of junk ctx0] by blast

theorem parse_http_request_correct_witness:
  "\<exists>ctx. parse_http_request llhttp0 junk0 (init_req_ctx llhttp0 fresh_ctx) ''GET ...'' 7 = Inr (0, ctx)
     \<and> cstring (path (r_url (req ctx))) = Inr ''/a b''"
proof -
  let ?hs = "[(''Host'', ''h''), (''connection'', ''close'')]" and ?u = "''/a%20b?x=1''"
  let ?es = "[EvHeadersComplete, EvMessageComplete]"
  have 1: "lh_execute llhttp0 (lh_init llhttp0) (take (nat 7) ''GET ...'') = (request_events ''GET'' ?u ?hs ?es, HPE_OK, 1)"
    by (simp add: llhttp0_def HPE_OK_def)
  have 2: "request_fits ''GET'' ?u ?hs" by (simp add: request_fits_def NUL_def)
  have 3: "\<forall>e \<in> set ?es. ignored e" by (simp add: ignored_def)
  have d: "pct_decode ?u = Some ''/a b?x=1''" by (simp add: escape_def get_2_char_def NUL_def)
  have q: "query_part ''/a b?x=1'' = ''x=1''" "path_part ''/a b?x=1'' = ''/a b''"
    by (simp_all add: query_part_def path_part_def)
  have 4: "\<forall>s. pct_decode ?u = Some s \<longrightarrow> CHR ''?'' \<in> set s \<longrightarrow> count_list (query_part s) (CHR ''&'') < 10
           \<and> (\<forall>f \<in> set (Url.fields (query_part s)). length f < 128)"
    unfolding d using q by simp
  show ?thesis
    using parse_http_request_correct [OF 1 _ _ _ 2 3 4, of junk0 fresh_ctx] q(2) unfolding d
    by (auto simp: INT_MAX_def)
qed

text \<open>Whether the client asked to close: on a request stored by the callbacks, \<open>is_closed_conn\<close>
  never faults and answers true if and only if some header is called \<open>Connection\<close> and has the value
  \<open>Close\<close>, both without regard to case; a list of tokens such as \<open>close, TE\<close> is not recognised.\<close>

theorem is_closed_conn_correct:
  assumes "request_fits m u hs" and "\<forall>e \<in> set rest. ignored e"
    and "run_events (request_events m u hs rest) (req (init_req_ctx L ctx0)) = Inr r"
  shows "is_closed_conn (ctx0\<lparr>req := r\<rparr>)
     = Inr (\<exists>(k, v) \<in> set hs. strcaseeq ''Connection'' k \<and> strcaseeq ''Close'' v)"
proof -
  have "req (init_req_ctx L ctx0) = http_request_t_init" by (simp add: init_req_ctx_def reset_req_ctx_def)
  then have r: "headers_are r hs" "length (r_headers r) = 128"
    using run_request [OF assms(1,2)] assms(3) by auto
  then have c: "r_header_count r = length hs" by (simp add: headers_are_def)
  have "length hs \<le> 128" "\<forall>(k, v) \<in> set hs. no_nul k \<and> no_nul v"
    using assms(1) by (auto simp: request_fits_def)
  from closed_from_eq [OF r this, of 0] show ?thesis by (simp add: is_closed_conn_def c)
qed

theorem is_closed_conn_correct_witness:
  "\<exists>r. run_events (request_events ''GET'' ''/'' [(''Host'', ''h''), (''connection'', ''close'')] [])
        (req (init_req_ctx llhttp0 fresh_ctx)) = Inr r
     \<and> is_closed_conn (fresh_ctx\<lparr>req := r\<rparr>) = Inr True"
proof -
  let ?hs = "[(''Host'', ''h''), (''connection'', ''close'')]"
  have f: "request_fits ''GET'' ''/'' ?hs" by (simp add: request_fits_def NUL_def)
  have z: "req (init_req_ctx llhttp0 fresh_ctx) = http_request_t_init"
    by (simp add: init_req_ctx_def reset_req_ctx_def)
  obtain r where r: "run_events (request_events ''GET'' ''/'' ?hs []) (req (init_req_ctx llhttp0 fresh_ctx)) = Inr r"
    using run_request [OF f, of "[]"] unfolding z by auto
  have "strcaseeq ''Connection'' ''connection''" "strcaseeq ''Close'' ''close''" by code_simp+
  with is_closed_conn_correct [OF f _ r] r show ?thesis by auto
qed

text \<open>\<open>reset_req_ctx\<close>, documented as making the context ready for another request, does not clear
  it: after one request, running the callbacks of a second appends its headers to those of the first,
  and the two together overrun the header array when they are more than 128.\<close>

theorem reset_req_ctx_keeps_headers:
  assumes "request_fits m u hs" and "\<forall>e \<in> set rest. ignored e"
    and "run_events (request_events m u hs rest) http_request_t_init = Inr r"
    and "length gs \<le> 128" and "\<forall>(k, v) \<in> set gs. length k < 128 \<and> length v < 128"
  shows "if length hs + length gs \<le> 128
         then \<exists>r'. run_events (pair_events gs) (req (reset_req_ctx L (ctx0\<lparr>req := r\<rparr>))) = Inr r'
                \<and> headers_are r' (hs @ gs)
         else run_events (pair_events gs) (req (reset_req_ctx L (ctx0\<lparr>req := r\<rparr>))) = Inl OutOfBounds"
proof -
  have h: "headers_are r hs" using run_request [OF assms(1,2)] assms(3) by auto
  then have c: "r_header_count r = length hs" by (simp add: headers_are_def)
  have s: "req_sized r"
    using run_events_cases [OF req_sized_init, of "request_events m u hs rest"] assms(3)
    by (auto simp: http_request_t_init_def split: if_splits)
  have e: "req (reset_req_ctx L (ctx0\<lparr>req := r\<rparr>)) = r" by (simp add: reset_req_ctx_def)
  have v: "value_count (pair_events gs) = length gs"
    by (induction gs) (auto simp: pair_events_def)
  have f: "\<forall>ev \<in> set (pair_events gs). event_fits ev" using assms(5) by (auto simp: pair_events_def)
  have hs: "length hs \<le> 128" using assms(1) by (simp add: request_fits_def)
  show ?thesis
    using run_pairs [OF s h _ assms(5)] run_events_cases [OF s, of "pair_events gs"] v f c hs
    unfolding e by auto
qed

theorem reset_req_ctx_keeps_headers_witness:
  "\<exists>r r'. run_events (request_events ''GET'' ''/'' [(''Host'', ''h'')] []) http_request_t_init = Inr r
     \<and> run_events (pair_events [(''Host'', ''g'')]) (req (reset_req_ctx llhttp0 (fresh_ctx\<lparr>req := r\<rparr>))) = Inr r'
     \<and> headers_are r' [(''Host'', ''h''), (''Host'', ''g'')]"
proof -
  have f: "request_fits ''GET'' ''/'' [(''Host'', ''h'')]" by (simp add: request_fits_def NUL_def)
  obtain r where r: "run_events (request_events ''GET'' ''/'' [(''Host'', ''h'')] []) http_request_t_init = Inr r"
    using run_request [OF f, of "[]"] by auto
  show ?thesis
    using reset_req_ctx_keeps_headers [OF f _ r, of "[(''Host'', ''g'')]" llhttp0 fresh_ctx] r by auto
qed

text \<open>C29: Parsed requests are well typed: whatever llhttp reports and whatever was received, a request that
  \<open>parse_http_request\<close> hands back keeps every array at its declared size with a terminator inside, those of the
  URL (the path, ten keys and ten values) included, and its two counts within their arrays, so that the
  method, the target, the path, every query and every header can be read as C strings and
  \<open>is_closed_conn\<close> returns.\<close>

theorem parsed_request_typed:
  assumes "parse_http_request L junk (init_req_ctx L ctx0) buf n = Inr (ret, ctx)"
  shows "req_typed (req ctx) \<and> (\<exists>m. cstring (r_method (req ctx)) = Inr m \<and> length m < MAX_METHOD_SIZE)
     \<and> (\<exists>u. cstring (r_raw_path (req ctx)) = Inr u \<and> length u < MAX_PATH_SIZE)
     \<and> (\<exists>p. cstring (path (r_url (req ctx))) = Inr p \<and> length p < MAX_PATH_SIZE)
     \<and> (\<forall>q \<in> set (queries (r_url (req ctx))). \<exists>k v. cstring (pkey q) = Inr k \<and> length k < MAX_KEY_SIZE
          \<and> cstring (pval q) = Inr v \<and> length v < MAX_VALUE_SIZE)
     \<and> (\<exists>b. is_closed_conn ctx = Inr b)"
proof -
  have z: "req (init_req_ctx L ctx0) = http_request_t_init" by (simp add: init_req_ctx_def reset_req_ctx_def)
  have "\<exists>es r. run_events es http_request_t_init = Inr r \<and> (req ctx = r \<or> (\<exists>w. req ctx = r\<lparr>r_url := w\<rparr> \<and> url_typed w))"
    using assms unfolding parse_http_request_def z
    by (fastforce simp: rbind_eq_Inr Let_def dest: seperate_query_typed split: if_splits prod.splits)
  then obtain es r where r: "run_events es http_request_t_init = Inr r"
    "req ctx = r \<or> (\<exists>w. req ctx = r\<lparr>r_url := w\<rparr> \<and> url_typed w)" by blast
  have "req_typed r" using run_events_typed [OF req_typed_init r(1)] .
  then have t: "req_typed (req ctx)" using r(2) by (auto simp: req_typed_def)
  have "\<exists>b. is_closed_conn ctx = Inr b"
    using closed_from_returns [of "r_headers (req ctx)" "r_header_count (req ctx)" 0] t
    by (auto simp: req_typed_def is_closed_conn_def)
  moreover have "\<forall>q \<in> set (queries (r_url (req ctx))). \<exists>k v. cstring (pkey q) = Inr k \<and> length k < MAX_KEY_SIZE
          \<and> cstring (pval q) = Inr v \<and> length v < MAX_VALUE_SIZE"
    using t text_array_cstring by (fastforce simp: req_typed_def url_typed_def pair_typed_def)
  ultimately show ?thesis
    using t text_array_cstring by (simp add: req_typed_def url_typed_def)
qed

theorem parsed_request_typed_witness:
  "\<exists>ret ctx b. parse_http_request llhttp0 junk0 (init_req_ctx llhttp0 fresh_ctx) ''GET ...'' 7 = Inr (ret, ctx)
     \<and> req_typed (req ctx) \<and> is_closed_conn ctx = Inr b"
proof -
  have x: "lh_execute llhttp0 (lh_init llhttp0) (take (nat 7) ''GET ...'')
    = (request_events ''GET'' ''/a%20b?x=1'' [(''Host'', ''h''), (''connection'', ''close'')] [EvHeadersComplete, EvMessageComplete], HPE_OK, 1)"
    by (simp add: llhttp0_def HPE_OK_def)
  have f: "request_fits ''GET'' ''/a%20b?x=1'' [(''Host'', ''h''), (''connection'', ''close'')]"
    by (simp add: request_fits_def NUL_def)
  have d: "pct_decode ''/a%20b?x=1'' = Some ''/a b?x=1''" by (simp add: escape_def get_2_char_def NUL_def)
  have "query_part ''/a b?x=1'' = ''x=1''" by (simp add: query_part_def)
  then obtain ret ctx where "parse_http_request llhttp0 junk0 (init_req_ctx llhttp0 fresh_ctx) ''GET ...'' 7 = Inr (ret, ctx)"
    using parse_request_ok [OF x _ _ _ f, of junk0 fresh_ctx] unfolding d by (auto simp: INT_MAX_def ignored_def)
  with parsed_request_typed [OF this] show ?thesis by blast
qed

end
