(* ===== verification/Buffer.thy ===== *)
theory Buffer
  imports CMemory
begin

text \<open>
  The string type of \<^verbatim>\<open>src/ds/buffer.c\<close> and \<^verbatim>\<open>buffer.h\<close>: a length and a heap pointer.  Every function
  of the file is modelled over the byte heap, with failing allocations, dangling pointers and
  aliasing.  \<open>str_is h s t\<close> says that the struct \<open>s\<close> holds the string \<open>t\<close> in heap \<open>h\<close>; the lemmas
  give what each function does to it, and what it leaves alone.
\<close>

section \<open>The code\<close>

record string_t =
  slen :: int
  sdata :: ptr

definition null_string :: string_t where
  "null_string = \<lparr>slen = 0, sdata = None\<rparr>"

text \<open>A C string argument \<open>char *b\<close> is \<open>None\<close> for NULL, or the characters before its terminator.\<close>

definition new_string :: "char list option \<Rightarrow> heap \<Rightarrow> (string_t \<times> heap) res" where
  "new_string str h =
     (case str of None \<Rightarrow> Inr (null_string, h)
      | Some s \<Rightarrow>
          let len = int (length s) in
          if len \<ge> INT_MAX then Inl IntOverflow
          else (case malloc (size_of_int (len + 1)) h of
                  (None, h1) \<Rightarrow> Inr (null_string, h1)
                | (Some p, h1) \<Rightarrow>
                    rbind (store (Some p) 0 (strncpy_bytes s (length s)) h1) (\<lambda>h2.
                    rbind (store (Some p) len [NUL] h2) (\<lambda>h3.
                    Inr (\<lparr>slen = len, sdata = Some p\<rparr>, h3)))))"

definition new_n_string :: "int \<Rightarrow> heap \<Rightarrow> (string_t \<times> heap) res" where
  "new_n_string len h =
     (if len \<ge> INT_MAX then Inl IntOverflow
      else (case malloc (size_of_int (len + 1)) h of
              (None, h1) \<Rightarrow> Inr (null_string, h1)
            | (Some p, h1) \<Rightarrow>
                rbind (store (Some p) len [NUL] h1) (\<lambda>h2.
                Inr (\<lparr>slen = len, sdata = Some p\<rparr>, h2))))"

definition init_string :: "string_t option \<Rightarrow> heap \<Rightarrow> (string_t option \<times> heap) res" where
  "init_string s h =
     (case s of None \<Rightarrow> Inr (None, h)
      | Some _ \<Rightarrow> rbind (new_string (Some []) h) (\<lambda>(t, h1). Inr (Some t, h1)))"

definition free_string :: "string_t \<Rightarrow> heap \<Rightarrow> heap res" where
  "free_string s h = (if sdata s \<noteq> None then free (sdata s) h else Inr h)"

text \<open>\<open>append_string(a, b)\<close> returns its result, the new \<open>*a\<close> and the heap; \<open>*b\<close> itself is not
  written, its data is freed.\<close>

definition append_string ::
  "string_t option \<Rightarrow> string_t option \<Rightarrow> heap \<Rightarrow> (bool \<times> string_t option \<times> heap) res" where
  "append_string ap bp h =
     (case (ap, bp) of
        (Some a, Some b) \<Rightarrow>
          if sdata a = None \<or> sdata b = None then Inr (False, ap, h)
          else if slen a + slen b \<ge> INT_MAX then Inl IntOverflow
          else rbind (realloc (sdata a) (size_of_int (slen a + slen b + 1)) h) (\<lambda>(ptr, h1).
               if ptr = None then Inr (False, ap, h1)
               else rbind (load_strncpy (sdata b) (size_of_int (slen b)) h1) (\<lambda>bytes.
                    rbind (store ptr (slen a) bytes h1) (\<lambda>h2.
                    rbind (store ptr (slen a + slen b) [NUL] h2) (\<lambda>h3.
                    rbind (free_string b h3) (\<lambda>h4.
                    Inr (True, Some \<lparr>slen = slen a + slen b, sdata = ptr\<rparr>, h4))))))
      | _ \<Rightarrow> Inr (False, ap, h))"

definition append_string_cstr ::
  "string_t option \<Rightarrow> char list option \<Rightarrow> heap \<Rightarrow> (bool \<times> string_t option \<times> heap) res" where
  "append_string_cstr ap bp h =
     (case (ap, bp) of
        (Some a, Some b) \<Rightarrow>
          if sdata a = None then Inr (False, ap, h)
          else let b_len = int (length b) in
            if slen a + b_len \<ge> INT_MAX then Inl IntOverflow
            else rbind (realloc (sdata a) (size_of_int (slen a + b_len + 1)) h) (\<lambda>(ptr, h1).
               if ptr = None then Inr (False, ap, h1)
               else rbind (store ptr (slen a) (strncpy_bytes b (length b)) h1) (\<lambda>h2.
                    rbind (store ptr (slen a + b_len) [NUL] h2) (\<lambda>h3.
                    Inr (True, Some \<lparr>slen = slen a + b_len, sdata = ptr\<rparr>, h3))))
      | _ \<Rightarrow> Inr (False, ap, h))"

definition copy_string :: "string_t \<Rightarrow> heap \<Rightarrow> (string_t \<times> heap) res" where
  "copy_string str h =
     rbind (new_n_string (slen str) h) (\<lambda>(new_str, h1).
     if sdata new_str = None then Inr (new_str, h1)
     else rbind (load (sdata str) (size_of_int (slen str)) h1) (\<lambda>bytes.
          rbind (store (sdata new_str) 0 bytes h1) (\<lambda>h2.
          Inr (new_str, h2))))"

text \<open>\<open>reset_string\<close> clears \<open>sizeof(str->len)\<close>, that is four, bytes.\<close>

definition reset_string :: "string_t option \<Rightarrow> heap \<Rightarrow> (string_t option \<times> heap) res" where
  "reset_string sp h =
     (case sp of None \<Rightarrow> Inl NullDeref
      | Some s \<Rightarrow> rbind (store (sdata s) 0 (zeros 4) h) (\<lambda>h1. Inr (Some (s\<lparr>slen := 0\<rparr>), h1)))"

section \<open>Strings in the heap\<close>

text \<open>The struct owns a live block that begins with the string and a terminator.\<close>

definition str_is :: "heap \<Rightarrow> string_t \<Rightarrow> char list \<Rightarrow> bool" where
  "str_is h s t \<longleftrightarrow> slen s = int (length t) \<and> int (length t) < INT_MAX
     \<and> (case sdata s of None \<Rightarrow> False
        | Some p \<Rightarrow> (case hmem h p of None \<Rightarrow> False | Some b \<Rightarrow> take (length t + 1) b = t @ [NUL]))"

lemma str_isE:
  assumes "str_is h s t"
  obtains p r where "sdata s = Some p" "slen s = int (length t)" "int (length t) < INT_MAX"
    "hmem h p = Some (t @ NUL # r)"
proof -
  from assms obtain p b where *: "sdata s = Some p" "hmem h p = Some b" "slen s = int (length t)"
    "int (length t) < INT_MAX" "take (length t + 1) b = t @ [NUL]"
    by (auto simp: str_is_def split: option.splits)
  then have "b = (t @ [NUL]) @ drop (length t + 1) b" by (metis append_take_drop_id)
  with * that show ?thesis by simp
qed

lemma str_isI:
  "sdata s = Some p \<Longrightarrow> slen s = int (length t) \<Longrightarrow> int (length t) < INT_MAX \<Longrightarrow>
   hmem h p = Some (t @ NUL # r) \<Longrightarrow> str_is h s t"
  by (simp add: str_is_def)

lemma str_is_cong: "sdata s = Some p \<Longrightarrow> hmem h' p = hmem h p \<Longrightarrow> str_is h s t \<Longrightarrow> str_is h' s t"
  by (simp add: str_is_def)

text \<open>Sizes below \<open>INT_MAX\<close> pass through \<open>size_t\<close> unchanged and can be allocated.\<close>

lemma size_small: "n < INT_MAX \<Longrightarrow> 0 \<le> n \<Longrightarrow> size_of_int (n + 1) = nat n + 1 \<and> nat n + 1 \<le> PTRDIFF_MAX"
  by (auto simp: INT_MAX_def PTRDIFF_MAX_def nat_add_distrib)

lemma size_small': "n < INT_MAX \<Longrightarrow> 0 \<le> n \<Longrightarrow> size_of_int n = nat n"
  by (simp add: INT_MAX_def)

text \<open>A new, independent block at the next address.\<close>

abbreviation with_block :: "heap \<Rightarrow> char list \<Rightarrow> heap" where
  "with_block h b \<equiv> h\<lparr>hmem := (hmem h)(hnext h \<mapsto> b), hnext := Suc (hnext h)\<rparr>"

lemma store_at:
  "hmem h p = Some b \<Longrightarrow> nat off + length bytes \<le> length b \<Longrightarrow> 0 \<le> off \<Longrightarrow>
     store (Some p) off bytes h = Inr (h\<lparr>hmem := (hmem h)(p \<mapsto> overwrite b (nat off) bytes)\<rparr>)"
  by (simp add: store_def block_def)

lemma overwrite_end:
  "length b = length t + 1 \<Longrightarrow> overwrite b (length t) [c] = take (length t) b @ [c]"
  by (simp add: overwrite_def)

lemma overwrite_pair:
  assumes "length b = length t + length u + 1" and "take (length t) b = t"
  shows "overwrite (overwrite b (length t) u) (length t + length u) [NUL] = t @ u @ [NUL]"
  using assms by (simp add: overwrite_append overwrite_def)

lemma new_string_eq:
  assumes "no_fail h" and "no_nul s" and "int (length s) < INT_MAX"
  shows "new_string (Some s) h
     = Inr (\<lparr>slen = int (length s), sdata = Some (hnext h)\<rparr>, with_block h (s @ [NUL]))"
proof -
  note sz = size_small [OF assms(3), simplified]
  have "strncpy_bytes s (length s) = s" using strncpy_bytes_exact [OF assms(2), of "[]"] by simp
  then show ?thesis
    using assms(1,3) sz overwrite_pair [of "map (hjunk h (hnext h)) [0..<length s + 1]" "[]" s]
    by (simp add: new_string_def Let_def malloc_ok store_at)
qed

lemma new_n_string_eq:
  assumes "no_fail h" and "0 \<le> n" and "n < INT_MAX"
  shows "new_n_string n h = Inr (\<lparr>slen = n, sdata = Some (hnext h)\<rparr>,
     with_block h (map (hjunk h (hnext h)) [0..<nat n] @ [NUL]))"
proof -
  have "overwrite (map (hjunk h (hnext h)) [0..<nat n + 1]) (nat n) [NUL]
      = map (hjunk h (hnext h)) [0..<nat n] @ [NUL]"
    by (simp add: overwrite_def)
  then show ?thesis
    using assms size_small [of n] by (simp add: new_n_string_def malloc_ok store_at)
qed

text \<open>What \<open>strncpy\<close> makes of a string with NULs inside: everything after the first becomes
  zero.\<close>

definition nul_pad :: "char list \<Rightarrow> char list" where
  "nul_pad u = strncpy_bytes u (length u)"

lemma length_nul_pad [simp]: "length (nul_pad u) = length u"
  by (simp add: nul_pad_def)

lemma nul_pad_no_nul [simp]: "no_nul u \<Longrightarrow> nul_pad u = u"
  using strncpy_bytes_exact [of u "[]"] by (simp add: nul_pad_def)

lemma cstr_terminated': "cstr (u @ NUL # r) = cstr u"
  by (induction u) (simp_all add: cstr_def)

lemma strncpy_block: "strncpy_bytes (u @ NUL # r) (length u) = nul_pad u"
  by (simp add: nul_pad_def strncpy_bytes_def cstr_terminated')

lemma append_string_cstr_eq:
  assumes h: "no_fail h" "heap_ok h" and a: "str_is h a t" "sdata a = Some p"
    and s: "no_nul s" "int (length t) + int (length s) < INT_MAX"
  shows "append_string_cstr (Some a) (Some s) h
     = Inr (True, Some \<lparr>slen = int (length t + length s), sdata = Some (hnext h)\<rparr>,
            h\<lparr>hmem := (hmem h)(p := None, hnext h \<mapsto> t @ s @ [NUL]), hnext := Suc (hnext h)\<rparr>)"
proof -
  from a obtain r where r: "slen a = int (length t)" "hmem h p = Some (t @ NUL # r)"
    by (auto elim: str_isE)
  let ?G = "resized h (hnext h) (t @ NUL # r) (Suc (length t + length s))"
  have pn: "p \<noteq> hnext h" using heap_ok_used [OF h(2) r(2)] by simp
  have sz: "size_of_int (int (length t) + int (length s) + 1) = Suc (length t + length s)"
    "Suc (length t + length s) \<le> PTRDIFF_MAX"
    using size_small [OF s(2)] by (simp_all add: nat_int_add)
  have re: "realloc (Some p) (Suc (length t + length s)) h = Inr (Some (hnext h),
     h\<lparr>hmem := (hmem h)(hnext h \<mapsto> ?G, p := None), hnext := Suc (hnext h)\<rparr>)"
    by (rule realloc_ok [OF h(1) sz(2) r(2)])
  have G: "overwrite (overwrite ?G (length t) s) (length t + length s) [NUL] = t @ s @ [NUL]"
    by (intro overwrite_pair) (simp_all add: take_resized)
  have s': "strncpy_bytes s (length s) = s" using strncpy_bytes_exact [OF s(1), of "[]"] by simp
  show ?thesis
    using a(2) r(1) s(2) pn
    by (simp add: append_string_cstr_def Let_def sz(1) re s' store_at nat_int_add G fun_upd_twist)
qed

lemma append_string_eq:
  assumes h: "no_fail h" "heap_ok h" and a: "str_is h a t" "sdata a = Some p"
    and b: "str_is h b u" "sdata b = Some q" "q \<noteq> p" and len: "int (length t) + int (length u) < INT_MAX"
  shows "append_string (Some a) (Some b) h
     = Inr (True, Some \<lparr>slen = int (length t + length u), sdata = Some (hnext h)\<rparr>,
            h\<lparr>hmem := (hmem h)(p := None, q := None, hnext h \<mapsto> t @ nul_pad u @ [NUL]),
              hnext := Suc (hnext h)\<rparr>)"
proof -
  from a obtain r where r: "slen a = int (length t)" "hmem h p = Some (t @ NUL # r)"
    by (auto elim: str_isE)
  from b obtain r' where r': "slen b = int (length u)" "hmem h q = Some (u @ NUL # r')"
    by (auto elim: str_isE)
  let ?G = "resized h (hnext h) (t @ NUL # r) (Suc (length t + length u))"
  have pn: "p \<noteq> hnext h" "q \<noteq> hnext h"
    using heap_ok_used [OF h(2) r(2)] heap_ok_used [OF h(2) r'(2)] by simp_all
  have sz: "size_of_int (int (length t) + int (length u) + 1) = Suc (length t + length u)"
    "Suc (length t + length u) \<le> PTRDIFF_MAX"
    using size_small [OF len] by (simp_all add: nat_int_add)
  have su: "size_of_int (int (length u)) = length u" using len by (subst size_small') simp_all
  have re: "realloc (Some p) (Suc (length t + length u)) h = Inr (Some (hnext h),
     h\<lparr>hmem := (hmem h)(hnext h \<mapsto> ?G, p := None), hnext := Suc (hnext h)\<rparr>)"
    by (rule realloc_ok [OF h(1) sz(2) r(2)])
  have G: "overwrite (overwrite ?G (length t) (nul_pad u)) (length t + length (nul_pad u)) [NUL]
      = t @ nul_pad u @ [NUL]"
    by (intro overwrite_pair) (simp_all add: take_resized)
  show ?thesis
    using a(2) b(2,3) r(1) r' len pn G
    by (simp add: append_string_def sz(1) re su load_strncpy_def block_def strncpy_block store_at
        nat_int_add free_string_def free_def fun_upd_twist)
qed

lemma append_string_refused:
  assumes "hfail h (hnext h)" and "str_is h a t" and "str_is h b u"
    and "int (length t) + int (length u) < INT_MAX"
  shows "append_string (Some a) (Some b) h = Inr (False, Some a, h\<lparr>hnext := Suc (hnext h)\<rparr>)"
  using assms by (auto simp: append_string_def realloc_fails elim!: str_isE)

lemma append_string_cstr_refused:
  assumes "hfail h (hnext h)" and "str_is h a t" and "int (length t) + int (length s) < INT_MAX"
  shows "append_string_cstr (Some a) (Some s) h = Inr (False, Some a, h\<lparr>hnext := Suc (hnext h)\<rparr>)"
  using assms by (auto simp: append_string_cstr_def realloc_fails Let_def elim!: str_isE)

lemma copy_string_eq:
  assumes h: "no_fail h" "heap_ok h" and s: "str_is h s t"
  shows "copy_string s h = Inr (\<lparr>slen = int (length t), sdata = Some (hnext h)\<rparr>, with_block h (t @ [NUL]))"
proof -
  from s obtain p r where r: "sdata s = Some p" "slen s = int (length t)" "int (length t) < INT_MAX"
    "hmem h p = Some (t @ NUL # r)" by (rule str_isE)
  have "p \<noteq> hnext h" using heap_ok_used [OF h(2) r(4)] by simp
  moreover have "size_of_int (int (length t)) = length t" using r(3) by (subst size_small') simp_all
  moreover have "overwrite (map (hjunk h (hnext h)) [0..<length t] @ [NUL]) 0 t = t @ [NUL]"
    by (simp add: overwrite_def)
  ultimately show ?thesis
    using r new_n_string_eq [OF h(1), of "int (length t)"]
    by (cases "t = []") (simp_all add: copy_string_def load_def block_def store_at)
qed

section \<open>Building a text piece by piece\<close>

definition ready :: "heap \<Rightarrow> bool" where
  "ready h \<longleftrightarrow> no_fail h \<and> heap_ok h"

text \<open>From \<open>h\<close> with the string \<open>r\<close> to \<open>h'\<close> with the string \<open>r'\<close> holding \<open>t'\<close>: the block of \<open>r\<close> is
  replaced by that of \<open>r'\<close>, every other live block is the same, and nothing else is live.\<close>

definition grows :: "heap \<Rightarrow> string_t \<Rightarrow> heap \<Rightarrow> string_t \<Rightarrow> char list \<Rightarrow> bool" where
  "grows h r h' r' t' \<longleftrightarrow> ready h \<and> ready h' \<and> str_is h' r' t' \<and> hnext h \<le> hnext h'
     \<and> (\<exists>p'. sdata r' = Some p' \<and> (p' < hnext h \<longrightarrow> sdata r = Some p')
          \<and> (\<forall>a. a \<noteq> p' \<longrightarrow> hmem h' a = (if sdata r = Some a then None else hmem h a)))"

lemma grows_refl: "ready h \<Longrightarrow> str_is h r t \<Longrightarrow> grows h r h r t"
  by (auto simp: grows_def elim!: str_isE)

lemma grows_trans:
  assumes "grows h r h1 r1 t1" and "grows h1 r1 h2 r2 t2"
  shows "grows h r h2 r2 t2"
proof -
  from assms(1) obtain p1 where 1: "sdata r1 = Some p1" "p1 < hnext h \<longrightarrow> sdata r = Some p1"
    "\<And>a. a \<noteq> p1 \<Longrightarrow> hmem h1 a = (if sdata r = Some a then None else hmem h a)" "ready h" "ready h1"
    "hnext h \<le> hnext h1" "str_is h1 r1 t1"
    by (auto simp: grows_def)
  from assms(2) obtain p2 where 2: "sdata r2 = Some p2" "p2 < hnext h1 \<longrightarrow> sdata r1 = Some p2"
    "\<And>a. a \<noteq> p2 \<Longrightarrow> hmem h2 a = (if sdata r1 = Some a then None else hmem h1 a)"
    by (auto simp: grows_def)
  have "hmem h2 a = (if sdata r = Some a then None else hmem h a)" if "a \<noteq> p2" for a
  proof (cases "a = p1")
    case False
    then show ?thesis using 1(1,3) 2(3) that by auto
  next
    case True
    then have "hmem h2 a = None" using 1(1) 2(3) that by auto
    moreover have "hnext h \<le> p1 \<Longrightarrow> hmem h p1 = None" using 1(4) by (simp add: ready_def heap_ok_def)
    ultimately show ?thesis using True 1(2) by (auto simp: not_less)
  qed
  moreover have "p2 < hnext h \<longrightarrow> sdata r = Some p2" using 1 2 by auto
  ultimately show ?thesis using assms 1 2 by (auto simp: grows_def)
qed

text \<open>The interface of an operation that appends one piece of text; the pieces may be anything
  that has a text (a C string, a header, a number).\<close>

locale text_builder =
  fixes emit :: "'p \<Rightarrow> string_t \<Rightarrow> heap \<Rightarrow> (string_t \<times> heap) res"
    and ptext :: "'p \<Rightarrow> char list"
    and fit :: "'p \<Rightarrow> bool"
  assumes emit_grows: "\<lbrakk>fit p; ready h; str_is h r t; int (length t + length (ptext p)) < INT_MAX\<rbrakk> \<Longrightarrow>
      \<exists>r' h'. emit p r h = Inr (r', h') \<and> grows h r h' r' (t @ ptext p)"

fun emit_all :: "('p \<Rightarrow> string_t \<Rightarrow> heap \<Rightarrow> (string_t \<times> heap) res) \<Rightarrow> 'p list \<Rightarrow> string_t \<Rightarrow> heap
    \<Rightarrow> (string_t \<times> heap) res" where
  "emit_all emit [] r h = Inr (r, h)"
| "emit_all emit (p # ps) r h = rbind (emit p r h) (\<lambda>(r', h'). emit_all emit ps r' h')"

context text_builder begin

lemma emit_all_grows:
  "\<lbrakk>\<forall>p \<in> set ps. fit p; ready h; str_is h r t; int (length t + length (concat (map ptext ps))) < INT_MAX\<rbrakk> \<Longrightarrow>
   \<exists>r' h'. emit_all emit ps r h = Inr (r', h') \<and> grows h r h' r' (t @ concat (map ptext ps))"
proof (induction ps arbitrary: r h t)
  case Nil
  then show ?case by (auto intro: grows_refl)
next
  case (Cons p ps)
  then obtain r1 h1 where 1: "emit p r h = Inr (r1, h1)" "grows h r h1 r1 (t @ ptext p)"
    using emit_grows [of p h r t] by auto
  then have "ready h1" "str_is h1 r1 (t @ ptext p)" by (auto simp: grows_def)
  with Cons obtain r2 h2 where "emit_all emit ps r1 h1 = Inr (r2, h2)"
    "grows h1 r1 h2 r2 ((t @ ptext p) @ concat (map ptext ps))"
    by (force simp: ac_simps)
  with 1 show ?case by (auto intro: grows_trans)
qed

end

text \<open>Appending C strings with \<open>append_string_cstr\<close> is such an operation.\<close>

definition emit_cstr :: "char list \<Rightarrow> string_t \<Rightarrow> heap \<Rightarrow> (string_t \<times> heap) res" where
  "emit_cstr s r h = rbind (append_string_cstr (Some r) (Some s) h) (\<lambda>(ok, rp, h').
     case rp of None \<Rightarrow> Inl NullDeref | Some r' \<Rightarrow> Inr (r', h'))"

lemma append_string_cstr_grows:
  assumes "ready h" and "str_is h r t" and "no_nul s" and "int (length t + length s) < INT_MAX"
  shows "\<exists>r' h'. append_string_cstr (Some r) (Some s) h = Inr (True, Some r', h')
     \<and> grows h r h' r' (t @ s)"
proof -
  from assms(2) obtain p where p: "sdata r = Some p" by (auto elim: str_isE)
  have pn: "p \<noteq> hnext h" using assms(1,2) p by (auto simp: ready_def elim!: str_isE dest: heap_ok_used)
  let ?h = "h\<lparr>hmem := (hmem h)(p := None, hnext h \<mapsto> t @ s @ [NUL]), hnext := Suc (hnext h)\<rparr>"
  let ?r = "\<lparr>slen = int (length t + length s), sdata = Some (hnext h)\<rparr>"
  have "append_string_cstr (Some r) (Some s) h = Inr (True, Some ?r, ?h)"
    using assms p by (intro append_string_cstr_eq) (auto simp: ready_def)
  moreover have "grows h r ?h ?r (t @ s)"
    using assms p pn by (auto simp: grows_def ready_def str_is_def heap_ok_def)
  ultimately show ?thesis by blast
qed

interpretation cstr_builder: text_builder emit_cstr "\<lambda>s. s" no_nul
proof
  fix p h r t
  assume "no_nul p" "ready h" "str_is h r t" "int (length t + length p) < INT_MAX"
  from append_string_cstr_grows [OF this(2,3,1,4)]
  show "\<exists>r' h'. emit_cstr p r h = Inr (r', h') \<and> grows h r h' r' (t @ p)"
    by (auto simp: emit_cstr_def)
qed

section \<open>Properties\<close>

text \<open>A heap with two strings, the second with a NUL inside, and one whose next allocation fails.\<close>

definition heap0 :: heap where
  "heap0 = \<lparr>hmem = (\<lambda>_. None), hnext = 0, hfail = (\<lambda>_. False), hjunk = (\<lambda>_ _. CHR ''?'')\<rparr>"

definition heap2 :: heap where
  "heap2 = heap0\<lparr>hmem := [0 \<mapsto> ''ab'' @ [NUL], 1 \<mapsto> ''x'' @ [NUL] @ ''y'' @ [NUL]], hnext := 2\<rparr>"

abbreviation str_ab :: string_t where
  "str_ab \<equiv> \<lparr>slen = 2, sdata = Some 0\<rparr>"

abbreviation str_xy :: string_t where
  "str_xy \<equiv> \<lparr>slen = 3, sdata = Some 1\<rparr>"

lemma heap2_strings: "ready heap2" "str_is heap2 str_ab ''ab''" "str_is heap2 str_xy (''x'' @ [NUL] @ ''y'')"
  by (simp_all add: heap2_def heap0_def ready_def no_fail_def heap_ok_def str_is_def INT_MAX_def)

text \<open>\<open>append_string\<close> on two distinct live strings: it succeeds when memory is available, the
  first string becomes the concatenation, the second one's data is freed, and no other block
  changes.  The copy is a \<open>strncpy\<close>, so the appended part is kept only up to its first NUL byte;
  the rest arrives as zeros (for text, which has none, the result is the plain concatenation).\<close>

theorem append_string_spec:
  assumes "ready h" and "str_is h a t" and "str_is h b u" and "sdata a \<noteq> sdata b"
    and "int (length t) + int (length u) < INT_MAX"
  shows "\<exists>a' h'. append_string (Some a) (Some b) h = Inr (True, Some a', h')
     \<and> str_is h' a' (t @ cstr u @ zeros (length u - length (cstr u)))
     \<and> hmem h' (the (sdata b)) = None
     \<and> (\<forall>x < hnext h. Some x \<noteq> sdata a \<and> Some x \<noteq> sdata b \<longrightarrow> hmem h' x = hmem h x)"
proof -
  from assms(2,3) obtain p q where pq: "sdata a = Some p" "sdata b = Some q"
    by (auto elim!: str_isE)
  then have ne: "q \<noteq> p" using assms(4) by auto
  have q: "q < hnext h" using assms(1,3) pq by (auto simp: ready_def elim!: str_isE dest: heap_ok_used)
  have "nul_pad u = cstr u @ zeros (length u - length (cstr u))"
    using length_cstr_le [of u] by (simp add: nul_pad_def strncpy_bytes_def Let_def zeros_def)
  moreover have "length (t @ nul_pad u) = length t + length u" by simp
  ultimately show ?thesis
    using append_string_eq [OF _ _ assms(2) pq(1) assms(3) pq(2) ne assms(5)] assms(1,5) pq q
    by (fastforce simp: ready_def str_is_def)
qed

theorem append_string_spec_witness:
  "\<exists>a' h'. append_string (Some str_ab) (Some str_xy) heap2 = Inr (True, Some a', h')
     \<and> str_is h' a' (''abx'' @ [NUL] @ [NUL]) \<and> hmem h' 1 = None"
proof -
  have "int (length ''ab'') + int (length (''x'' @ [NUL] @ ''y'')) < INT_MAX" by (simp add: INT_MAX_def)
  from append_string_spec [OF heap2_strings _ this] show ?thesis
    by (auto simp: cstr_def NUL_def zeros_def numeral_eq_Suc)
qed

text \<open>When \<open>realloc\<close> fails, both append functions return false and lose nothing: the string
  struct is returned as it was and every block of the heap, the string's own included, is
  unchanged, so the caller can still free it.\<close>

theorem append_failure_keeps_string:
  assumes "hfail h (hnext h)" and "str_is h a t"
  shows "(str_is h b u \<longrightarrow> int (length t) + int (length u) < INT_MAX \<longrightarrow>
            (\<exists>h'. append_string (Some a) (Some b) h = Inr (False, Some a, h') \<and> hmem h' = hmem h))
       \<and> (int (length t) + int (length s) < INT_MAX \<longrightarrow>
            (\<exists>h'. append_string_cstr (Some a) (Some s) h = Inr (False, Some a, h') \<and> hmem h' = hmem h))"
  using append_string_refused [OF assms] append_string_cstr_refused [OF assms] by auto

theorem append_failure_keeps_string_witness:
  "\<exists>h'. append_string (Some str_ab) (Some str_xy) (heap2\<lparr>hfail := \<lambda>n. n = 2\<rparr>) = Inr (False, Some str_ab, h')
     \<and> hmem h' = hmem heap2"
proof -
  let ?h = "heap2\<lparr>hfail := \<lambda>n. n = 2\<rparr>"
  have "hfail ?h (hnext ?h)" by (simp add: heap2_def)
  moreover have "str_is ?h str_ab ''ab''" "str_is ?h str_xy (''x'' @ [NUL] @ ''y'')"
    using heap2_strings by (simp_all add: str_is_def)
  ultimately show ?thesis
    using append_failure_keeps_string [of ?h str_ab "''ab''" str_xy "''x'' @ [NUL] @ ''y''" "[]"]
    by (simp add: INT_MAX_def)
qed

text \<open>Appending a string to itself is a use after free: \<open>realloc\<close> invalidates the data pointer
  that \<open>strncpy\<close> then reads.\<close>

theorem append_string_self:
  assumes "ready h" and "str_is h a t" and "2 * int (length t) < INT_MAX"
  shows "append_string (Some a) (Some a) h = Inl UseAfterFree"
proof -
  from assms(2) obtain p r where r: "sdata a = Some p" "slen a = int (length t)" "hmem h p = Some (t @ NUL # r)"
    by (auto elim: str_isE)
  have sz: "int (length t) + int (length t) < INT_MAX" using assms(3) by simp
  have "size_of_int (int (length t) + int (length t) + 1) \<le> PTRDIFF_MAX"
    using size_small [OF sz] by simp
  moreover have "p \<noteq> hnext h" using assms(1) r by (auto simp: ready_def dest: heap_ok_used)
  ultimately show ?thesis
    using r sz assms(1) by (simp add: append_string_def realloc_ok ready_def load_strncpy_def block_def)
qed

theorem append_string_self_witness:
  "append_string (Some str_ab) (Some str_ab) heap2 = Inl UseAfterFree"
  by (rule append_string_self [OF heap2_strings(1,2)]) (simp add: INT_MAX_def)

text \<open>\<open>copy_string\<close> makes an independent copy, byte for byte (NULs included): the copy lives in
  a fresh block, the original stays valid, and no existing block changes.\<close>

theorem copy_string_spec:
  assumes "ready h" and "str_is h s t"
  shows "\<exists>c h'. copy_string s h = Inr (c, h') \<and> str_is h' c t \<and> str_is h' s t \<and> sdata c \<noteq> sdata s
     \<and> ready h' \<and> (\<forall>x < hnext h. hmem h' x = hmem h x)"
proof -
  from assms(2) obtain p r where r: "sdata s = Some p" "slen s = int (length t)" "int (length t) < INT_MAX"
    "hmem h p = Some (t @ NUL # r)" by (rule str_isE)
  have "p \<noteq> hnext h" using assms(1) r by (auto simp: ready_def dest: heap_ok_used)
  then show ?thesis
    using copy_string_eq [OF _ _ assms(2)] assms(1) r by (auto simp: ready_def str_is_def)
qed

theorem copy_string_spec_witness:
  "\<exists>c h'. copy_string str_xy heap2 = Inr (c, h') \<and> str_is h' c (''x'' @ [NUL] @ ''y'')"
  using copy_string_spec [OF heap2_strings(1,3)] by auto

text \<open>\<open>reset_string\<close> clears four bytes whatever the string's length (\<open>sizeof(str->len)\<close> is the
  size of an \<open>int\<close>): it writes out of bounds exactly when the block is shorter than that, as for
  the empty string of \<open>init_string\<close>, and leaves later characters in place otherwise.\<close>

theorem reset_string_spec:
  assumes "sdata s = Some p" and "hmem h p = Some b"
  shows "reset_string (Some s) h =
     (if length b < 4 then Inl OutOfBounds
      else Inr (Some (s\<lparr>slen := 0\<rparr>), h\<lparr>hmem := (hmem h)(p \<mapsto> zeros 4 @ drop 4 b)\<rparr>))"
  using assms by (simp add: reset_string_def store_def block_def arr_write_def overwrite_def)

theorem reset_string_spec_witness:
  "rbind (init_string (Some null_string) heap0) (\<lambda>(s, h). reset_string s h) = Inl OutOfBounds"
proof -
  have "no_fail heap0" by (simp add: heap0_def no_fail_def)
  then have i: "init_string (Some null_string) heap0
      = Inr (Some \<lparr>slen = 0, sdata = Some 0\<rparr>, heap0\<lparr>hmem := [0 \<mapsto> [NUL]], hnext := 1\<rparr>)"
    by (simp add: init_string_def new_string_eq INT_MAX_def) (simp add: heap0_def)
  show ?thesis unfolding i
    using reset_string_spec [of "\<lparr>slen = 0, sdata = Some 0\<rparr>" 0 "heap0\<lparr>hmem := [0 \<mapsto> [NUL]], hnext := 1\<rparr>" "[NUL]"]
    by simp
qed

text \<open>Building a text from C strings and freeing it leaks nothing: \<open>new_string\<close>, any number of
  \<open>append_string_cstr\<close> and \<open>free_string\<close> leave exactly the blocks that were live before; in
  between the string holds the concatenation.\<close>

theorem build_and_free_no_leak:
  assumes "ready h" and "no_nul s" and "\<forall>p \<in> set ps. no_nul p"
    and "int (length s + length (concat ps)) < INT_MAX"
  shows "\<exists>a h1 r h2 h3. new_string (Some s) h = Inr (a, h1) \<and> emit_all emit_cstr ps a h1 = Inr (r, h2)
     \<and> str_is h2 r (s @ concat ps) \<and> free_string r h2 = Inr h3 \<and> hmem h3 = hmem h"
proof -
  let ?a = "\<lparr>slen = int (length s), sdata = Some (hnext h)\<rparr>" and ?h1 = "with_block h (s @ [NUL])"
  have n: "new_string (Some s) h = Inr (?a, ?h1)"
    using assms by (intro new_string_eq) (auto simp: ready_def)
  have "ready ?h1" "str_is ?h1 ?a s" using assms by (simp_all add: ready_def str_is_def)
  then obtain r h2 where r: "emit_all emit_cstr ps ?a ?h1 = Inr (r, h2)" "grows ?h1 ?a h2 r (s @ concat ps)"
    using cstr_builder.emit_all_grows [of ps ?h1 ?a s] assms(3,4) by auto
  then obtain p' where p': "sdata r = Some p'" "p' < Suc (hnext h) \<longrightarrow> p' = hnext h" "hmem h2 p' \<noteq> None"
    "\<And>a. a \<noteq> p' \<Longrightarrow> hmem h2 a = (if a = hnext h then None else hmem ?h1 a)"
    "str_is h2 r (s @ concat ps)"
    by (auto simp: grows_def elim!: str_isE)
  have "hmem h p' = None" "hmem h (hnext h) = None"
    using p'(2) assms(1) by (auto simp: ready_def heap_ok_def not_less_eq_eq)
  then have "(hmem h2)(p' := None) = hmem h" using p'(4) by auto
  with n r p' show ?thesis by (auto simp: free_string_def free_def)
qed

theorem build_and_free_no_leak_witness:
  "\<exists>a h1 r h2 h3. new_string (Some ''Path='') heap2 = Inr (a, h1)
     \<and> emit_all emit_cstr [''/x'', '' not found''] a h1 = Inr (r, h2)
     \<and> str_is h2 r ''Path=/x not found'' \<and> free_string r h2 = Inr h3 \<and> hmem h3 = hmem heap2"
  using build_and_free_no_leak [OF heap2_strings(1), of "''Path=''" "[''/x'', '' not found'']"]
  by (simp add: INT_MAX_def NUL_def)

end
