(* ===== verification/Response.thy ===== *)
theory Response
  imports Parser Buffer
begin

text \<open>
  The response side of \<^verbatim>\<open>src/response.c\<close> and \<^verbatim>\<open>response.h\<close>: the response struct with its fixed header
  arrays and the serialisation \<open>generate_response\<close> over the byte heap.  The handlers that fill a
  response are in theory \<open>Pages\<close>.
\<close>

section \<open>Data\<close>

record http_response_t =
  p_status :: int
  p_headers :: "header_t list"
  p_header_count :: nat
  p_is_closed :: bool
  p_body :: string_t
  p_err :: int

record response_ctx_t =
  resp :: http_response_t
  complete_resp :: string_t

text \<open>The values llhttp's header gives to the status codes the code names.\<close>

definition HTTP_STATUS_OK :: int where "HTTP_STATUS_OK = 200"
definition HTTP_STATUS_FORBIDDEN :: int where "HTTP_STATUS_FORBIDDEN = 403"
definition HTTP_STATUS_NOT_FOUND :: int where "HTTP_STATUS_NOT_FOUND = 404"
definition HTTP_STATUS_INTERNAL_SERVER_ERROR :: int where "HTTP_STATUS_INTERNAL_SERVER_ERROR = 500"

lemmas status_codes = HTTP_STATUS_OK_def HTTP_STATUS_FORBIDDEN_def HTTP_STATUS_NOT_FOUND_def
  HTTP_STATUS_INTERNAL_SERVER_ERROR_def

definition CRLF :: "char list" where
  "CRLF = [CHR 0x0D, CHR 0x0A]"

definition TEMP_LEN :: int where
  "TEMP_LEN = 216"

section \<open>Serialisation\<close>

definition get_status_code :: "int \<Rightarrow> char list" where
  "get_status_code code =
     (if code = HTTP_STATUS_NOT_FOUND then ''Not Found''
      else if code = HTTP_STATUS_OK then ''OK''
      else if code = HTTP_STATUS_FORBIDDEN then ''Forbidden''
      else if code = HTTP_STATUS_INTERNAL_SERVER_ERROR then ''Internal Server Error''
      else ''Internal Server Error'')"

definition init_resp_ctx :: response_ctx_t where
  "init_resp_ctx = \<lparr>resp = \<lparr>p_status = 0, p_headers = replicate MAX_HEADER_COUNT zero_header,
     p_header_count = 0, p_is_closed = False, p_body = null_string, p_err = 0\<rparr>, complete_resp = null_string\<rparr>"

definition reset_resp_ctx :: "response_ctx_t \<Rightarrow> response_ctx_t" where
  "reset_resp_ctx ctx = ctx"

text \<open>What the two format strings \<open>first_line\<close> and \<open>header_value\<close> print.\<close>

definition first_line :: "int \<Rightarrow> char list \<Rightarrow> char list" where
  "first_line code s = ''HTTP/1.1 '' @ show_int code @ '' '' @ s @ CRLF"

definition header_value :: "char list \<Rightarrow> char list \<Rightarrow> char list" where
  "header_value k v = k @ '': '' @ v @ CRLF"

text \<open>The bytes \<open>snprintf\<close> writes into a buffer of \<open>cap\<close> bytes.\<close>

definition snprintf_bytes :: "nat \<Rightarrow> char list \<Rightarrow> char list" where
  "snprintf_bytes cap text = take (cap - 1) text @ [NUL]"

text \<open>\<open>n = snprintf(a.data, TEMP_LEN, ...); a.data[n] = '\0'; a.len = n\<close>, where the printed text is
  \<open>text\<close>; then \<open>append_string(&resp, &a)\<close>, whose failure is only logged.\<close>

definition print_and_append :: "char list \<Rightarrow> string_t \<Rightarrow> heap \<Rightarrow> (string_t \<times> heap) res" where
  "print_and_append text r h =
     rbind (new_n_string TEMP_LEN h) (\<lambda>(a, h1).
     rbind (store (sdata a) 0 (snprintf_bytes (nat TEMP_LEN) text) h1) (\<lambda>h2.
     rbind (store (sdata a) (int (length text)) [NUL] h2) (\<lambda>h3.
     rbind (append_string (Some r) (Some (a\<lparr>slen := int (length text)\<rparr>)) h3) (\<lambda>(ok, rp, h4).
     Inr (the rp, h4)))))"

text \<open>One round of the loop over the headers.\<close>

definition append_header :: "header_t \<Rightarrow> string_t \<Rightarrow> heap \<Rightarrow> (string_t \<times> heap) res" where
  "append_header hdr r h =
     rbind (cstring (h_key hdr)) (\<lambda>k. rbind (cstring (h_value hdr)) (\<lambda>v.
     print_and_append (header_value k v) r h))"

definition generate_response :: "response_ctx_t \<Rightarrow> heap \<Rightarrow> (string_t \<times> heap) res" where
  "generate_response ctx h =
     (let rp = resp ctx;
          line = first_line (p_status rp) (get_status_code (p_status rp)) in
      rbind (new_n_string TEMP_LEN h) (\<lambda>(temp_resp, h1).
      rbind (store (sdata temp_resp) 0 (snprintf_bytes (nat TEMP_LEN) line) h1) (\<lambda>h2.
      rbind (store (sdata temp_resp) (int (length line)) [NUL] h2) (\<lambda>h3.
      rbind (new_string (Some []) h3) (\<lambda>(r0, h4).
      rbind (append_string (Some r0) (Some (temp_resp\<lparr>slen := int (length line)\<rparr>)) h4) (\<lambda>(_, r1, h5).
      rbind (emit_all append_header (take (p_header_count rp) (p_headers rp)) (the r1) h5) (\<lambda>(r2, h6).
      rbind (if length (p_headers rp) < p_header_count rp then Inl OutOfBounds else Inr ()) (\<lambda>_.
      rbind (new_string (Some CRLF) h6) (\<lambda>(seperator, h7).
      rbind (append_string (Some r2) (Some seperator) h7) (\<lambda>(_, r3, h8).
      rbind (copy_string (p_body rp) h8) (\<lambda>(body, h9).
      rbind (append_string r3 (Some body) h9) (\<lambda>(_, r4, h10).
      Inr (the r4, h10)))))))))))))"

definition write_response :: "response_ctx_t \<Rightarrow> heap \<Rightarrow> (int \<times> heap) res" where
  "write_response ctx h =
     rbind (generate_response ctx h) (\<lambda>(r, h1).
     rbind (block (sdata r) h1) (\<lambda>b.
     rbind (cstring b) (\<lambda>_.
     rbind (free_string r h1) (\<lambda>h2.
     rbind (free_string (p_body (resp ctx)) h2) (\<lambda>h3. Inr (0, h3))))))"

text \<open>\<open>set_header\<close> copies both strings without their terminators and without checking their
  lengths or the number of headers.\<close>

definition set_header :: "response_ctx_t \<Rightarrow> char list \<Rightarrow> char list \<Rightarrow> response_ctx_t res" where
  "set_header ctx header v =
     (let rp = resp ctx; i = p_header_count rp in
      rbind (arr_get (p_headers rp) i) (\<lambda>hdr.
      rbind (arr_write (h_key hdr) 0 header) (\<lambda>k.
      rbind (arr_write (h_value hdr) 0 v) (\<lambda>w.
      Inr (ctx\<lparr>resp := rp\<lparr>p_headers := (p_headers rp)[i := hdr\<lparr>h_key := k, h_value := w\<rparr>],
                          p_header_count := i + 1\<rparr>\<rparr>)))))"

section \<open>Appending pieces\<close>

text \<open>Appending a temporary that was allocated right after heap \<open>h\<close>.\<close>

lemma append_temp_grows:
  assumes h: "ready h" "str_is h r t"
    and u: "no_fail h1" "hnext h1 = Suc (hnext h)" "hmem h1 = (hmem h)(hnext h \<mapsto> u @ NUL # x)"
    and b: "sdata b = Some (hnext h)" "slen b = int (length u)"
    and len: "int (length t) + int (length u) < INT_MAX"
  shows "\<exists>r' h'. append_string (Some r) (Some b) h1 = Inr (True, Some r', h') \<and> grows h r h' r' (t @ nul_pad u)"
proof -
  from h(2) obtain p y where p: "sdata r = Some p" "hmem h p = Some (t @ NUL # y)" by (auto elim: str_isE)
  have pn: "p < hnext h" using h(1) p(2) by (auto simp: ready_def dest: heap_ok_used)
  have ok: "heap_ok h1" using h(1) u by (auto simp: ready_def heap_ok_def)
  have rt: "str_is h1 r t" using h(2) p(1) pn u(3) by (auto intro: str_is_cong)
  have bt: "str_is h1 b u" using b u(3) len by (auto intro: str_isI)
  let ?h' = "h1\<lparr>hmem := (hmem h1)(p := None, hnext h := None, hnext h1 \<mapsto> t @ nul_pad u @ [NUL]),
                hnext := Suc (hnext h1)\<rparr>"
  let ?r' = "\<lparr>slen = int (length t + length u), sdata = Some (hnext h1)\<rparr>"
  have "append_string (Some r) (Some b) h1 = Inr (True, Some ?r', ?h')"
    using pn by (intro append_string_eq [OF u(1) ok rt p(1) bt b(1) _ len]) simp
  moreover have "hmem h (hnext h) = None" "hmem h (Suc (hnext h)) = None"
    using h(1) by (auto simp: ready_def heap_ok_def)
  then have "grows h r ?h' ?r' (t @ nul_pad u)"
    using h pn u p len ok by (auto simp: grows_def ready_def str_is_def heap_ok_def)
  ultimately show ?thesis by blast
qed

lemma print_and_append_grows:
  assumes "ready h" and "str_is h r t" and "no_nul tx" and "length tx \<le> 215"
    and "int (length t + length tx) < INT_MAX"
  shows "\<exists>r' h'. print_and_append tx r h = Inr (r', h') \<and> grows h r h' r' (t @ tx)"
proof -
  let ?b = "map (hjunk h (hnext h)) [0..<216] @ [NUL]"
  let ?b1 = "overwrite ?b 0 (tx @ [NUL])" and ?b2 = "overwrite (overwrite ?b 0 (tx @ [NUL])) (length tx) [NUL]"
  let ?h3 = "h\<lparr>hnext := Suc (hnext h), hmem := (hmem h)(hnext h \<mapsto> ?b2)\<rparr>"
  have n: "new_n_string TEMP_LEN h = Inr (\<lparr>slen = 216, sdata = Some (hnext h)\<rparr>, with_block h ?b)"
    using new_n_string_eq [of h 216] assms(1) by (simp add: ready_def TEMP_LEN_def INT_MAX_def)
  have s: "snprintf_bytes (nat TEMP_LEN) tx = tx @ [NUL]"
    using assms(4) by (simp add: snprintf_bytes_def TEMP_LEN_def)
  obtain x where x: "?b2 = tx @ NUL # x"
    using assms(4) by (simp add: overwrite_def)
  have pr: "print_and_append tx r h = rbind (append_string (Some r)
      (Some \<lparr>slen = int (length tx), sdata = Some (hnext h)\<rparr>) ?h3) (\<lambda>(ok, rp, h4). Inr (the rp, h4))"
    using assms(4) by (simp add: print_and_append_def n s store_at)
  obtain r' h' where "append_string (Some r) (Some \<lparr>slen = int (length tx), sdata = Some (hnext h)\<rparr>) ?h3
      = Inr (True, Some r', h')" "grows h r h' r' (t @ nul_pad tx)"
    using append_temp_grows [OF assms(1,2), of ?h3 tx x "\<lparr>slen = int (length tx), sdata = Some (hnext h)\<rparr>"]
      assms(1,5) x by (auto simp: ready_def)
  then show ?thesis using assms(3) by (auto simp: pr)
qed

text \<open>The text of one stored header, and when the temporary buffer has room for it.\<close>

definition header_text :: "header_t \<Rightarrow> char list" where
  "header_text hdr = header_value (cstr (h_key hdr)) (cstr (h_value hdr))"

definition header_fit :: "header_t \<Rightarrow> bool" where
  "header_fit hdr \<longleftrightarrow> NUL \<in> set (h_key hdr) \<and> NUL \<in> set (h_value hdr) \<and> length (header_text hdr) \<le> 215"

lemma no_nul_CRLF [simp]: "no_nul CRLF"
  by (simp add: CRLF_def NUL_def)

lemma length_CRLF [simp]: "length CRLF = 2"
  by (simp add: CRLF_def)

lemma no_nul_header_text [simp]: "no_nul (header_text hdr)"
  by (simp add: header_text_def header_value_def) (simp add: NUL_def)

interpretation header_builder: text_builder append_header header_text header_fit
proof
  fix p h r t
  assume *: "header_fit p" "ready h" "str_is h r t" "int (length t + length (header_text p)) < INT_MAX"
  have "append_header p r h = print_and_append (header_text p) r h"
    using *(1) by (simp add: append_header_def header_fit_def header_text_def cstring_def)
  then show "\<exists>r' h'. append_header p r h = Inr (r', h') \<and> grows h r h' r' (t @ header_text p)"
    using print_and_append_grows [OF *(2,3), of "header_text p"] * by (simp add: header_fit_def)
qed

section \<open>The serialised response\<close>

definition status_line :: "int \<Rightarrow> char list" where
  "status_line code = first_line code (get_status_code code)"

text \<open>A body that was set to a live string, or never set.\<close>

definition body_is :: "heap \<Rightarrow> string_t \<Rightarrow> char list \<Rightarrow> bool" where
  "body_is h s b \<longleftrightarrow> s = null_string \<and> b = [] \<or> str_is h s b"

lemma body_is_length: "body_is h s b \<Longrightarrow> int (length b) < INT_MAX"
  by (auto simp: body_is_def str_is_def INT_MAX_def)

lemma copy_body_eq:
  assumes "ready h" and "body_is h s b"
  shows "copy_string s h = Inr (\<lparr>slen = int (length b), sdata = Some (hnext h)\<rparr>, with_block h (b @ [NUL]))"
proof (cases "str_is h s b")
  case True
  then show ?thesis using copy_string_eq assms(1) by (simp add: ready_def)
next
  case False
  then have s: "s = null_string" "b = []" using assms(2) by (auto simp: body_is_def)
  have "new_n_string 0 h = Inr (\<lparr>slen = 0, sdata = Some (hnext h)\<rparr>, with_block h [NUL])"
    using new_n_string_eq [of h 0] assms(1) by (simp add: ready_def INT_MAX_def)
  then show ?thesis
    by (simp add: s copy_string_def null_string_def load_def store_at)
qed

lemma length_show_int:
  assumes "\<bar>c\<bar> \<le> INT_MAX"
  shows "length (show_int c) \<le> 11"
proof -
  have "nat c < 10 ^ 10" "nat (- c) < 10 ^ 10" using assms by (simp_all add: INT_MAX_def)
  then have "length (show_nat (nat c)) \<le> 10" "length (show_nat (nat (- c))) \<le> 10"
    by (simp_all add: length_show_nat)
  then show ?thesis by (simp add: show_int_def)
qed

lemma no_nul_show_int [simp]: "no_nul (show_int c)"
  by (simp add: show_int_def NUL_def)

lemma length_get_status_code: "length (get_status_code c) \<le> 21"
  by (simp add: get_status_code_def)

lemma no_nul_get_status_code [simp]: "no_nul (get_status_code c)"
  by (simp add: get_status_code_def NUL_def)

lemma no_nul_status_line [simp]: "no_nul (status_line c)"
  by (simp add: status_line_def first_line_def) (simp add: NUL_def)

lemma length_status_line: "\<bar>c\<bar> \<le> INT_MAX \<Longrightarrow> length (status_line c) \<le> 45"
  using length_show_int [of c] length_get_status_code [of c] by (simp add: status_line_def first_line_def)

text \<open>The first part of \<open>generate_response\<close>: the status line in a string of its own.\<close>

lemma status_line_string:
  assumes h: "ready h" and c: "\<bar>c\<bar> \<le> INT_MAX"
  defines "line \<equiv> status_line c"
  shows "\<exists>tmp h1 h2 h3 r0 h4 r1 h5. new_n_string TEMP_LEN h = Inr (tmp, h1)
     \<and> store (sdata tmp) 0 (snprintf_bytes (nat TEMP_LEN) line) h1 = Inr h2
     \<and> store (sdata tmp) (int (length line)) [NUL] h2 = Inr h3
     \<and> new_string (Some []) h3 = Inr (r0, h4)
     \<and> append_string (Some r0) (Some (tmp\<lparr>slen := int (length line)\<rparr>)) h4 = Inr (True, Some r1, h5)
     \<and> str_is h5 r1 line \<and> ready h5 \<and> hnext h \<le> the (sdata r1) \<and> hnext h \<le> hnext h5
     \<and> (\<forall>x. Some x \<noteq> sdata r1 \<longrightarrow> hmem h5 x = hmem h x)"
proof -
  let ?a = "hnext h"
  let ?b = "map (hjunk h ?a) [0..<216] @ [NUL]"
  let ?b2 = "overwrite (overwrite ?b 0 (line @ [NUL])) (length line) [NUL]"
  let ?tmp = "\<lparr>slen = 216, sdata = Some ?a\<rparr>" and ?t = "\<lparr>slen = int (length line), sdata = Some ?a\<rparr>"
  let ?h3 = "h\<lparr>hnext := Suc ?a, hmem := (hmem h)(?a \<mapsto> ?b2)\<rparr>"
  let ?h4 = "with_block ?h3 [NUL]" and ?r0 = "\<lparr>slen = 0, sdata = Some (Suc ?a)\<rparr>"
  let ?r1 = "\<lparr>slen = int (length line), sdata = Some (Suc (Suc ?a))\<rparr>"
  let ?h5 = "?h4\<lparr>hmem := (hmem ?h4)(Suc ?a := None, ?a := None, Suc (Suc ?a) \<mapsto> line @ [NUL]),
                hnext := Suc (Suc (Suc ?a))\<rparr>"
  have l: "length line \<le> 45" "no_nul line" using length_status_line [OF c] by (simp_all add: line_def)
  have f: "hmem h x = None" if "?a \<le> x" for x using h that by (simp add: ready_def heap_ok_def)
  obtain x where x: "?b2 = line @ NUL # x" using l(1) by (simp add: overwrite_def)
  have n: "new_n_string TEMP_LEN h = Inr (?tmp, with_block h ?b)"
    using new_n_string_eq [of h 216] h by (simp add: ready_def TEMP_LEN_def INT_MAX_def)
  have s: "snprintf_bytes (nat TEMP_LEN) line = line @ [NUL]"
    using l(1) by (simp add: snprintf_bytes_def TEMP_LEN_def)
  have r0: "new_string (Some []) ?h3 = Inr (?r0, ?h4)"
    using new_string_eq [of ?h3 "[]"] h by (simp add: ready_def INT_MAX_def)
  have h4: "no_fail ?h4" "heap_ok ?h4" using h by (auto simp: ready_def heap_ok_def)
  have "str_is ?h4 ?r0 []" by (simp add: str_is_def INT_MAX_def)
  moreover have "str_is ?h4 ?t line"
    using l(1) x by (intro str_isI [of _ ?a]) (simp_all add: INT_MAX_def)
  ultimately have "append_string (Some ?r0) (Some ?t) ?h4 = Inr (True, Some ?r1, ?h5)"
    using append_string_eq [OF h4, of ?r0 "[]" "Suc ?a" ?t line ?a] l by (simp add: INT_MAX_def)
  moreover have "str_is ?h5 ?r1 line" "ready ?h5"
    using l(1) h h4 by (auto simp: str_is_def INT_MAX_def ready_def heap_ok_def)
  moreover have "\<forall>x. Some x \<noteq> sdata ?r1 \<longrightarrow> hmem ?h5 x = hmem h x" using f by simp
  ultimately show ?thesis
    using n s r0 l(1) by (intro exI [of _ ?tmp] exI) (auto simp: store_at)
qed

text \<open>Everything but the string itself is as before.\<close>

definition only_new :: "heap \<Rightarrow> heap \<Rightarrow> string_t \<Rightarrow> bool" where
  "only_new h h' r \<longleftrightarrow> ready h' \<and> hnext h \<le> hnext h' \<and> hnext h \<le> the (sdata r)
     \<and> (\<forall>x. Some x \<noteq> sdata r \<longrightarrow> hmem h' x = hmem h x)"

lemma only_new_grows:
  assumes "only_new h h1 r1" and "grows h1 r1 h2 r2 t" and "ready h"
  shows "only_new h h2 r2"
proof -
  from assms(2) obtain p where p: "sdata r2 = Some p" "p < hnext h1 \<longrightarrow> sdata r1 = Some p"
    "\<forall>x. x \<noteq> p \<longrightarrow> hmem h2 x = (if sdata r1 = Some x then None else hmem h1 x)" "ready h2"
    "hnext h1 \<le> hnext h2" by (auto simp: grows_def)
  have o: "hnext h \<le> the (sdata r1)" "\<forall>x. Some x \<noteq> sdata r1 \<longrightarrow> hmem h1 x = hmem h x" "hnext h \<le> hnext h1"
    using assms(1) by (auto simp: only_new_def)
  have "hmem h2 x = hmem h x" if "x \<noteq> p" for x
  proof (cases "sdata r1 = Some x")
    case True
    then have "hmem h x = None" using o(1) assms(3) by (auto simp: ready_def heap_ok_def)
    then show ?thesis using p(3) that True by simp
  next
    case False
    then show ?thesis using p(3) that o(2) by simp
  qed
  moreover have "hnext h \<le> p" using p(2) o(1,3) by (cases "p < hnext h1") auto
  ultimately show ?thesis using p o(3) by (auto simp: only_new_def)
qed

lemma body_is_only_new:
  assumes "body_is h s b" and "only_new h h' r" and "ready h"
  shows "body_is h' s b"
proof (cases "str_is h s b")
  case True
  then obtain p x where p: "sdata s = Some p" "hmem h p = Some (b @ NUL # x)" by (auto elim: str_isE)
  then have "p < hnext h" using assms(3) by (auto simp: ready_def dest: heap_ok_used)
  then have "hmem h' p = hmem h p" using assms(2)
    by (cases "sdata r = Some p") (auto simp: only_new_def)
  then show ?thesis using p(1) True by (auto simp: body_is_def intro: str_is_cong)
next
  case False
  then show ?thesis using assms(1) by (auto simp: body_is_def)
qed

text \<open>The text of a response: status line, headers, an empty line, the body.\<close>

definition response_text :: "int \<Rightarrow> header_t list \<Rightarrow> char list \<Rightarrow> char list" where
  "response_text code hs b = status_line code @ concat (map header_text hs) @ CRLF @ nul_pad b"

lemma generate_response_ok:
  assumes h: "ready h" and c: "\<bar>p_status (resp ctx)\<bar> \<le> INT_MAX"
    and n: "p_header_count (resp ctx) \<le> length (p_headers (resp ctx))"
    and hs: "hs = take (p_header_count (resp ctx)) (p_headers (resp ctx))" "\<forall>hdr \<in> set hs. header_fit hdr"
    and b: "body_is h (p_body (resp ctx)) b"
    and len: "int (length (response_text (p_status (resp ctx)) hs b)) < INT_MAX"
  shows "\<exists>r h'. generate_response ctx h = Inr (r, h')
     \<and> str_is h' r (response_text (p_status (resp ctx)) hs b) \<and> only_new h h' r"
proof -
  let ?code = "p_status (resp ctx)"
  let ?line = "status_line ?code" and ?hs = "concat (map header_text hs)"
  have len': "int (length ?line + length ?hs) < INT_MAX" "int (length (?line @ ?hs)) + int (length CRLF) < INT_MAX"
    "int (length (?line @ ?hs @ CRLF)) + int (length b) < INT_MAX"
    using len by (simp_all add: response_text_def)
  from status_line_string [OF h c] obtain tmp h1 h2 h3 r0 h4 r1 h5 where
    1: "new_n_string TEMP_LEN h = Inr (tmp, h1)"
    "store (sdata tmp) 0 (snprintf_bytes (nat TEMP_LEN) ?line) h1 = Inr h2"
    "store (sdata tmp) (int (length ?line)) [NUL] h2 = Inr h3"
    "new_string (Some []) h3 = Inr (r0, h4)"
    "append_string (Some r0) (Some (tmp\<lparr>slen := int (length ?line)\<rparr>)) h4 = Inr (True, Some r1, h5)"
    and 2: "str_is h5 r1 ?line" "ready h5" "hnext h \<le> the (sdata r1)" "hnext h \<le> hnext h5"
    "\<forall>x. Some x \<noteq> sdata r1 \<longrightarrow> hmem h5 x = hmem h x" by blast
  have o5: "only_new h h5 r1" using 2 by (simp add: only_new_def)
  obtain r2 h6 where 6: "emit_all append_header hs r1 h5 = Inr (r2, h6)" "grows h5 r1 h6 r2 (?line @ ?hs)"
    using header_builder.emit_all_grows [OF hs(2) 2(2,1) len'(1)] by blast
  have g6: "ready h6" "str_is h6 r2 (?line @ ?hs)" using 6(2) by (simp_all add: grows_def)
  let ?s = "\<lparr>slen = 2, sdata = Some (hnext h6)\<rparr>"
  have s: "new_string (Some CRLF) h6 = Inr (?s, with_block h6 (CRLF @ [NUL]))"
    using new_string_eq [of h6 CRLF] g6(1) by (simp add: ready_def INT_MAX_def)
  have "no_fail (with_block h6 (CRLF @ [NUL]))" using g6(1) by (simp add: ready_def)
  then obtain r3 h8 where 8: "append_string (Some r2) (Some ?s) (with_block h6 (CRLF @ [NUL])) = Inr (True, Some r3, h8)"
    "grows h6 r2 h8 r3 ((?line @ ?hs) @ CRLF)"
    using append_temp_grows [OF g6, of "with_block h6 (CRLF @ [NUL])" CRLF "[]" ?s] len'(2) by auto
  have g8: "ready h8" "str_is h8 r3 ((?line @ ?hs) @ CRLF)" using 8(2) by (simp_all add: grows_def)
  have o8: "only_new h h8 r3" by (rule only_new_grows [OF only_new_grows [OF o5 6(2) h] 8(2) h])
  let ?b = "\<lparr>slen = int (length b), sdata = Some (hnext h8)\<rparr>"
  have cp: "copy_string (p_body (resp ctx)) h8 = Inr (?b, with_block h8 (b @ [NUL]))"
    by (rule copy_body_eq [OF g8(1) body_is_only_new [OF b o8 h]])
  have "no_fail (with_block h8 (b @ [NUL]))" using g8(1) by (simp add: ready_def)
  then obtain r4 h10 where 10: "append_string (Some r3) (Some ?b) (with_block h8 (b @ [NUL])) = Inr (True, Some r4, h10)"
    "grows h8 r3 h10 r4 (((?line @ ?hs) @ CRLF) @ nul_pad b)"
    using append_temp_grows [OF g8, of "with_block h8 (b @ [NUL])" b "[]" ?b] len'(3) by auto
  have "generate_response ctx h = Inr (r4, h10)"
    using 1 6(1) s 8(1) cp 10(1) n hs(1)
    by (simp add: generate_response_def Let_def status_line_def [symmetric])
  moreover have "str_is h10 r4 (response_text ?code hs b)"
    using 10(2) by (simp add: grows_def response_text_def)
  ultimately show ?thesis using only_new_grows [OF o8 10(2) h] by blast
qed

section \<open>Setting headers\<close>

text \<open>A header stored in a cleared slot, and a response that has exactly the given headers.\<close>

definition slot :: "char list \<times> char list \<Rightarrow> header_t" where
  "slot kv = \<lparr>h_key = fst kv @ zeros (128 - length (fst kv)), h_value = snd kv @ zeros (128 - length (snd kv))\<rparr>"

definition has_headers :: "response_ctx_t \<Rightarrow> (char list \<times> char list) list \<Rightarrow> bool" where
  "has_headers ctx hs \<longleftrightarrow> p_header_count (resp ctx) = length hs
     \<and> p_headers (resp ctx) = map slot hs @ replicate (128 - length hs) zero_header \<and> length hs \<le> 128"

definition small_header :: "char list \<times> char list \<Rightarrow> bool" where
  "small_header kv \<longleftrightarrow> no_nul (fst kv) \<and> no_nul (snd kv) \<and> length (fst kv) < 128 \<and> length (snd kv) < 128
     \<and> length (fst kv) + length (snd kv) \<le> 211"

lemma zero_header_slot: "zero_header = slot ([], [])"
  by (simp add: zero_header_def slot_def config_sizes)

lemma has_headers_init: "has_headers init_resp_ctx []"
  by (simp add: has_headers_def init_resp_ctx_def config_sizes)

lemma set_header_slot:
  assumes "has_headers ctx hs" and "length hs < 128" and "length k \<le> 128" and "length v \<le> 128"
  shows "\<exists>ctx'. set_header ctx k v = Inr ctx' \<and> has_headers ctx' (hs @ [(k, v)])
     \<and> p_body (resp ctx') = p_body (resp ctx) \<and> p_status (resp ctx') = p_status (resp ctx)
     \<and> complete_resp ctx' = complete_resp ctx"
proof -
  let ?n = "length hs" and ?rp = "resp ctx"
  have r: "replicate (128 - ?n) zero_header = zero_header # replicate (128 - Suc ?n) zero_header"
    using assms(2) by (metis Suc_diff_Suc replicate_Suc)
  have p: "p_headers ?rp = map slot hs @ zero_header # replicate (128 - Suc ?n) zero_header" "p_header_count ?rp = ?n"
    using assms(1) r by (simp_all add: has_headers_def)
  have z: "overwrite (zeros 128) 0 k = k @ zeros (128 - length k)" "overwrite (zeros 128) 0 v = v @ zeros (128 - length v)"
    using assms(3,4) by (simp_all add: overwrite_zeros)
  have "set_header ctx k v = Inr (ctx\<lparr>resp := ?rp\<lparr>p_headers := map slot hs @ slot (k, v) # replicate (128 - Suc ?n) zero_header,
      p_header_count := Suc ?n\<rparr>\<rparr>)"
    using assms(3,4) z by (simp add: set_header_def Let_def p nth_append list_update_append zero_header_def
        config_sizes slot_def)
  then show ?thesis using assms(2) by (auto simp: has_headers_def)
qed

lemma set_header_full:
  assumes "has_headers ctx hs" and "length hs = 128"
  shows "set_header ctx k v = Inl OutOfBounds"
  using assms by (simp add: has_headers_def set_header_def Let_def arr_get_def)

lemma NUL_in_zeros [simp]: "NUL \<in> set (zeros n) \<longleftrightarrow> 0 < n"
  by (auto simp: zeros_def)

lemma small_header_fit: "small_header kv \<Longrightarrow> header_fit (slot kv) \<and> header_text (slot kv) = header_value (fst kv) (snd kv)"
  by (cases kv) (auto simp: small_header_def header_fit_def header_text_def header_value_def slot_def)

lemma has_headers_take: "has_headers ctx hs \<Longrightarrow> take (p_header_count (resp ctx)) (p_headers (resp ctx)) = map slot hs"
  by (simp add: has_headers_def)

text \<open>The text of a response whose headers were set one by one.\<close>

definition wire :: "int \<Rightarrow> (char list \<times> char list) list \<Rightarrow> char list \<Rightarrow> char list" where
  "wire code hs b = status_line code @ concat (map (\<lambda>(k, v). header_value k v) hs) @ CRLF @ nul_pad b"

lemma response_text_wire:
  assumes "\<forall>kv \<in> set hs. small_header kv"
  shows "response_text code (map slot hs) b = wire code hs b"
proof -
  have "map (header_text \<circ> slot) hs = map (\<lambda>(k, v). header_value k v) hs"
    using assms small_header_fit by (auto simp: case_prod_unfold)
  then show ?thesis by (simp only: response_text_def wire_def map_map)
qed

lemma generate_wire:
  assumes "ready h" and "\<bar>p_status (resp ctx)\<bar> \<le> INT_MAX" and "has_headers ctx hs"
    and "\<forall>kv \<in> set hs. small_header kv" and "body_is h (p_body (resp ctx)) b"
    and "int (length (wire (p_status (resp ctx)) hs b)) < INT_MAX"
  shows "\<exists>r h'. generate_response ctx h = Inr (r, h')
     \<and> str_is h' r (wire (p_status (resp ctx)) hs b) \<and> only_new h h' r"
proof -
  have n: "p_header_count (resp ctx) \<le> length (p_headers (resp ctx))"
    using assms(3) by (simp add: has_headers_def)
  have f: "\<forall>hdr \<in> set (map slot hs). header_fit hdr" using assms(4) small_header_fit by auto
  show ?thesis
    using generate_response_ok [OF assms(1,2) n has_headers_take [OF assms(3), symmetric] f assms(5)] assms(6)
    by (simp add: response_text_wire [OF assms(4)])
qed

section \<open>Header lines that are too long\<close>

lemma emit_all_append:
  "emit_all e (ps @ qs) r h = rbind (emit_all e ps r h) (\<lambda>(r', h'). emit_all e qs r' h')"
  by (induction ps arbitrary: r h) (auto simp: rbind_def split: sum.splits)

text \<open>A header line that does not fit the temporary string of 217 bytes.\<close>

lemma append_header_long:
  assumes "ready h" and "NUL \<in> set (h_key hdr)" and "NUL \<in> set (h_value hdr)" and "216 < length (header_text hdr)"
  shows "append_header hdr r h = Inl OutOfBounds"
proof -
  have n: "new_n_string TEMP_LEN h = Inr (\<lparr>slen = 216, sdata = Some (hnext h)\<rparr>,
      with_block h (map (hjunk h (hnext h)) [0..<216] @ [NUL]))"
    using new_n_string_eq [of h 216] assms(1) by (simp add: ready_def TEMP_LEN_def INT_MAX_def)
  have l: "length (snprintf_bytes (nat TEMP_LEN) (header_text hdr)) = 216"
    using assms(4) by (simp add: snprintf_bytes_def TEMP_LEN_def)
  have "print_and_append (header_text hdr) r h = Inl OutOfBounds"
    using assms(4) l by (simp add: print_and_append_def n store_at) (simp add: store_def block_def arr_write_def)
  then show ?thesis using assms(2,3) by (simp add: append_header_def cstring_def header_text_def)
qed

lemma generate_response_faults:
  assumes h: "ready h" and c: "\<bar>p_status (resp ctx)\<bar> \<le> INT_MAX"
    and hs: "take (p_header_count (resp ctx)) (p_headers (resp ctx)) = xs @ y # ys"
    and xs: "\<forall>x \<in> set xs. header_fit x" "int (length (status_line (p_status (resp ctx)) @ concat (map header_text xs))) < INT_MAX"
    and y: "\<And>r h. ready h \<Longrightarrow> append_header y r h = Inl e"
  shows "generate_response ctx h = Inl e"
proof -
  let ?line = "status_line (p_status (resp ctx))"
  from status_line_string [OF h c] obtain tmp h1 h2 h3 r0 h4 r1 h5 where
    1: "new_n_string TEMP_LEN h = Inr (tmp, h1)"
    "store (sdata tmp) 0 (snprintf_bytes (nat TEMP_LEN) ?line) h1 = Inr h2"
    "store (sdata tmp) (int (length ?line)) [NUL] h2 = Inr h3"
    "new_string (Some []) h3 = Inr (r0, h4)"
    "append_string (Some r0) (Some (tmp\<lparr>slen := int (length ?line)\<rparr>)) h4 = Inr (True, Some r1, h5)"
    "str_is h5 r1 ?line" "ready h5" by blast
  have "int (length ?line + length (concat (map header_text xs))) < INT_MAX" using xs(2) by simp
  from header_builder.emit_all_grows [OF xs(1) 1(7,6) this] obtain r2 h6 where
    6: "emit_all append_header xs r1 h5 = Inr (r2, h6)" "grows h5 r1 h6 r2 (?line @ concat (map header_text xs))" by blast
  then have "ready h6" by (simp add: grows_def)
  from y [OF this] have "append_header y r2 h6 = Inl e" .
  then show ?thesis
    using 1 6(1) by (simp add: generate_response_def Let_def status_line_def [symmetric] hs emit_all_append)
qed

section \<open>Properties\<close>

definition response0 :: "int \<Rightarrow> response_ctx_t" where
  "response0 code = init_resp_ctx\<lparr>resp := (resp init_resp_ctx)\<lparr>p_status := code\<rparr>\<rparr>"

lemma ready_heap0: "ready heap0"
  by (simp add: heap0_def ready_def no_fail_def heap_ok_def)

text \<open>C15: The bytes sent: with memory available, a response with a status code, headers that were set
  one by one (each at most 211 characters, name and value together) and a body serialises to the
  status line, the header lines in order, an empty line and the body, of which only the part
  before its first NUL byte survives (the rest is sent as zeros); every temporary string is freed
  and nothing else in the heap changes.\<close>

theorem generate_response_text:
  assumes "ready h" and "\<bar>p_status (resp ctx)\<bar> \<le> INT_MAX" and "has_headers ctx hs"
    and "\<forall>kv \<in> set hs. small_header kv" and "body_is h (p_body (resp ctx)) b"
    and "int (length (wire (p_status (resp ctx)) hs b)) < INT_MAX"
  shows "\<exists>r h'. generate_response ctx h = Inr (r, h')
     \<and> str_is h' r (status_line (p_status (resp ctx)) @ concat (map (\<lambda>(k, v). k @ '': '' @ v @ CRLF) hs) @ CRLF
                     @ cstr b @ zeros (length b - length (cstr b)))
     \<and> dom (hmem h') = insert (the (sdata r)) (dom (hmem h)) \<and> (\<forall>x \<in> dom (hmem h). hmem h' x = hmem h x)"
proof -
  from generate_wire [OF assms] obtain r h' where
    1: "generate_response ctx h = Inr (r, h')" "str_is h' r (wire (p_status (resp ctx)) hs b)" "only_new h h' r"
    by blast
  then obtain p x where p: "sdata r = Some p" "hmem h' p = Some x" "hnext h \<le> p"
    "\<forall>x. x \<noteq> p \<longrightarrow> hmem h' x = hmem h x" by (auto simp: only_new_def elim!: str_isE)
  have np: "p \<notin> dom (hmem h)" using p(3) assms(1) by (auto simp: ready_def heap_ok_def)
  have "nul_pad b = cstr b @ zeros (length b - length (cstr b))"
    using length_cstr_le [of b] by (simp add: nul_pad_def strncpy_bytes_def Let_def zeros_def)
  then have "wire (p_status (resp ctx)) hs b = status_line (p_status (resp ctx))
      @ concat (map (\<lambda>(k, v). k @ '': '' @ v @ CRLF) hs) @ CRLF @ cstr b @ zeros (length b - length (cstr b))"
    by (simp add: wire_def header_value_def)
  moreover have "dom (hmem h') = insert p (dom (hmem h))" using p(2,4) by (auto simp: dom_def)
  moreover have "\<forall>x \<in> dom (hmem h). hmem h' x = hmem h x" using p(4) np by auto
  ultimately show ?thesis using 1 p(1) by auto
qed

theorem generate_response_text_witness:
  "\<exists>ctx r h'. set_header (response0 200) ''Server'' ''ccybe'' = Inr ctx \<and> generate_response ctx heap0 = Inr (r, h')
     \<and> str_is h' r (''HTTP/1.1 200 OK'' @ CRLF @ ''Server: ccybe'' @ CRLF @ CRLF) \<and> dom (hmem h') = {the (sdata r)}"
proof -
  have i: "has_headers (response0 200) []" "p_body (resp (response0 200)) = null_string" "p_status (resp (response0 200)) = 200"
    using has_headers_init by (simp_all add: has_headers_def response0_def init_resp_ctx_def)
  from set_header_slot [OF i(1), of "''Server''" "''ccybe''"] obtain ctx where
    c: "set_header (response0 200) ''Server'' ''ccybe'' = Inr ctx" "has_headers ctx [(''Server'', ''ccybe'')]"
    "p_body (resp ctx) = null_string" "p_status (resp ctx) = 200" using i(2,3) by auto
  have s: "\<forall>kv \<in> set [(''Server'', ''ccybe'')]. small_header kv" by (simp add: small_header_def NUL_def)
  have b: "body_is heap0 (p_body (resp ctx)) []" by (simp add: body_is_def c(3))
  have sh: "show_int 200 = ''200''" by code_simp
  have l: "status_line 200 = ''HTTP/1.1 200 OK'' @ CRLF"
    by (simp add: status_line_def first_line_def get_status_code_def status_codes sh)
  have "int (length (wire 200 [(''Server'', ''ccybe'')] [])) < INT_MAX"
    by (simp add: wire_def l header_value_def INT_MAX_def)
  from generate_response_text [OF ready_heap0 _ c(2) s b] this c(1,4) l show ?thesis
    by (auto simp: INT_MAX_def cstr_def zeros_def) (simp add: heap0_def)
qed

lemma length_concat_le:
  "(\<And>x. x \<in> set (map slot hs) \<Longrightarrow> length (header_text x) \<le> n) \<Longrightarrow>
     length (concat (map header_text (map slot hs))) \<le> n * length hs"
proof (induction hs)
  case (Cons a hs)
  have "length (header_text (slot a)) \<le> n" using Cons.prems by simp
  moreover have "length (concat (map header_text (map slot hs))) \<le> n * length hs" using Cons by simp
  ultimately show ?case by simp
qed simp

text \<open>The bound on header lines: a response may have any header whose name and value fit their
  128-byte arrays, but when \<open>name: value\<close> and the line end take more than 216 characters,
  \<open>generate_response\<close> writes behind its temporary string, because \<open>snprintf\<close> returns the untruncated
  length.\<close>

theorem generate_response_long_header:
  assumes "ready h" and "\<bar>p_status (resp ctx)\<bar> \<le> INT_MAX" and "has_headers ctx (hs @ (k, v) # gs)"
    and "\<forall>kv \<in> set hs. small_header kv" and "no_nul k" "no_nul v" "length k < 128" "length v < 128"
    and "216 < length (k @ '': '' @ v @ CRLF)"
  shows "generate_response ctx h = Inl OutOfBounds"
proof -
  let ?c = "p_status (resp ctx)"
  have t: "take (p_header_count (resp ctx)) (p_headers (resp ctx)) = map slot hs @ slot (k, v) # map slot gs"
    using has_headers_take [OF assms(3)] by simp
  have f: "\<forall>x \<in> set (map slot hs). header_fit x" using assms(4) small_header_fit by auto
  have lh: "length (header_text x) \<le> 215" if "x \<in> set (map slot hs)" for x
    using f that by (auto simp: header_fit_def)
  have "length (concat (map header_text (map slot hs))) \<le> 215 * length hs"
    using lh by (rule length_concat_le)
  moreover have "length hs \<le> 128" using assms(3) by (simp add: has_headers_def)
  ultimately have l: "int (length (status_line ?c @ concat (map header_text (map slot hs)))) < INT_MAX"
    using length_status_line [OF assms(2)] by (simp add: INT_MAX_def)
  have "header_text (slot (k, v)) = k @ '': '' @ v @ CRLF"
    using assms(5,6) by (simp add: header_text_def header_value_def slot_def)
  then have y: "append_header (slot (k, v)) r h = Inl OutOfBounds" if "ready h" for r h
    using assms(7-9) that by (intro append_header_long) (simp_all add: slot_def)
  show ?thesis by (rule generate_response_faults [OF assms(1,2) t f l y])
qed

theorem generate_response_long_header_witness:
  "\<exists>ctx. set_header (response0 200) ''X'' (replicate 127 (CHR ''y'')) = Inr ctx
     \<and> (\<exists>ctx'. set_header ctx (replicate 100 (CHR ''k'')) (replicate 127 (CHR ''y'')) = Inr ctx'
           \<and> generate_response ctx' heap0 = Inl OutOfBounds)"
proof -
  let ?y = "replicate 127 (CHR ''y'')" and ?k = "replicate 100 (CHR ''k'')"
  have i: "has_headers (response0 200) []" "p_status (resp (response0 200)) = 200"
    using has_headers_init by (simp_all add: has_headers_def response0_def init_resp_ctx_def)
  from set_header_slot [OF i(1), of "''X''" ?y] obtain ctx where
    1: "set_header (response0 200) ''X'' ?y = Inr ctx" "has_headers ctx [(''X'', ?y)]" "p_status (resp ctx) = 200"
    using i(2) by auto
  from set_header_slot [OF 1(2), of ?k ?y] obtain ctx' where
    2: "set_header ctx ?k ?y = Inr ctx'" "has_headers ctx' ([(''X'', ?y)] @ (?k, ?y) # [])" "p_status (resp ctx') = 200"
    using 1(3) by auto
  have n: "no_nul (replicate n (CHR ''y''))" "no_nul (replicate n (CHR ''k''))" for n
    by (auto simp: no_nul_def NUL_def)
  have "generate_response ctx' heap0 = Inl OutOfBounds"
    by (rule generate_response_long_header [OF ready_heap0 _ 2(2)])
      (use n 2(3) in \<open>simp_all add: small_header_def INT_MAX_def NUL_def\<close>)
  with 1(1) 2(1) show ?thesis by blast
qed

end
