(* ===== verification/Mime.thy ===== *)
theory Mime
  imports Prelude
begin

text \<open>
  The file extension recogniser \<open>get_mime\<close> of \<^verbatim>\<open>src/mime.c\<close>: it collects the characters after the
  last dot backwards into an array of ten, reverses them in place and compares.  All array accesses
  are bounds-checked in the model.
\<close>

section \<open>The code\<close>

text \<open>The anonymous enumeration of \<^verbatim>\<open>mime.h\<close>, with its C values.\<close>

definition JS :: int where "JS = 0"
definition HTML :: int where "HTML = 1"
definition CSS :: int where "CSS = 2"
definition PNG :: int where "PNG = 3"

lemmas mime_ids = JS_def HTML_def CSS_def PNG_def

definition EXT_SIZE :: nat where
  "EXT_SIZE = 10"

text \<open>The first loop; the second argument is \<open>i + 1\<close>.\<close>

fun ext_loop :: "char list \<Rightarrow> nat \<Rightarrow> char list \<Rightarrow> nat \<Rightarrow> (char list \<times> nat) res" where
  "ext_loop path 0 ext ext_len = Inr (ext, ext_len)"
| "ext_loop path (Suc i) ext ext_len =
     (if path ! i = CHR ''.'' then Inr (ext, ext_len)
      else rbind (arr_put ext ext_len (path ! i)) (\<lambda>ext'. ext_loop path i ext' (ext_len + 1)))"

text \<open>The second loop reverses the first \<open>ext_len\<close> characters in place.\<close>

function swap_loop :: "nat \<Rightarrow> nat \<Rightarrow> char list \<Rightarrow> char list res" where
  "swap_loop ext_len i ext =
     (if i < ext_len div 2 then
        rbind (arr_get ext i) (\<lambda>x.
        rbind (arr_get ext (ext_len - i - 1)) (\<lambda>y.
        rbind (arr_put ext i y) (\<lambda>ext1.
        rbind (arr_put ext1 (ext_len - i - 1) x) (\<lambda>ext2.
        swap_loop ext_len (i + 1) ext2))))
      else Inr ext)"
  by pat_completeness auto
termination by (relation "measure (\<lambda>(n, i, _). n div 2 - i)") auto

declare swap_loop.simps [simp del]

text \<open>\<open>ext0\<close> is the indeterminate content of the local array.\<close>

definition get_mime :: "char list \<Rightarrow> char list \<Rightarrow> int res" where
  "get_mime ext0 path =
     rbind (ext_loop path (length path) ext0 0) (\<lambda>(ext, ext_len).
     rbind (swap_loop ext_len 0 ext) (\<lambda>ext1.
     rbind (arr_put ext1 ext_len NUL) (\<lambda>ext2.
     rbind (cstring ext2) (\<lambda>e.
     Inr (if strcaseeq e ''js'' then JS
          else if strcaseeq e ''css'' then CSS
          else if strcaseeq e ''html'' then HTML
          else if strcaseeq e ''png'' then PNG
          else -1)))))"

section \<open>Lemmas\<close>

text \<open>What comes after the last dot: the whole path when there is none.\<close>

definition extension :: "char list \<Rightarrow> char list" where
  "extension path = rev (takeWhile (\<lambda>c. c \<noteq> CHR ''.'') (rev path))"

lemma extension_dot: "CHR ''.'' \<notin> set e \<Longrightarrow> extension (s @ CHR ''.'' # e) = e"
  by (simp add: extension_def takeWhile_append)

lemma take_Suc_rev: "i < length p \<Longrightarrow> rev (take (Suc i) p) = p ! i # rev (take i p)"
  by (simp add: take_Suc_conv_app_nth)

lemma ext_loop_eq:
  "i \<le> length p \<Longrightarrow> k \<le> length ext \<Longrightarrow> ext_loop p i ext k =
     (let w = takeWhile (\<lambda>c. c \<noteq> CHR ''.'') (rev (take i p))
      in if k + length w \<le> length ext then Inr (overwrite ext k w, k + length w) else Inl OutOfBounds)"
proof (induction i arbitrary: ext k)
  case 0
  then show ?case by simp
next
  case (Suc i)
  then show ?case
    by (cases "k < length ext") (auto simp: take_Suc_rev Let_def arr_put_def overwrite_Cons)
qed

lemma swap_loop_nth:
  assumes "n \<le> length xs" and "i \<le> n div 2"
  shows "\<exists>ys. swap_loop n i xs = Inr ys \<and> length ys = length xs
     \<and> (\<forall>j < length xs. ys ! j = (if i \<le> j \<and> j < n - i then xs ! (n - 1 - j) else xs ! j))"
  using assms
proof (induction "n div 2 - i" arbitrary: i xs)
  case 0
  then have "i = n div 2" by simp
  moreover have "xs ! (n - 1 - j) = xs ! j" if "n div 2 \<le> j" "j < n - n div 2" for j
  proof -
    have "n = 2 * (n div 2) \<or> n = 2 * (n div 2) + 1" by (cases "even n") auto
    then have "n - 1 - j = j" using that by (elim disjE) linarith+
    then show ?thesis by simp
  qed
  ultimately show ?case by (subst swap_loop.simps) auto
next
  case (Suc d)
  let ?xs = "xs[i := xs ! (n - i - 1), n - i - 1 := xs ! i]"
  have i: "i < n div 2" "n - i - 1 < length xs" "i < length xs" using Suc by auto
  have s: "swap_loop n i xs = swap_loop n (Suc i) ?xs"
    using i by (subst swap_loop.simps) simp
  have d: "d = n div 2 - Suc i" "n \<le> length ?xs" "Suc i \<le> n div 2" using Suc.hyps(2) Suc.prems i by auto
  from Suc.hyps(1) [OF d] obtain ys where ys: "swap_loop n (Suc i) ?xs = Inr ys" "length ys = length xs"
    "\<forall>j < length xs. ys ! j = (if Suc i \<le> j \<and> j < n - Suc i then ?xs ! (n - 1 - j) else ?xs ! j)"
    by (auto simp only: length_list_update)
  have n: "2 * i + 2 \<le> n" using i(1) by linarith
  have "ys ! j = (if i \<le> j \<and> j < n - i then xs ! (n - 1 - j) else xs ! j)" if j: "j < length xs" for j
  proof (cases "j = i \<or> j = n - i - 1")
    case True
    then show ?thesis using ys(3) [rule_format, OF j] i(2,3) n by auto
  next
    case False
    then have "i \<le> j \<and> j < n - i \<longleftrightarrow> Suc i \<le> j \<and> j < n - Suc i"
      "n - 1 - j \<noteq> i \<or> n \<le> j" "n - 1 - j \<noteq> n - i - 1 \<or> n \<le> j" using n by linarith+
    then show ?thesis using ys(3) [rule_format, OF j] False by auto
  qed
  with s ys show ?case by auto
qed

text \<open>Reversing the collected characters in place.\<close>

lemma swap_loop_rev:
  assumes "length w \<le> length ext"
  shows "swap_loop (length w) 0 (overwrite ext 0 w) = Inr (overwrite ext 0 (rev w))"
proof -
  let ?o = "overwrite ext 0 w"
  obtain ys where ys: "swap_loop (length w) 0 ?o = Inr ys" "length ys = length ext"
    "\<forall>j < length ext. ys ! j = (if j < length w then ?o ! (length w - 1 - j) else ?o ! j)"
    using swap_loop_nth [of "length w" ?o 0] assms by auto
  have "ys = overwrite ext 0 (rev w)"
    using ys(2,3) assms by (intro nth_equalityI) (auto simp: overwrite_def nth_append rev_nth)
  with ys(1) show ?thesis by simp
qed

text \<open>The type of an extension.\<close>

definition mime_class :: "char list \<Rightarrow> int" where
  "mime_class e = (if strcaseeq e ''js'' then JS else if strcaseeq e ''css'' then CSS
     else if strcaseeq e ''html'' then HTML else if strcaseeq e ''png'' then PNG else -1)"

lemma length_extension: "length (takeWhile (\<lambda>c. c \<noteq> CHR ''.'') (rev p)) = length (extension p)"
  by (simp add: extension_def)

lemma no_nul_extension: "no_nul p \<Longrightarrow> no_nul (extension p)"
  by (auto simp: extension_def no_nul_def dest: set_takeWhileD)

lemma get_mime_class:
  assumes "no_nul path" and "length ext0 = EXT_SIZE"
  shows "get_mime ext0 path =
     (if length (extension path) < EXT_SIZE then Inr (mime_class (extension path)) else Inl OutOfBounds)"
proof -
  let ?w = "takeWhile (\<lambda>c. c \<noteq> CHR ''.'') (rev path)" and ?e = "extension path"
  have w: "rev ?w = ?e" "length ?w = length ?e" by (simp_all add: extension_def)
  have l: "ext_loop path (length path) ext0 0 =
      (if length ?e \<le> EXT_SIZE then Inr (overwrite ext0 0 ?w, length ?w) else Inl OutOfBounds)"
    using ext_loop_eq [of "length path" path 0 ext0] assms(2) w(2) by (simp add: Let_def)
  have s: "swap_loop (length ?w) 0 (overwrite ext0 0 ?w) = Inr (overwrite ext0 0 ?e)" if "length ?e \<le> EXT_SIZE"
    using swap_loop_rev [of ?w ext0] that assms(2) w by simp
  have p: "(overwrite ext0 0 ?e)[length ?e := NUL] = ?e @ NUL # drop (length ?e + 1) ext0"
    if "length ?e < EXT_SIZE"
    using that assms(2) by (simp add: overwrite_def list_update_append Cons_nth_drop_Suc [symmetric])
  show ?thesis
    using l s p w(2) assms(2) no_nul_extension [OF assms(1)]
    by (auto simp: get_mime_def mime_class_def arr_put_def)
qed

section \<open>Properties\<close>

text \<open>C39: \<open>get_mime\<close> classifies a path by the characters after its last dot, without regard to case,
  whatever the local array contained before, as long as there are fewer than ten of them; with ten
  or more the array is overrun.\<close>

theorem get_mime_spec:
  assumes "no_nul path" and "length ext0 = EXT_SIZE"
  shows "get_mime ext0 path =
     (if length (extension path) < EXT_SIZE then Inr (mime_class (extension path)) else Inl OutOfBounds)"
  by (rule get_mime_class [OF assms])

theorem get_mime_spec_witness:
  "get_mime (replicate 10 (CHR ''?'')) ''./www/App.HTML'' = Inr HTML
   \<and> get_mime (replicate 10 (CHR ''?'')) ''./www/CONTRIBUTING'' = Inl OutOfBounds"
proof -
  have "no_nul ''./www/App.HTML''" "no_nul ''./www/CONTRIBUTING''"
    "extension ''./www/App.HTML'' = ''HTML''" "extension ''./www/CONTRIBUTING'' = ''/www/CONTRIBUTING''"
    "mime_class ''HTML'' = HTML"
    by code_simp+
  then show ?thesis
    using get_mime_spec [of "''./www/App.HTML''" "replicate 10 (CHR ''?'')"]
      get_mime_spec [of "''./www/CONTRIBUTING''" "replicate 10 (CHR ''?'')"]
    by (simp add: EXT_SIZE_def)
qed

text \<open>Every path of a regular file under \<open>./www\<close> whose name has no dot and is longer than five
  characters (the slash counted) overruns the array: the collected characters run back to the
  leading dot of \<open>./www\<close>.\<close>

theorem get_mime_no_extension_overruns:
  assumes "no_nul p" and "CHR ''.'' \<notin> set p" and "length ext0 = EXT_SIZE"
  shows "get_mime ext0 (''./www'' @ p) = Inl OutOfBounds \<longleftrightarrow> 6 \<le> length p"
proof -
  have "extension (''./www'' @ p) = ''/www'' @ p"
    using extension_dot [of "''/www'' @ p" "[]"] assms(2) by simp
  then show ?thesis
    using get_mime_class [of "''./www'' @ p" ext0] assms(1,3) by (simp add: EXT_SIZE_def NUL_def)
qed

theorem get_mime_no_extension_overruns_witness:
  "get_mime (replicate 10 (CHR ''?'')) ''./www/LICENSE'' = Inl OutOfBounds"
  using get_mime_no_extension_overruns [of "''/LICENSE''" "replicate 10 (CHR ''?'')"]
  by (simp add: EXT_SIZE_def NUL_def)

end
