(* ===== verification/Cnet.thy ===== *)
theory Cnet
  imports Prelude "HOL-Library.Word"
begin

unbundle bit_operations_syntax

text \<open>
  The socket layer of \<^verbatim>\<open>src/cnet.c\<close> and \<^verbatim>\<open>cnet.h\<close>: splitting an address such as
  \<open>127.0.0.1:8080\<close>, creating the listening socket, accepting and closing connections.  The system
  calls are parameters (\<open>net_env\<close>, \<open>accept\<close> results); everything the code does with their results
  is modelled, including which descriptors stay open.
\<close>

section \<open>Data\<close>

text \<open>\<open>addr_t\<close>: a port and a host array of 24 bytes.\<close>

record addr_t =
  a_port :: int
  a_host :: "char list"

text \<open>The part of \<open>sockaddr_in\<close> the code uses, in network byte order.\<close>

record sockaddr_in =
  sin_port :: "16 word"
  sin_addr :: "32 word"

record listener_t =
  ln_saddr :: sockaddr_in
  ln_addr :: addr_t
  ln_err :: int
  ln_fd :: int

record client_t =
  cl_fd :: int
  cl_addr :: sockaddr_in
  c_addr :: addr_t
  cl_err :: int

definition HOST_SIZE :: nat where
  "HOST_SIZE = 24"

text \<open>Byte order conversion of a port on a little-endian machine.\<close>

definition htons :: "16 word \<Rightarrow> 16 word" where
  "htons w = push_bit 8 w OR drop_bit 8 w"

definition ntohs :: "16 word \<Rightarrow> 16 word" where
  "ntohs w = push_bit 8 w OR drop_bit 8 w"

definition PROTOCOL_TCP :: int where "PROTOCOL_TCP = 0"
definition PROTOCOL_UDP :: int where "PROTOCOL_UDP = 1"

section \<open>The C library's atoi\<close>

definition c_isspace :: "char \<Rightarrow> bool" where
  "c_isspace c \<longleftrightarrow> c = CHR '' '' \<or> (9 \<le> (of_char c :: nat) \<and> (of_char c :: nat) \<le> 13)"

text \<open>White space, an optional sign, digits; a value outside \<open>int\<close> is undefined.\<close>

definition atoi :: "char list \<Rightarrow> int res" where
  "atoi s =
     (let t = dropWhile c_isspace s;
          (sg, ds) = (case t of c # r \<Rightarrow> if c = CHR ''-'' then (-1, r) else if c = CHR ''+'' then (1, r) else (1, t)
                      | [] \<Rightarrow> (1, []));
          v = sg * int (dec_value ds)
      in if - INT_MAX - 1 \<le> v \<and> v \<le> INT_MAX then Inr v else Inl IntOverflow)"

section \<open>The code\<close>

definition get_protocol_type :: "char list \<Rightarrow> int" where
  "get_protocol_type protocol =
     (if strcaseeq protocol ''tcp'' then PROTOCOL_TCP
      else if strcaseeq protocol ''udp'' then PROTOCOL_UDP
      else -1)"

text \<open>\<open>split_addr_port(addr, address)\<close>: the return value and the struct.\<close>

definition split_addr_port :: "addr_t option \<Rightarrow> char list option \<Rightarrow> (int \<times> addr_t option) res" where
  "split_addr_port ap sp =
     (case ap of None \<Rightarrow> Inr (-1, None)
      | Some a \<Rightarrow>
         (case sp of None \<Rightarrow> Inr (-1, Some a)
          | Some address \<Rightarrow>
              if CHR '':'' \<notin> set address then Inr (-1, Some a)
              else let colonAt = length (takeWhile (\<lambda>c. c \<noteq> CHR '':'') address) in
                rbind (arr_write (a_host a) 0 (strncpy_bytes address colonAt)) (\<lambda>h.
                rbind (arr_put h colonAt NUL) (\<lambda>h'.
                rbind (atoi (drop (colonAt + 1) address)) (\<lambda>v.
                Inr (0, Some (a\<lparr>a_host := h', a_port := v\<rparr>)))))))"

text \<open>What the system calls answer: \<open>socket\<close>, the two checked \<open>setsockopt\<close> calls, \<open>inet_pton\<close>
  (its return value, and the address it writes when that is 1), \<open>bind\<close>, \<open>listen\<close>.\<close>

record net_env =
  e_socket :: int
  e_reuse :: int
  e_nosigpipe :: int
  e_pton :: "char list \<Rightarrow> int \<times> 32 word"
  e_bind :: "sockaddr_in \<Rightarrow> int"
  e_listen :: int

definition INADDR_ANY :: "32 word" where
  "INADDR_ANY = 0"

text \<open>The tail of the function, once the address is known.\<close>

definition bind_and_listen :: "net_env \<Rightarrow> listener_t \<Rightarrow> listener_t" where
  "bind_and_listen env ln =
     (if e_bind env (ln_saddr ln) = -1 then ln\<lparr>ln_err := 5\<rparr>
      else if e_listen env = -1 then ln\<lparr>ln_err := 6\<rparr>
      else ln)"

definition tcp_create_and_listen_ipv4 :: "net_env \<Rightarrow> listener_t \<Rightarrow> listener_t res" where
  "tcp_create_and_listen_ipv4 env ln0 =
     (let ln = ln0\<lparr>ln_fd := e_socket env\<rparr> in
      if ln_fd ln < 0 then Inr (ln\<lparr>ln_err := 2\<rparr>)
      else if e_reuse env = -1 then Inr (ln\<lparr>ln_err := 3\<rparr>)
      else if e_nosigpipe env = -1 then Inr (ln\<lparr>ln_err := 3\<rparr>)
      else
        let addr = \<lparr>sin_port = htons (word_of_int (a_port (ln_addr ln))), sin_addr = 0\<rparr> in
        rbind (cstring (a_host (ln_addr ln))) (\<lambda>host.
        if host = [] then
          Inr (bind_and_listen env (ln\<lparr>ln_saddr := addr\<lparr>sin_addr := INADDR_ANY\<rparr>\<rparr>))
        else
          (case e_pton env host of (r, w) \<Rightarrow>
             if r = -1 then Inr (ln\<lparr>ln_err := 4\<rparr>)
             else Inr (bind_and_listen env
                   (ln\<lparr>ln_saddr := (if r = 1 then addr\<lparr>sin_addr := w\<rparr> else addr)\<rparr>)))))"

text \<open>\<open>s_listen(network, address)\<close>; \<open>ln0\<close> is the indeterminate content of the local struct.\<close>

definition s_listen :: "net_env \<Rightarrow> listener_t \<Rightarrow> char list \<Rightarrow> char list option \<Rightarrow> listener_t res" where
  "s_listen env ln0 network address =
     (let ln = ln0\<lparr>ln_err := 0, ln_fd := 0\<rparr> in
      rbind (split_addr_port (Some (ln_addr ln)) address) (\<lambda>(r, ap).
      let ln = ln\<lparr>ln_addr := (case ap of None \<Rightarrow> ln_addr ln | Some a \<Rightarrow> a), ln_err := r\<rparr> in
      if ln_err ln \<noteq> 0 then Inr ln
      else if get_protocol_type network = PROTOCOL_TCP then tcp_create_and_listen_ipv4 env ln
      else if get_protocol_type network = PROTOCOL_UDP then Inr ln
      else Inr (ln\<lparr>ln_err := 1\<rparr>)))"

text \<open>\<open>s_accept\<close>: \<open>fd\<close> and \<open>addr\<close> are what \<open>accept\<close> answers; \<open>c0\<close> is the indeterminate content of
  the local struct.\<close>

definition s_accept :: "client_t \<Rightarrow> int \<times> sockaddr_in \<Rightarrow> client_t" where
  "s_accept c0 r =
     (let conn = c0\<lparr>cl_err := 0, cl_fd := fst r\<rparr> in
      if cl_fd conn < 0 then conn\<lparr>cl_err := 1\<rparr> else conn\<lparr>cl_addr := snd r\<rparr>)"

definition s_read :: "client_t \<Rightarrow> char list \<Rightarrow> int" where
  "s_read client b = 0"

definition s_write :: "client_t \<Rightarrow> char list \<Rightarrow> int" where
  "s_write client b = 0"

text \<open>Descriptors are closed by removing them from the table of open ones; closing a descriptor
  that is not open has no effect on the others (\<open>EBADF\<close>).\<close>

type_synonym fds = "int list"

definition close_fd :: "int \<Rightarrow> fds \<Rightarrow> fds" where
  "close_fd n t = removeAll n t"

definition s_close :: "listener_t \<Rightarrow> fds \<Rightarrow> fds" where
  "s_close ln t = close_fd (ln_fd ln) t"

definition conn_close :: "client_t \<Rightarrow> fds \<Rightarrow> fds" where
  "conn_close client t = close_fd (cl_fd client) t"

section \<open>Lemmas\<close>

lemma ntohs_htons [simp]: "ntohs (htons w) = w"
  by (rule bit_word_eqI) (auto simp: ntohs_def htons_def bit_simps)

lemma atoi_show_nat:
  assumes "int n \<le> INT_MAX" and "r = [] \<or> \<not> is_digit (hd r)"
  shows "atoi (show_nat n @ r) = Inr (int n)"
proof -
  obtain c s where cs: "show_nat n = c # s" by (cases "show_nat n") auto
  have d: "is_digit c" using show_nat_digits [of n] cs by simp
  then have "\<not> c_isspace c" "c \<noteq> CHR ''-''" "c \<noteq> CHR ''+''"
    by (auto simp: is_digit_def c_isspace_def)
  then show ?thesis
    using cs dec_value_show_nat [OF assms(2), of n] assms(1)
    by (simp add: atoi_def Let_def INT_MAX_def)
qed

lemma strncpy_prefix: "no_nul h \<Longrightarrow> strncpy_bytes (h @ t) (length h) = h"
  by (rule strncpy_bytes_exact)

lemma split_addr_port_eq:
  assumes "no_nul h" and "CHR '':'' \<notin> set h" and "length (a_host a) = HOST_SIZE"
  shows "split_addr_port (Some a) (Some (h @ CHR '':'' # p)) =
     (if length h < HOST_SIZE
      then rbind (atoi p) (\<lambda>v. Inr (0, Some (a\<lparr>a_host := h @ NUL # drop (length h + 1) (a_host a), a_port := v\<rparr>)))
      else Inl OutOfBounds)"
proof -
  have t: "takeWhile (\<lambda>c. c \<noteq> CHR '':'') (h @ CHR '':'' # p) = h"
    using assms(2) by (induction h) auto
  have w: "(overwrite (a_host a) 0 h)[length h := NUL] = h @ NUL # drop (length h + 1) (a_host a)"
    if "length h < HOST_SIZE"
    using that assms(3) by (simp add: overwrite_def list_update_append Cons_nth_drop_Suc [symmetric])
  show ?thesis
    using assms(3) w
    by (auto simp: split_addr_port_def t strncpy_prefix [OF assms(1)] arr_write_def arr_put_def Let_def)
qed

section \<open>Properties\<close>

definition addr0 :: addr_t where
  "addr0 = \<lparr>a_port = 7, a_host = replicate 24 (CHR ''z'')\<rparr>"

definition listener0 :: listener_t where
  "listener0 = \<lparr>ln_saddr = \<lparr>sin_port = 0, sin_addr = 99\<rparr>, ln_addr = addr0, ln_err = 3, ln_fd = 8\<rparr>"

text \<open>All calls succeed, descriptor 3; only dotted quads starting with 1 are understood.\<close>

definition env0 :: net_env where
  "env0 = \<lparr>e_socket = 3, e_reuse = 0, e_nosigpipe = 0,
           e_pton = (\<lambda>s. if hd s = CHR ''1'' then (1, 0x0100007F) else (0, 0)),
           e_bind = (\<lambda>_. 0), e_listen = 0\<rparr>"

text \<open>Splitting an address: \<open>host:port\<close> with a port printed in decimal is taken apart again for
  every host without a colon that leaves room for its terminator in the 24-byte array and every
  port up to \<open>INT_MAX\<close>; a longer host overruns the array.\<close>

theorem split_addr_port_roundtrip:
  assumes "no_nul h" and "CHR '':'' \<notin> set h" and "length (a_host a) = HOST_SIZE" and "int n \<le> INT_MAX"
  shows "if length h < HOST_SIZE
         then \<exists>a'. split_addr_port (Some a) (Some (h @ CHR '':'' # show_nat n)) = Inr (0, Some a')
                \<and> cstring (a_host a') = Inr h \<and> a_port a' = int n
         else split_addr_port (Some a) (Some (h @ CHR '':'' # show_nat n)) = Inl OutOfBounds"
  using split_addr_port_eq [OF assms(1-3), of "show_nat n"] atoi_show_nat [OF assms(4), of "[]"] assms(1)
  by simp

theorem split_addr_port_roundtrip_witness:
  "\<exists>a'. split_addr_port (Some addr0) (Some (''127.0.0.1:'' @ show_nat 8080)) = Inr (0, Some a')
     \<and> cstring (a_host a') = Inr ''127.0.0.1'' \<and> a_port a' = 8080"
  using split_addr_port_roundtrip [of "''127.0.0.1''" addr0 8080]
  by (simp add: addr0_def HOST_SIZE_def INT_MAX_def NUL_def)

text \<open>The port a listener is bound to is the number in the address modulo 65536, since
  \<open>htons\<close> takes 16 bits: any larger port, such as the 65536 of the comment, listens on another
  port without an error.\<close>

theorem s_listen_port_wraps:
  assumes "no_nul h" and "CHR '':'' \<notin> set h" and "length h < HOST_SIZE"
    and "length (a_host (ln_addr ln0)) = HOST_SIZE" and "int n \<le> INT_MAX"
    and "s_listen env ln0 ''tcp'' (Some (h @ CHR '':'' # show_nat n)) = Inr ln" and "ln_err ln = 0"
  shows "unat (ntohs (sin_port (ln_saddr ln))) = n mod 65536"
proof -
  have "unat (word_of_nat n :: 16 word) = n mod 65536"
    by (simp add: unat_of_nat)
  then show ?thesis
    using assms split_addr_port_eq [OF assms(1,2,4), of "show_nat n"] atoi_show_nat [OF assms(5), of "[]"]
    by (auto simp: s_listen_def Let_def get_protocol_type_def PROTOCOL_TCP_def
        tcp_create_and_listen_ipv4_def bind_and_listen_def split: if_splits prod.splits)
qed

theorem s_listen_port_wraps_witness:
  "\<exists>ln. s_listen env0 listener0 ''tcp'' (Some (''127.0.0.1:'' @ show_nat 65536)) = Inr ln
      \<and> ln_err ln = 0 \<and> unat (ntohs (sin_port (ln_saddr ln))) = 0"
proof -
  have l: "length (a_host (ln_addr listener0)) = HOST_SIZE" "no_nul ''127.0.0.1''"
    by (simp_all add: listener0_def addr0_def HOST_SIZE_def NUL_def)
  have p: "atoi (show_nat 65536) = Inr 65536"
    using atoi_show_nat [of 65536 "[]"] by (simp add: INT_MAX_def)
  have sp: "split_addr_port (Some (ln_addr listener0)) (Some (''127.0.0.1'' @ CHR '':'' # show_nat 65536))
     = Inr (0, Some ((ln_addr listener0)\<lparr>a_host := ''127.0.0.1'' @ NUL # drop (length ''127.0.0.1'' + 1) (a_host (ln_addr listener0)),
         a_port := 65536\<rparr>))"
    using split_addr_port_eq [OF l(2) _ l(1), of "show_nat 65536"] p
    by (simp add: HOST_SIZE_def)
  obtain ln where ln: "s_listen env0 listener0 ''tcp'' (Some (''127.0.0.1'' @ CHR '':'' # show_nat 65536)) = Inr ln"
    "ln_err ln = 0"
    using sp cstring_terminated [OF l(2)]
    by (simp add: s_listen_def Let_def get_protocol_type_def PROTOCOL_TCP_def
        tcp_create_and_listen_ipv4_def bind_and_listen_def env0_def)
  have "unat (ntohs (sin_port (ln_saddr ln))) = 65536 mod 65536"
    by (rule s_listen_port_wraps [OF l(2) _ _ l(1) _ ln]) (simp_all add: HOST_SIZE_def INT_MAX_def)
  with ln show ?thesis by auto
qed

text \<open>The error code of a TCP listener names the failing call, and whatever goes wrong after
  \<open>socket\<close> the new descriptor is returned open in the struct, never closed by \<open>s_listen\<close>: the
  caller must do it.\<close>

theorem s_listen_error_codes:
  assumes "split_addr_port (Some (ln_addr ln0)) address = Inr (0, Some a)"
    and "cstring (a_host a) = Inr host"
  shows "\<exists>ln. s_listen env ln0 ''tcp'' address = Inr ln \<and> ln_fd ln = e_socket env
     \<and> (ln_err ln = 2 \<longleftrightarrow> e_socket env < 0)
     \<and> (ln_err ln = 3 \<longleftrightarrow> 0 \<le> e_socket env \<and> (e_reuse env = -1 \<or> e_nosigpipe env = -1))
     \<and> (ln_err ln = 4 \<longrightarrow> host \<noteq> [] \<and> fst (e_pton env host) = -1)
     \<and> (ln_err ln = 6 \<longrightarrow> e_listen env = -1)
     \<and> ln_err ln \<in> {0, 2, 3, 4, 5, 6}"
  using assms
  by (auto simp: s_listen_def Let_def get_protocol_type_def PROTOCOL_TCP_def
      tcp_create_and_listen_ipv4_def bind_and_listen_def split: prod.splits)

theorem s_listen_error_codes_witness:
  "\<exists>ln. s_listen (env0\<lparr>e_listen := -1\<rparr>) listener0 ''tcp'' (Some '':80'') = Inr ln \<and> ln_fd ln = 3"
proof -
  have l: "length (a_host (ln_addr listener0)) = HOST_SIZE"
    by (simp add: listener0_def addr0_def HOST_SIZE_def)
  have "show_nat 80 = ''80''" by code_simp
  then have p: "atoi ''80'' = Inr 80"
    using atoi_show_nat [of 80 "[]"] by (simp add: INT_MAX_def)
  have sp: "split_addr_port (Some (ln_addr listener0)) (Some '':80'')
     = Inr (0, Some ((ln_addr listener0)\<lparr>a_host := NUL # drop 1 (a_host (ln_addr listener0)), a_port := 80\<rparr>))"
    using split_addr_port_eq [of "[]" "ln_addr listener0" "''80''"] l p by (simp add: HOST_SIZE_def)
  then show ?thesis
    using s_listen_error_codes [OF sp, of "[]" "env0\<lparr>e_listen := -1\<rparr>"]
    by (auto simp: cstring_def cstr_def env0_def)
qed

text \<open>A host that \<open>inet_pton\<close> cannot parse (it then returns 0, and the code tests for -1 only)
  is not an error: the server listens on all interfaces instead of the one that was asked for.\<close>

theorem s_listen_bad_host_binds_any:
  assumes "split_addr_port (Some (ln_addr ln0)) address = Inr (0, Some a)"
    and "cstring (a_host a) = Inr host" and "host \<noteq> []" and "fst (e_pton env host) = 0"
    and "0 \<le> e_socket env" and "e_reuse env = 0" and "e_nosigpipe env = 0"
    and "\<forall>sa. e_bind env sa = 0" and "e_listen env = 0"
  shows "\<exists>ln. s_listen env ln0 ''tcp'' address = Inr ln \<and> ln_err ln = 0
     \<and> sin_addr (ln_saddr ln) = INADDR_ANY"
  using assms
  by (auto simp: s_listen_def Let_def get_protocol_type_def PROTOCOL_TCP_def
      tcp_create_and_listen_ipv4_def bind_and_listen_def INADDR_ANY_def split: prod.splits)

theorem s_listen_bad_host_binds_any_witness:
  "\<exists>ln. s_listen env0 listener0 ''tcp'' (Some (''localhost:'' @ show_nat 80)) = Inr ln \<and> ln_err ln = 0
     \<and> sin_addr (ln_saddr ln) = INADDR_ANY"
proof -
  have l: "length (a_host (ln_addr listener0)) = HOST_SIZE" "no_nul ''localhost''"
    by (simp_all add: listener0_def addr0_def HOST_SIZE_def NUL_def)
  have p: "atoi (show_nat 80) = Inr 80"
    using atoi_show_nat [of 80 "[]"] by (simp add: INT_MAX_def)
  have sp: "split_addr_port (Some (ln_addr listener0)) (Some (''localhost:'' @ show_nat 80))
     = Inr (0, Some ((ln_addr listener0)\<lparr>a_host := ''localhost'' @ NUL # drop (length ''localhost'' + 1) (a_host (ln_addr listener0)),
         a_port := 80\<rparr>))"
    using split_addr_port_eq [OF l(2) _ l(1), of "show_nat 80"] p by (simp add: HOST_SIZE_def)
  have c: "cstring (''localhost'' @ NUL # drop (length ''localhost'' + 1) (a_host (ln_addr listener0))) = Inr ''localhost''"
    by (rule cstring_terminated [OF l(2)])
  show ?thesis
    using s_listen_bad_host_binds_any [OF sp, of "''localhost''" env0] c by (simp add: env0_def)
qed

text \<open>A UDP listener is reported as a success although no socket exists: the descriptor in it
  is 0, the process's standard input.\<close>

theorem s_listen_udp:
  assumes "split_addr_port (Some (ln_addr ln0)) address = Inr (0, Some a)" and "strcaseeq network ''udp''"
  shows "\<exists>ln. s_listen env ln0 network address = Inr ln \<and> ln_err ln = 0 \<and> ln_fd ln = 0"
proof -
  have "\<not> strcaseeq network ''tcp''"
    using strcaseeq_trans [OF strcaseeq_sym [THEN iffD1, OF assms(2)], of "''tcp''"]
    by (auto simp: strcaseeq_def tolower_def)
  then show ?thesis
    using assms by (simp add: s_listen_def Let_def get_protocol_type_def PROTOCOL_TCP_def PROTOCOL_UDP_def)
qed

theorem s_listen_udp_witness:
  "\<exists>ln. s_listen env0 listener0 ''UDP'' (Some (CHR '':'' # show_nat 53)) = Inr ln \<and> ln_err ln = 0 \<and> ln_fd ln = 0"
proof -
  have l: "length (a_host (ln_addr listener0)) = HOST_SIZE"
    by (simp add: listener0_def addr0_def HOST_SIZE_def)
  have "atoi (show_nat 53) = Inr 53"
    using atoi_show_nat [of 53 "[]"] by (simp add: INT_MAX_def)
  then have sp: "split_addr_port (Some (ln_addr listener0)) (Some (CHR '':'' # show_nat 53))
     = Inr (0, Some ((ln_addr listener0)\<lparr>a_host := NUL # drop 1 (a_host (ln_addr listener0)), a_port := 53\<rparr>))"
    using split_addr_port_eq [of "[]" "ln_addr listener0" "show_nat 53"] l by (simp add: HOST_SIZE_def)
  have "strcaseeq ''UDP'' ''udp''" by code_simp
  then show ?thesis by (rule s_listen_udp [OF sp])
qed

end
