(* ===== verification/Pages.thy ===== *)
theory Pages
  imports Response Mime Cnet
begin

text \<open>
  The handlers of \<^verbatim>\<open>src/response.c\<close> that fill a response: the page for a closed connection, the 404
  page, and the static files under \<^verbatim>\<open>./www\<close>.  The file system is a parameter; open descriptors are a
  list, so that one that is never closed shows.
\<close>

section \<open>The pages\<close>

text \<open>\<open>snprintf(length, sizeof(length), "%d", len)\<close> into a local array of 33 bytes.\<close>

definition length_string :: "int \<Rightarrow> char list res" where
  "length_string len = cstring (snprintf_bytes 33 (show_int len))"

definition set_headers :: "response_ctx_t \<Rightarrow> (char list \<times> char list) list \<Rightarrow> response_ctx_t res" where
  "set_headers ctx kvs = foldl (\<lambda>c (k, v). rbind c (\<lambda>ctx. set_header ctx k v)) (Inr ctx) kvs"

definition send_close_resp :: "response_ctx_t \<Rightarrow> heap \<Rightarrow> (response_ctx_t \<times> heap) res" where
  "send_close_resp wctx h =
     rbind (new_string (Some ''closed'') h) (\<lambda>(temp, h1).
     rbind (copy_string temp h1) (\<lambda>(body, h2).
     let w = wctx\<lparr>resp := (resp wctx)\<lparr>p_status := HTTP_STATUS_OK, p_body := body\<rparr>\<rparr> in
     rbind (length_string (slen body)) (\<lambda>length.
     rbind (set_headers w [(''Content-Length'', length), (''Content-Type'', ''text/plain''),
                           (''Connection'', ''close'')]) (\<lambda>w'.
     Inr (w', h2)))))"

text \<open>The raw path of the request is a C string in its array.\<close>

definition not_found_page :: "response_ctx_t \<Rightarrow> 'p request_ctx_t \<Rightarrow> heap \<Rightarrow> (response_ctx_t \<times> heap) res" where
  "not_found_page wctx rctx h =
     rbind (new_string (Some ''Path='') h) (\<lambda>(temp, h1).
     rbind (cstring (r_raw_path (req rctx))) (\<lambda>raw.
     rbind (append_string_cstr (Some temp) (Some raw) h1) (\<lambda>(_, t1, h2).
     rbind (append_string_cstr t1 (Some '' not found'') h2) (\<lambda>(_, t2, h3).
     rbind (copy_string (the t2) h3) (\<lambda>(body, h4).
     let w = wctx\<lparr>resp := (resp wctx)\<lparr>p_status := HTTP_STATUS_NOT_FOUND, p_body := body\<rparr>\<rparr> in
     rbind (length_string (slen body)) (\<lambda>length.
     rbind (set_headers w [(''Content-Length'', length), (''Content-Type'', ''text/plain''),
                           (''Connection'', ''keep-alive'')]) (\<lambda>w'.
     Inr (w', h4))))))))"

section \<open>File system\<close>

text \<open>What the system calls answer: \<open>stat\<close> (the kind of file and its size), \<open>open\<close>, and \<open>read\<close> (its
  result and the bytes).\<close>

datatype file_kind = Directory | Regular | Other

record file_env =
  f_stat :: "char list \<Rightarrow> (file_kind \<times> int) option"
  f_open :: "char list \<Rightarrow> int"
  f_read :: "char list \<Rightarrow> nat \<Rightarrow> int \<times> char list"

text \<open>\<open>set_header\<close> calls by type of file.\<close>

definition content_type :: "int \<Rightarrow> char list option" where
  "content_type mime_id =
     (if mime_id = JS then Some ''application/javascript''
      else if mime_id = HTML then Some ''text/html''
      else if mime_id = PNG then Some ''image/png''
      else if mime_id = CSS then Some ''text/css''
      else None)"

text \<open>\<open>read\<close> stores what it read; for no bytes it touches nothing.\<close>

definition store_read :: "ptr \<Rightarrow> char list \<Rightarrow> heap \<Rightarrow> heap res" where
  "store_read p bytes h = (if bytes = [] then Inr h else store p 0 bytes h)"

text \<open>\<open>ext0\<close> is the indeterminate array of \<open>get_mime\<close>; \<open>t\<close> the open descriptors.  The descriptor is
  not closed and the temporary not freed on success.\<close>

definition handle_static_files ::
  "file_env \<Rightarrow> char list \<Rightarrow> response_ctx_t \<Rightarrow> char list \<Rightarrow> int \<Rightarrow> heap \<Rightarrow> fds \<Rightarrow> (response_ctx_t \<times> heap \<times> fds) res" where
  "handle_static_files E ext0 wctx file_path file_size h t =
     rbind (get_mime ext0 file_path) (\<lambda>mime_id.
     if mime_id = -1 then Inr (wctx, h, t)
     else let file_fd = f_open E file_path in
     if file_fd < 0 then Inr (wctx, h, t)
     else
       let w1 = wctx\<lparr>resp := (resp wctx)\<lparr>p_status := HTTP_STATUS_OK\<rparr>\<rparr>; t1 = file_fd # t in
       if file_size \<ge> INT_MAX then Inl IntOverflow
       else rbind (new_n_string (file_size + 1) h) (\<lambda>(temp, h1).
       case f_read E file_path (size_of_int (slen temp)) of (read_size, bytes) \<Rightarrow>
         if read_size < 0 then rbind (free_string temp h1) (\<lambda>h2. Inr (w1, h2, t1))
         else rbind (store_read (sdata temp) bytes h1) (\<lambda>h2.
              rbind (copy_string (temp\<lparr>slen := read_size\<rparr>) h2) (\<lambda>(body, h3).
              let w2 = w1\<lparr>resp := (resp w1)\<lparr>p_body := body\<rparr>\<rparr> in
              rbind (length_string (slen body)) (\<lambda>length.
              rbind (set_headers w2 ((''Content-Length'', length)
                  # (case content_type mime_id of None \<Rightarrow> [] | Some ct \<Rightarrow> [(''Content-Type'', ct)])
                  @ [(''Connection'', ''keep-alive'')])) (\<lambda>w3.
              Inr (w3, h3, t1)))))))"

text \<open>Conversion of the file's \<open>off_t\<close> size to \<open>int\<close>.\<close>

definition int_of_off :: "int \<Rightarrow> int" where
  "int_of_off x = (x + 2147483648) mod 4294967296 - 2147483648"

definition handle_not_found ::
  "file_env \<Rightarrow> char list \<Rightarrow> response_ctx_t \<Rightarrow> 'p request_ctx_t \<Rightarrow> heap \<Rightarrow> fds \<Rightarrow> (response_ctx_t \<times> heap \<times> fds) res" where
  "handle_not_found E ext0 wctx rctx h t =
     rbind (new_string (Some ''./www'') h) (\<lambda>(temp, h1).
     rbind (cstring (path (r_url (req rctx)))) (\<lambda>p.
     rbind (append_string_cstr (Some temp) (Some p) h1) (\<lambda>(ok, tp, h2).
     let temp_path = the tp in
     if \<not> ok then
       rbind (free_string temp_path h2) (\<lambda>h3.
       Inr (wctx\<lparr>resp := (resp wctx)\<lparr>p_status := HTTP_STATUS_INTERNAL_SERVER_ERROR\<rparr>\<rparr>, h3, t))
     else rbind (rbind (block (sdata temp_path) h2) cstring) (\<lambda>file.
       (case f_stat E file of
          None \<Rightarrow>
            rbind (not_found_page wctx rctx h2) (\<lambda>(w, h3).
            rbind (free_string temp_path h3) (\<lambda>h4. Inr (w, h4, t)))
        | Some (kind, st_size) \<Rightarrow>
            rbind (if kind = Regular then handle_static_files E ext0 wctx file (int_of_off st_size) h2 t
                   else Inr (wctx, h2, t)) (\<lambda>(w, h3, t1).
            rbind (free_string temp_path h3) (\<lambda>h4. Inr (w, h4, t1))))))))"

section \<open>Lemmas on the pages\<close>

lemma set_headers_slots:
  assumes "has_headers ctx hs" and "length hs + length kvs \<le> 128"
    and "\<forall>(k, v) \<in> set kvs. length k \<le> 128 \<and> length v \<le> 128"
  shows "\<exists>ctx'. set_headers ctx kvs = Inr ctx' \<and> has_headers ctx' (hs @ kvs)
     \<and> p_body (resp ctx') = p_body (resp ctx) \<and> p_status (resp ctx') = p_status (resp ctx)"
  using assms
proof (induction kvs arbitrary: ctx hs)
  case Nil
  then show ?case by (simp add: set_headers_def)
next
  case (Cons kv kvs)
  obtain k v where kv: "kv = (k, v)" by (cases kv)
  from Cons.prems kv obtain ctx1 where 1: "set_header ctx k v = Inr ctx1" "has_headers ctx1 (hs @ [(k, v)])"
    "p_body (resp ctx1) = p_body (resp ctx)" "p_status (resp ctx1) = p_status (resp ctx)"
    using set_header_slot [of ctx hs k v] by auto
  have "length (hs @ [(k, v)]) + length kvs \<le> 128" "\<forall>(k, v) \<in> set kvs. length k \<le> 128 \<and> length v \<le> 128"
    using Cons.prems by auto
  from Cons.IH [OF 1(2) this] 1 kv show ?case by (simp add: set_headers_def)
qed

lemma length_string_eq: "int n < INT_MAX \<Longrightarrow> length_string (int n) = Inr (show_nat n)"
  using length_show_int [of "int n"] by (simp add: length_string_def snprintf_bytes_def show_int_def)

lemma length_number: "int n < INT_MAX \<Longrightarrow> length (show_nat n) \<le> 10"
  by (rule length_show_nat) (simp_all add: INT_MAX_def)

lemma new_string_only_new:
  assumes "ready h" and "no_nul s" and "int (length s) < INT_MAX"
  shows "\<exists>r h'. new_string (Some s) h = Inr (r, h') \<and> str_is h' r s \<and> only_new h h' r"
  using new_string_eq [of h s] assms by (auto simp: only_new_def ready_def str_is_def)

lemma append_cstr_only_new:
  assumes "ready h" and "only_new h h1 r1" and "str_is h1 r1 t" and "no_nul s" and "int (length t + length s) < INT_MAX"
  shows "\<exists>r' h'. append_string_cstr (Some r1) (Some s) h1 = Inr (True, Some r', h') \<and> str_is h' r' (t @ s) \<and> only_new h h' r'"
proof -
  have "ready h1" using assms(2) by (simp add: only_new_def)
  from append_string_cstr_grows [OF this assms(3-5)] obtain r' h' where
    1: "append_string_cstr (Some r1) (Some s) h1 = Inr (True, Some r', h')" "grows h1 r1 h' r' (t @ s)" by blast
  then show ?thesis using only_new_grows [OF assms(2) 1(2) assms(1)] by (auto simp: grows_def)
qed

text \<open>A string and its copy: two new blocks.\<close>

lemma copy_two_new:
  assumes "ready h" and "only_new h h1 r" and "str_is h1 r t"
  shows "\<exists>c h2. copy_string r h1 = Inr (c, h2) \<and> str_is h2 c t \<and> str_is h2 r t \<and> ready h2 \<and> slen c = int (length t)
     \<and> sdata c \<noteq> sdata r \<and> dom (hmem h2) = dom (hmem h) \<union> {the (sdata r), the (sdata c)}
     \<and> card (dom (hmem h2) - dom (hmem h)) = 2 \<and> (\<forall>x \<in> dom (hmem h). hmem h2 x = hmem h x)
     \<and> the (sdata c) \<notin> dom (hmem h)"
proof -
  from assms(3) obtain p x where p: "sdata r = Some p" "hmem h1 p = Some (t @ NUL # x)" "int (length t) < INT_MAX"
    by (auto elim: str_isE)
  have o: "ready h1" "hnext h \<le> hnext h1" "hnext h \<le> p" "\<forall>x. x \<noteq> p \<longrightarrow> hmem h1 x = hmem h x"
    using assms(2) p(1) by (auto simp: only_new_def)
  have pn: "p < hnext h1" using o(1) p(2) by (auto simp: ready_def dest: heap_ok_used)
  let ?c = "\<lparr>slen = int (length t), sdata = Some (hnext h1)\<rparr>" and ?h2 = "with_block h1 (t @ [NUL])"
  have cp: "copy_string r h1 = Inr (?c, ?h2)"
    using copy_string_eq [OF _ _ assms(3)] o(1) by (simp add: ready_def)
  have nd: "p \<notin> dom (hmem h)" "hnext h1 \<notin> dom (hmem h)" using assms(1) o(2,3) by (auto simp: ready_def heap_ok_def)
  have d: "dom (hmem ?h2) = dom (hmem h) \<union> {p, hnext h1}"
  proof -
    have "dom (hmem h1) = insert p (dom (hmem h))" using o(4) p(2) by (auto simp: dom_def)
    then show ?thesis by auto
  qed
  then have "dom (hmem ?h2) - dom (hmem h) = {p, hnext h1}" using nd by blast
  then have "card (dom (hmem ?h2) - dom (hmem h)) = 2" using pn by simp
  moreover have "\<forall>x \<in> dom (hmem h). hmem ?h2 x = hmem h x" using nd o(4) by auto
  moreover have "str_is ?h2 ?c t" "str_is ?h2 r t" "ready ?h2"
    using p pn assms(3) o(1) by (auto simp: str_is_def ready_def)
  ultimately show ?thesis using cp d p(1) pn nd(2) by auto
qed

text \<open>The three headers of a page.\<close>

definition page_headers :: "char list \<Rightarrow> char list \<Rightarrow> char list \<Rightarrow> (char list \<times> char list) list" where
  "page_headers b ct conn = [(''Content-Length'', show_nat (length b)), (''Content-Type'', ct), (''Connection'', conn)]"

lemma page_headers_small:
  assumes "int (length b) < INT_MAX" and "no_nul ct" "length ct \<le> 30" and "no_nul conn" "length conn \<le> 30"
  shows "\<forall>kv \<in> set (page_headers b ct conn). small_header kv"
  using assms length_number [of "length b"] by (simp add: page_headers_def small_header_def) (simp add: NUL_def)

text \<open>What was allocated before still is, with the same content.\<close>

definition kept :: "heap \<Rightarrow> heap \<Rightarrow> bool" where
  "kept h h' \<longleftrightarrow> ready h' \<and> (\<forall>x \<in> dom (hmem h). hmem h' x = hmem h x)"

lemma kept_trans: "kept h h1 \<Longrightarrow> kept h1 h2 \<Longrightarrow> kept h h2"
  unfolding kept_def by (metis domIff)

lemma only_new_kept:
  assumes "ready h" and "only_new h h' r" and "str_is h' r t"
  shows "kept h h'"
proof -
  obtain p where p: "sdata r = Some p" using assms(3) by (auto elim: str_isE)
  then have "p \<notin> dom (hmem h)" using assms(1,2) by (auto simp: only_new_def ready_def heap_ok_def)
  then show ?thesis using p assms(2) unfolding kept_def only_new_def by (metis option.inject)
qed

lemma kept_str:
  assumes "str_is h s t" and "kept h h'"
  shows "str_is h' s t"
proof -
  obtain p x where p: "sdata s = Some p" "hmem h p = Some x" using assms(1) by (auto elim: str_isE)
  then have "hmem h' p = hmem h p" using assms(2) unfolding kept_def by (metis domI)
  then show ?thesis using assms(1) p(1) by (auto intro: str_is_cong)
qed

text \<open>A response that is ready to be serialised: its status, its headers, its body.\<close>

definition prepared :: "response_ctx_t \<Rightarrow> heap \<Rightarrow> int \<Rightarrow> (char list \<times> char list) list \<Rightarrow> char list \<Rightarrow> bool" where
  "prepared w h code hs b \<longleftrightarrow> has_headers w hs \<and> (\<forall>kv \<in> set hs. small_header kv) \<and> p_status (resp w) = code
     \<and> \<bar>code\<bar> \<le> INT_MAX \<and> body_is h (p_body (resp w)) b \<and> int (length (wire code hs b)) < INT_MAX"

lemma prepared_generate:
  assumes "ready h" and "prepared w h code hs b"
  shows "\<exists>r h'. generate_response w h = Inr (r, h') \<and> str_is h' r (wire code hs b) \<and> only_new h h' r"
  using generate_wire [of h w hs b] assms by (simp add: prepared_def)

lemma prepared_init: "prepared init_resp_ctx h 0 [] []"
  using has_headers_init length_status_line [of 0]
  by (simp add: prepared_def body_is_def wire_def nul_pad_def init_resp_ctx_def INT_MAX_def)

text \<open>With memory available, a computation ends in such a response.\<close>

definition prepares ::
  "(heap \<Rightarrow> (response_ctx_t \<times> heap) res) \<Rightarrow> int \<Rightarrow> (char list \<times> char list) list \<Rightarrow> char list \<Rightarrow> bool" where
  "prepares g code hs b \<longleftrightarrow> (\<forall>h. ready h \<longrightarrow> (\<exists>w h'. g h = Inr (w, h') \<and> prepared w h' code hs b \<and> kept h h'))"

text \<open>A page: what a handler makes of a cleared response and a request with the raw target \<open>raw\<close>.\<close>

locale page_handler =
  fixes run :: "response_ctx_t \<Rightarrow> 'p request_ctx_t \<Rightarrow> heap \<Rightarrow> (response_ctx_t \<times> heap) res"
    and code :: int
    and headers :: "char list \<Rightarrow> (char list \<times> char list) list"
    and body :: "char list \<Rightarrow> char list"
  assumes run_prepares: "cstring (r_raw_path (req rctx)) = Inr raw \<Longrightarrow> length (r_raw_path (req rctx)) = 256 \<Longrightarrow>
     prepares (run init_resp_ctx rctx) code (headers raw) (body raw)"
begin

lemma run_sends:
  assumes "cstring (r_raw_path (req rctx)) = Inr raw" and "length (r_raw_path (req rctx)) = 256" and "ready h"
  shows "\<exists>w h1 r h2. run init_resp_ctx rctx h = Inr (w, h1) \<and> generate_response w h1 = Inr (r, h2)
     \<and> str_is h2 r (wire code (headers raw) (body raw)) \<and> kept h h2"
proof -
  obtain w h1 where 1: "run init_resp_ctx rctx h = Inr (w, h1)" "prepared w h1 code (headers raw) (body raw)" "kept h h1"
    using run_prepares [OF assms(1,2)] assms(3) by (auto simp: prepares_def)
  have r: "ready h1" using 1(3) by (simp add: kept_def)
  from prepared_generate [OF r 1(2)] 1 only_new_kept [OF r] kept_trans show ?thesis by blast
qed

end

lemma page_prepared:
  assumes "has_headers w (page_headers b ct conn)" and "str_is h (p_body (resp w)) b" and "length b \<le> 150000000"
    and c: "no_nul ct" "length ct \<le> 30" "no_nul conn" "length conn \<le> 30" and st: "\<bar>p_status (resp w)\<bar> \<le> INT_MAX"
  shows "prepared w h (p_status (resp w)) (page_headers b ct conn) b"
proof -
  let ?hs = "page_headers b ct conn"
  have lb: "int (length b) < INT_MAX" using assms(3) by (simp add: INT_MAX_def)
  have "length (wire (p_status (resp w)) ?hs b) \<le> 200000000"
    using assms(3) length_number [OF lb] c length_status_line [OF st] by (simp add: wire_def page_headers_def header_value_def)
  then have "int (length (wire (p_status (resp w)) ?hs b)) < INT_MAX" by (simp add: INT_MAX_def)
  then show ?thesis using assms(1,2) st page_headers_small [OF lb c] by (simp add: prepared_def body_is_def)
qed

text \<open>Setting them on a response without headers and serialising it.\<close>

lemma page_wire:
  assumes w: "has_headers w []" and b: "str_is h (p_body (resp w)) b" and small: "length b \<le> 100000000"
    and c: "no_nul ct" "length ct \<le> 30" "no_nul conn" "length conn \<le> 30" and h: "ready h"
    and st: "\<bar>p_status (resp w)\<bar> \<le> INT_MAX"
  shows "\<exists>w' r h'. set_headers w (page_headers b ct conn) = Inr w' \<and> generate_response w' h = Inr (r, h')
     \<and> str_is h' r (wire (p_status (resp w)) (page_headers b ct conn) b) \<and> only_new h h' r
     \<and> p_body (resp w') = p_body (resp w) \<and> p_status (resp w') = p_status (resp w)
     \<and> prepared w' h (p_status (resp w)) (page_headers b ct conn) b"
proof -
  let ?hs = "page_headers b ct conn"
  have lb: "int (length b) < INT_MAX" using small by (simp add: INT_MAX_def)
  have ln: "length (show_nat (length b)) \<le> 10" by (rule length_number [OF lb])
  have "\<forall>(k, v) \<in> set ?hs. length k \<le> 128 \<and> length v \<le> 128" "length ([] :: (char list \<times> char list) list) + length ?hs \<le> 128"
    using c ln by (auto simp: page_headers_def)
  from set_headers_slots [OF w this(2,1)] obtain w' where
    1: "set_headers w ?hs = Inr w'" "has_headers w' ?hs" "p_body (resp w') = p_body (resp w)"
    "p_status (resp w') = p_status (resp w)" by auto
  have s: "\<forall>kv \<in> set ?hs. small_header kv" by (rule page_headers_small [OF lb c])
  have "prepared w' h (p_status (resp w)) ?hs b"
    using page_prepared [OF 1(2), of h] b small c st 1(3,4) by simp
  then show ?thesis using generate_wire [OF h _ 1(2) s] 1 by (auto simp: prepared_def)
qed

lemma cstring_no_nul: "cstring a = Inr s \<Longrightarrow> no_nul s \<and> length s < length a"
  by (auto simp: cstring_def length_cstr_less split: if_splits)

text \<open>The text of the 404 page, and the page as the function builds it.\<close>

definition not_found_text :: "char list \<Rightarrow> char list" where
  "not_found_text raw = ''Path='' @ raw @ '' not found''"

lemma not_found_page_ok:
  assumes h: "ready h" and raw: "cstring (r_raw_path (req rctx)) = Inr raw" "length (r_raw_path (req rctx)) = 256"
    and w: "has_headers wctx []"
  defines "b \<equiv> not_found_text raw"
  shows "\<exists>w h1 r h2. not_found_page wctx rctx h = Inr (w, h1) \<and> generate_response w h1 = Inr (r, h2)
     \<and> str_is h2 r (wire 404 (page_headers b ''text/plain'' ''keep-alive'') b)
     \<and> kept h h1 \<and> prepared w h1 404 (page_headers b ''text/plain'' ''keep-alive'') b
     \<and> (\<exists>y. sdata (p_body (resp w)) = Some y \<and> y \<notin> dom (hmem h)) \<and> card (dom (hmem h1) - dom (hmem h)) = 2"
proof -
  have r: "no_nul raw" "length raw < 256" using cstring_no_nul [OF raw(1)] raw(2) by auto
  have lits: "no_nul ''Path=''" "no_nul '' not found''" "no_nul ''text/plain''" "no_nul ''keep-alive''"
    by (simp_all add: NUL_def)
  obtain temp h1 where 1: "new_string (Some ''Path='') h = Inr (temp, h1)" "str_is h1 temp ''Path=''" "only_new h h1 temp"
    using new_string_only_new [OF h lits(1)] by (auto simp: INT_MAX_def)
  obtain t1 h2 where 2: "append_string_cstr (Some temp) (Some raw) h1 = Inr (True, Some t1, h2)"
    "str_is h2 t1 (''Path='' @ raw)" "only_new h h2 t1"
    using append_cstr_only_new [OF h 1(3,2) r(1)] r(2) by (auto simp: INT_MAX_def)
  obtain t2 h3 where 3: "append_string_cstr (Some t1) (Some '' not found'') h2 = Inr (True, Some t2, h3)"
    "str_is h3 t2 b" "only_new h h3 t2"
    using append_cstr_only_new [OF h 2(3,2) lits(2)] r(2) by (auto simp: INT_MAX_def b_def not_found_text_def)
  obtain c h4 where 4: "copy_string t2 h3 = Inr (c, h4)" "str_is h4 c b" "ready h4" "slen c = int (length b)"
    "card (dom (hmem h4) - dom (hmem h)) = 2" "\<forall>x \<in> dom (hmem h). hmem h4 x = hmem h x"
    "the (sdata c) \<notin> dom (hmem h)"
    using copy_two_new [OF h 3(3,2)] by blast
  let ?w = "wctx\<lparr>resp := (resp wctx)\<lparr>p_status := HTTP_STATUS_NOT_FOUND, p_body := c\<rparr>\<rparr>"
  have lb: "length b \<le> 100000000" using r(2) by (simp add: b_def not_found_text_def)
  have "has_headers ?w []" using w by (simp add: has_headers_def)
  from page_wire [OF this, of h4 b "''text/plain''" "''keep-alive''"] 4 lb lits(3,4)
  obtain w' r' h5 where 5: "set_headers ?w (page_headers b ''text/plain'' ''keep-alive'') = Inr w'"
    "generate_response w' h4 = Inr (r', h5)" "str_is h5 r' (wire 404 (page_headers b ''text/plain'' ''keep-alive'') b)"
    "p_body (resp w') = c" "prepared w' h4 404 (page_headers b ''text/plain'' ''keep-alive'') b"
    by (auto simp: status_codes INT_MAX_def)
  have ls: "length_string (slen c) = Inr (show_nat (length b))"
    using lb 4(4) by (simp add: length_string_eq INT_MAX_def)
  have "not_found_page wctx rctx h = Inr (w', h4)"
    using 1(1) raw(1) 2(1) 3(1) 4(1) 5(1) ls
    by (simp add: not_found_page_def Let_def page_headers_def)
  moreover have "\<exists>y. sdata (p_body (resp w')) = Some y \<and> y \<notin> dom (hmem h)"
    using 4(2,7) 5(4) by (auto elim!: str_isE)
  ultimately show ?thesis using 5 4 unfolding kept_def by blast
qed

interpretation not_found: page_handler not_found_page 404
  "\<lambda>raw. page_headers (not_found_text raw) ''text/plain'' ''keep-alive''" not_found_text
proof
  fix rctx :: "'p request_ctx_t" and raw
  assume "cstring (r_raw_path (req rctx)) = Inr raw" "length (r_raw_path (req rctx)) = 256"
  from not_found_page_ok [OF _ this has_headers_init] show "prepares (not_found_page init_resp_ctx rctx) 404
      (page_headers (not_found_text raw) ''text/plain'' ''keep-alive'') (not_found_text raw)"
    unfolding prepares_def by blast
qed

text \<open>\<open>copy_string\<close> of a length-counted prefix that no NUL follows.\<close>

lemma copy_prefix:
  assumes "ready h" and "sdata s = Some p" and "slen s = int (length u)" and "hmem h p = Some (u @ x)"
    and "int (length u) < INT_MAX"
  shows "copy_string s h = Inr (\<lparr>slen = int (length u), sdata = Some (hnext h)\<rparr>, with_block h (u @ [NUL]))"
proof -
  have "p \<noteq> hnext h" using assms(1,4) by (auto simp: ready_def dest: heap_ok_used)
  moreover have "size_of_int (int (length u)) = length u" using assms(5) by (subst size_small') simp_all
  moreover have "overwrite (map (hjunk h (hnext h)) [0..<length u] @ [NUL]) 0 u = u @ [NUL]"
    by (simp add: overwrite_def)
  ultimately show ?thesis
    using assms new_n_string_eq [of h "int (length u)"]
    by (cases "u = []") (simp_all add: copy_string_def load_def block_def store_at ready_def)
qed

lemma content_type_small:
  assumes "content_type m = Some ct"
  shows "no_nul ct \<and> length ct \<le> 30"
  using assms by (auto simp: content_type_def mime_ids NUL_def split: if_splits)

text \<open>A regular file of a known type that can be opened; \<open>read\<close> may return less than the size, or one byte more.\<close>

lemma handle_static_files_ok:
  assumes h: "ready h" and e: "length ext0 = EXT_SIZE" "no_nul file" "length (extension file) < EXT_SIZE"
    and ct: "content_type (mime_class (extension file)) = Some ct"
    and o: "0 \<le> f_open E file" and n: "N \<le> 100000000" "length u \<le> Suc N"
    and rd: "f_read E file (N + 1) = (int (length u), u)" and w: "has_headers wctx []"
  shows "\<exists>w1 h1. handle_static_files E ext0 wctx file (int N) h t = Inr (w1, h1, f_open E file # t)
     \<and> has_headers w1 (page_headers u ct ''keep-alive'') \<and> p_status (resp w1) = 200
     \<and> str_is h1 (p_body (resp w1)) u \<and> ready h1 \<and> sdata (p_body (resp w1)) = Some (Suc (hnext h))
     \<and> dom (hmem h1) = dom (hmem h) \<union> {hnext h, Suc (hnext h)} \<and> (\<forall>x \<in> dom (hmem h). hmem h1 x = hmem h x)"
proof -
  let ?m = "mime_class (extension file)" and ?a = "hnext h"
  have m: "get_mime ext0 file = Inr ?m" using get_mime_class [OF e(2,1)] e(3) by simp
  have m1: "?m \<noteq> -1" using ct by (auto simp: content_type_def mime_ids)
  have lu: "int (length u) < INT_MAX" "\<not> int N \<ge> INT_MAX" using n by (simp_all add: INT_MAX_def)
  define B where "B = map (hjunk h ?a) [0..<N + 1] @ [NUL]"
  define H1 where "H1 = with_block h B"
  define H2 where "H2 = h\<lparr>hnext := Suc ?a, hmem := (hmem h)(?a \<mapsto> overwrite B 0 u)\<rparr>"
  have nn: "new_n_string (int N + 1) h = Inr (\<lparr>slen = int N + 1, sdata = Some ?a\<rparr>, H1)"
    using new_n_string_eq [of h "int N + 1"] h n(1)
    by (simp add: ready_def INT_MAX_def nat_add_distrib H1_def B_def)
  have sz: "size_of_int (int N + 1) = Suc N" using n(1) by (simp add: nat_add_distrib)
  have st: "store_read (Some ?a) u H1 = Inr H2"
    using n(2) by (simp add: store_read_def store_at H1_def H2_def B_def)
  have r2: "ready H2" using h by (auto simp: H2_def ready_def heap_ok_def)
  define C where "C = \<lparr>slen = int (length u), sdata = Some (Suc ?a)\<rparr>"
  define H3 where "H3 = with_block H2 (u @ [NUL])"
  have cp: "copy_string \<lparr>slen = int (length u), sdata = Some ?a\<rparr> H2 = Inr (C, H3)"
    using copy_prefix [OF r2, of "\<lparr>slen = int (length u), sdata = Some ?a\<rparr>" ?a u "drop (length u) B"] lu
    by (simp add: overwrite_def C_def H3_def) (simp add: H2_def overwrite_def)
  let ?w = "wctx\<lparr>resp := (resp wctx)\<lparr>p_status := HTTP_STATUS_OK, p_body := C\<rparr>\<rparr>"
  have hw: "has_headers ?w []" using w by (simp add: has_headers_def)
  have "\<forall>(k, v) \<in> set (page_headers u ct ''keep-alive''). length k \<le> 128 \<and> length v \<le> 128"
    "length ([] :: (char list \<times> char list) list) + length (page_headers u ct ''keep-alive'') \<le> 128"
    using content_type_small [OF ct] length_number [OF lu(1)] by (auto simp: page_headers_def)
  from set_headers_slots [OF hw this(2,1)] obtain w1 where
    1: "set_headers ?w (page_headers u ct ''keep-alive'') = Inr w1" "has_headers w1 (page_headers u ct ''keep-alive'')"
    "p_body (resp w1) = C" "p_status (resp w1) = 200" by (auto simp: status_codes)
  have ls: "length_string (int (length u)) = Inr (show_nat (length u))" by (rule length_string_eq [OF lu(1)])
  have "handle_static_files E ext0 wctx file (int N) h t = Inr (w1, H3, f_open E file # t)"
    using o lu(2) rd 1(1) unfolding handle_static_files_def m
    by (simp add: m1 Let_def nn sz st cp C_def [THEN arg_cong, of slen] ls ct page_headers_def)
  moreover have "ready H3" using r2 by (simp add: H3_def ready_def)
  moreover have "str_is H3 C u" using lu by (auto simp: str_is_def H3_def H2_def C_def)
  moreover have "hmem h ?a = None" "hmem h (Suc ?a) = None" using h by (simp_all add: ready_def heap_ok_def)
  then have "dom (hmem H3) = dom (hmem h) \<union> {?a, Suc ?a}" "\<forall>x \<in> dom (hmem h). hmem H3 x = hmem h x"
    by (auto simp: H3_def H2_def)
  ultimately show ?thesis using 1 by (auto simp: C_def)
qed

text \<open>The file name \<open>handle_not_found\<close> builds, and that freeing it undoes its block.\<close>

lemma file_name_string:
  assumes h: "ready h" and p: "no_nul p" "length p < 256"
  shows "\<exists>temp h1 s h2 q. new_string (Some ''./www'') h = Inr (temp, h1)
     \<and> append_string_cstr (Some temp) (Some p) h1 = Inr (True, Some s, h2)
     \<and> rbind (block (sdata s) h2) cstring = Inr (''./www'' @ p) \<and> sdata s = Some q
     \<and> only_new h h2 s \<and> q \<notin> dom (hmem h) \<and> dom (hmem h2) = insert q (dom (hmem h))"
proof -
  have w: "no_nul ''./www''" by (simp add: NUL_def)
  obtain temp h1 where 1: "new_string (Some ''./www'') h = Inr (temp, h1)" "str_is h1 temp ''./www''" "only_new h h1 temp"
    using new_string_only_new [OF h w] by (auto simp: INT_MAX_def)
  obtain s h2 where 2: "append_string_cstr (Some temp) (Some p) h1 = Inr (True, Some s, h2)"
    "str_is h2 s (''./www'' @ p)" "only_new h h2 s"
    using append_cstr_only_new [OF h 1(3,2) p(1)] p(2) by (auto simp: INT_MAX_def)
  obtain q r where q: "sdata s = Some q" "hmem h2 q = Some ((''./www'' @ p) @ NUL # r)"
    using 2(2) by (auto elim: str_isE)
  have b: "rbind (block (sdata s) h2) cstring = Inr (''./www'' @ p)"
    using q cstring_terminated [of "''./www'' @ p" r] w p(1) by (simp add: block_def)
  have n: "q \<notin> dom (hmem h)" using 2(3) q(1) h by (auto simp: only_new_def ready_def heap_ok_def)
  have "dom (hmem h2) = insert q (dom (hmem h))" using 2(3) q by (auto simp: only_new_def dom_def)
  with 1 2 b q n show ?thesis by blast
qed

lemma free_string_ok: "sdata s = Some q \<Longrightarrow> q \<in> dom (hmem h) \<Longrightarrow> free_string s h = Inr (h\<lparr>hmem := (hmem h)(q := None)\<rparr>)"
  by (auto simp: free_string_def free_def)

text \<open>Nothing under \<^verbatim>\<open>./www\<close> has that name: the 404 page, and the file name freed again.\<close>

lemma handle_not_found_missing:
  assumes "cstring (path (r_url (req rctx))) = Inr p" and "length p < 256" and "f_stat E (''./www'' @ p) = None"
    and "cstring (r_raw_path (req rctx)) = Inr raw" and "length (r_raw_path (req rctx)) = 256" and "ready h"
  shows "\<exists>w h'. handle_not_found E ext0 init_resp_ctx rctx h t = Inr (w, h', t) \<and> kept h h'
     \<and> prepared w h' 404 (page_headers (not_found_text raw) ''text/plain'' ''keep-alive'') (not_found_text raw)"
proof -
  have p: "no_nul p" using cstring_no_nul [OF assms(1)] by simp
  from file_name_string [OF assms(6) p assms(2)] obtain temp h1 s h2 q where
    1: "new_string (Some ''./www'') h = Inr (temp, h1)" "append_string_cstr (Some temp) (Some p) h1 = Inr (True, Some s, h2)"
    "rbind (block (sdata s) h2) cstring = Inr (''./www'' @ p)" "sdata s = Some q" "only_new h h2 s" "q \<notin> dom (hmem h)"
    "dom (hmem h2) = insert q (dom (hmem h))" by blast
  have r2: "ready h2" using 1(5) by (simp add: only_new_def)
  obtain w h3 y where 2: "not_found_page init_resp_ctx rctx h2 = Inr (w, h3)" "kept h2 h3"
    "prepared w h3 404 (page_headers (not_found_text raw) ''text/plain'' ''keep-alive'') (not_found_text raw)"
    "sdata (p_body (resp w)) = Some y" "y \<notin> dom (hmem h2)"
    using not_found_page_ok [OF r2 assms(4,5) has_headers_init] by blast
  let ?h4 = "h3\<lparr>hmem := (hmem h3)(q := None)\<rparr>"
  have q: "q \<in> dom (hmem h2)" using 1(7) by simp
  have "q \<in> dom (hmem h3)" using q 2(2) unfolding kept_def by (metis domIff)
  then have fr: "free_string s h3 = Inr ?h4" by (rule free_string_ok [OF 1(4)])
  have "handle_not_found E ext0 init_resp_ctx rctx h t = Inr (w, ?h4, t)"
    using 1(1-3) assms(1,3) 2(1) fr by (simp add: handle_not_found_def Let_def)
  moreover have "kept h ?h4"
    unfolding kept_def
  proof (intro conjI ballI)
    show "ready ?h4" using 2(2) by (auto simp: kept_def ready_def no_fail_def heap_ok_def)
    fix x assume x: "x \<in> dom (hmem h)"
    then have "x \<noteq> q" "hmem h3 x = hmem h2 x" "hmem h2 x = hmem h x"
      using 1(4-7) 2(2) by (auto simp: only_new_def kept_def)
    then show "hmem ?h4 x = hmem h x" by simp
  qed
  moreover have "y \<noteq> q" using q 2(5) by blast
  then have "body_is ?h4 (p_body (resp w)) (not_found_text raw)"
    using 2(3,4) by (auto simp: prepared_def body_is_def null_string_def intro: str_is_cong)
  then have "prepared w ?h4 404 (page_headers (not_found_text raw) ''text/plain'' ''keep-alive'') (not_found_text raw)"
    using 2(3) by (simp add: prepared_def)
  ultimately show ?thesis by blast
qed

section \<open>Properties\<close>

text \<open>The 404 response, byte for byte: for a request whose raw target is \<open>raw\<close>, the page built by
  \<open>not_found_page\<close> and serialised by \<open>generate_response\<close> is a 404 status line, a \<open>Content-Length\<close>
  that is the length of the body, \<open>text/plain\<close>, \<open>keep-alive\<close>, an empty line and the body
  \<open>Path=raw not found\<close>; building it leaves two new blocks, the body and a temporary string that is
  never freed.\<close>

theorem not_found_response:
  assumes "ready h" and "cstring (r_raw_path (req rctx)) = Inr raw" and "length (r_raw_path (req rctx)) = 256"
  shows "\<exists>w h1 r h2. not_found_page init_resp_ctx rctx h = Inr (w, h1) \<and> generate_response w h1 = Inr (r, h2)
     \<and> str_is h2 r (status_line 404
          @ ''Content-Length: '' @ show_nat (length raw + 15) @ CRLF
          @ ''Content-Type: text/plain'' @ CRLF @ ''Connection: keep-alive'' @ CRLF @ CRLF
          @ ''Path='' @ raw @ '' not found'')
     \<and> card (dom (hmem h1) - dom (hmem h)) = 2"
proof -
  have l: "length (not_found_text raw) = length raw + 15" by (simp add: not_found_text_def)
  have "no_nul raw" using cstring_no_nul [OF assms(2)] by simp
  then have "nul_pad (not_found_text raw) = not_found_text raw"
    by (intro nul_pad_no_nul) (simp add: not_found_text_def NUL_def)
  then have "wire 404 (page_headers (not_found_text raw) ''text/plain'' ''keep-alive'') (not_found_text raw)
     = status_line 404 @ ''Content-Length: '' @ show_nat (length raw + 15) @ CRLF
          @ ''Content-Type: text/plain'' @ CRLF @ ''Connection: keep-alive'' @ CRLF @ CRLF
          @ ''Path='' @ raw @ '' not found''"
    by (simp add: wire_def page_headers_def header_value_def l) (simp add: not_found_text_def)
  then show ?thesis
    using not_found_page_ok [OF assms has_headers_init] by metis
qed

definition request_at :: "char list \<Rightarrow> nat request_ctx_t" where
  "request_at p = \<lparr>req = http_request_t_init\<lparr>r_raw_path := p @ zeros (256 - length p),
     r_url := init_url\<lparr>path := p @ zeros (256 - length p)\<rparr>\<rparr>, lparser = 0\<rparr>"

lemma request_at_path:
  assumes "no_nul p" and "length p < 256"
  shows "cstring (r_raw_path (req (request_at p))) = Inr p" "length (r_raw_path (req (request_at p))) = 256"
    "cstring (path (r_url (req (request_at p)))) = Inr p"
  using assms by (simp_all add: request_at_def cstring_def)

theorem not_found_response_witness:
  "\<exists>w h1 r h2. not_found_page init_resp_ctx (request_at ''/x'') heap0 = Inr (w, h1)
     \<and> generate_response w h1 = Inr (r, h2)
     \<and> str_is h2 r (''HTTP/1.1 404 Not Found'' @ CRLF @ ''Content-Length: 17'' @ CRLF
          @ ''Content-Type: text/plain'' @ CRLF @ ''Connection: keep-alive'' @ CRLF @ CRLF @ ''Path=/x not found'')"
proof -
  have p: "no_nul ''/x''" "length ''/x'' < 256" by (simp_all add: NUL_def)
  have "show_int 404 = ''404''" "show_nat (length ''/x'' + 15) = ''17''" by code_simp+
  then show ?thesis
    using not_found_response [OF ready_heap0 request_at_path(1,2) [OF p]]
    by (simp add: status_line_def first_line_def get_status_code_def status_codes) blast
qed

text \<open>C34: Serving a file: for a path \<open>p\<close> with no route, \<open>handle_not_found\<close> opens exactly the file
  \<open>./www\<close> followed by \<open>p\<close>, whatever \<open>p\<close> is (a path with \<open>..\<close> leaves the directory); when it is a
  regular file of a known type it answers 200 with the file's bytes as the body, their number as
  \<open>Content-Length\<close> and the type's \<open>Content-Type\<close>.  The descriptor stays open, and besides the body a
  temporary block stays allocated.\<close>

theorem handle_not_found_serves:
  assumes "ready h" and "length ext0 = EXT_SIZE" and "cstring (path (r_url (req rctx))) = Inr p" and "length p < 256"
    and "length (extension (''./www'' @ p)) < EXT_SIZE"
    and "content_type (mime_class (extension (''./www'' @ p))) = Some ct"
    and "f_stat E (''./www'' @ p) = Some (Regular, int (length u))" and "length u \<le> 100000000"
    and "0 \<le> f_open E (''./www'' @ p)" and "f_read E (''./www'' @ p) (length u + 1) = (int (length u), u)"
  shows "\<exists>w h1. handle_not_found E ext0 init_resp_ctx rctx h t = Inr (w, h1, f_open E (''./www'' @ p) # t)
     \<and> has_headers w [(''Content-Length'', show_nat (length u)), (''Content-Type'', ct), (''Connection'', ''keep-alive'')]
     \<and> p_status (resp w) = 200 \<and> str_is h1 (p_body (resp w)) u
     \<and> (\<forall>x \<in> dom (hmem h). hmem h1 x = hmem h x) \<and> card (dom (hmem h1) - dom (hmem h)) = 2"
proof -
  let ?f = "''./www'' @ p"
  have p: "no_nul p" using cstring_no_nul [OF assms(3)] by simp
  then have nf: "no_nul ?f" by (simp add: NUL_def)
  from file_name_string [OF assms(1) p assms(4)] obtain temp h1 s h2 q where
    1: "new_string (Some ''./www'') h = Inr (temp, h1)" "append_string_cstr (Some temp) (Some p) h1 = Inr (True, Some s, h2)"
    "rbind (block (sdata s) h2) cstring = Inr ?f" "sdata s = Some q" "only_new h h2 s" "q \<notin> dom (hmem h)"
    "dom (hmem h2) = insert q (dom (hmem h))" by blast
  have r2: "ready h2" using 1(5) by (simp add: only_new_def)
  obtain w h3 where 2: "handle_static_files E ext0 init_resp_ctx ?f (int (length u)) h2 t = Inr (w, h3, f_open E ?f # t)"
    "has_headers w (page_headers u ct ''keep-alive'')" "p_status (resp w) = 200" "str_is h3 (p_body (resp w)) u"
    "dom (hmem h3) = dom (hmem h2) \<union> {hnext h2, Suc (hnext h2)}" "\<forall>x \<in> dom (hmem h2). hmem h3 x = hmem h2 x"
    "sdata (p_body (resp w)) = Some (Suc (hnext h2))"
    using handle_static_files_ok [OF r2 assms(2) nf assms(5,6,9,8) _ assms(10) has_headers_init, of t] by auto
  have q2: "q < hnext h2" using r2 1(7) by (auto simp: ready_def dest: heap_ok_used)
  let ?h4 = "h3\<lparr>hmem := (hmem h3)(q := None)\<rparr>"
  have fr: "free_string s h3 = Inr ?h4" using 2(5) 1(7) by (intro free_string_ok [OF 1(4)]) auto
  have off: "int_of_off (int (length u)) = int (length u)" using assms(8) by (simp add: int_of_off_def)
  have "handle_not_found E ext0 init_resp_ctx rctx h t = Inr (w, ?h4, f_open E ?f # t)"
    using 1(1-3) assms(3,7) off 2(1) fr by (simp add: handle_not_found_def Let_def)
  moreover have "str_is ?h4 (p_body (resp w)) u" using 2(4,7) q2 by (auto intro: str_is_cong)
  moreover have "\<forall>x \<in> dom (hmem h). hmem ?h4 x = hmem h x"
  proof
    fix x assume x: "x \<in> dom (hmem h)"
    then have "x \<noteq> q" "x \<in> dom (hmem h2)" "Some x \<noteq> sdata s" using 1(4,6,7) by auto
    then show "hmem ?h4 x = hmem h x" using 2(6) 1(5) by (simp add: only_new_def)
  qed
  moreover have "{hnext h2, Suc (hnext h2)} \<inter> dom (hmem h) = {}"
    using 1(5) assms(1) by (auto simp: only_new_def ready_def heap_ok_def)
  then have "dom (hmem ?h4) - dom (hmem h) = {hnext h2, Suc (hnext h2)}"
    using 2(5) 1(6,7) q2 by auto
  then have "card (dom (hmem ?h4) - dom (hmem h)) = 2" by simp
  ultimately show ?thesis using 2(2,3) unfolding page_headers_def by blast
qed

text \<open>A file system with one file, outside \<^verbatim>\<open>./www\<close>, and one directory.\<close>

definition files0 :: file_env where
  "files0 = \<lparr>f_stat = (\<lambda>f. if f = ''./www/../a.js'' then Some (Regular, 2)
                           else if f = ''./www/d'' then Some (Directory, 4096) else None),
             f_open = (\<lambda>_. 7), f_read = (\<lambda>_ n. (2, ''ab''))\<rparr>"

theorem handle_not_found_serves_witness:
  "\<exists>w h1. handle_not_found files0 (replicate 10 (CHR ''?'')) init_resp_ctx (request_at ''/../a.js'') heap0 [4]
       = Inr (w, h1, [7, 4]) \<and> str_is h1 (p_body (resp w)) ''ab''"
proof -
  let ?p = "''/../a.js''"
  have p: "no_nul ?p" "length ?p < 256" by (simp_all add: NUL_def)
  have "extension (''./www'' @ ?p) = ''js''" "mime_class ''js'' = JS" by code_simp+
  then have e: "length (extension (''./www'' @ ?p)) < EXT_SIZE"
    "content_type (mime_class (extension (''./www'' @ ?p))) = Some ''application/javascript''"
    by (simp_all add: EXT_SIZE_def content_type_def)
  show ?thesis
    using handle_not_found_serves [OF ready_heap0 _ request_at_path(3) [OF p] p(2) e, of "replicate 10 (CHR ''?'')" files0 "''ab''" "[4]"]
    by (simp add: EXT_SIZE_def files0_def) blast
qed

text \<open>A request for something under \<^verbatim>\<open>./www\<close> that is no regular file, or a regular file whose type
  is not one of the four, gets no answer of its own: \<open>handle_not_found\<close> leaves the response as
  initialised, so that what is sent is the status line \<open>HTTP/1.1 0 Internal Server Error\<close> and an empty
  line, without a \<open>Content-Length\<close>.\<close>

theorem handle_not_found_unanswered:
  assumes "ready h" and "length ext0 = EXT_SIZE" and "cstring (path (r_url (req rctx))) = Inr p" and "length p < 256"
    and "f_stat E (''./www'' @ p) = Some (kind, sz)"
    and "kind \<noteq> Regular \<or> (length (extension (''./www'' @ p)) < EXT_SIZE \<and> mime_class (extension (''./www'' @ p)) = -1)"
  shows "\<exists>h1 r h2. handle_not_found E ext0 init_resp_ctx rctx h t = Inr (init_resp_ctx, h1, t)
     \<and> hmem h1 = hmem h \<and> generate_response init_resp_ctx h1 = Inr (r, h2)
     \<and> str_is h2 r (''HTTP/1.1 0 Internal Server Error'' @ CRLF @ CRLF)"
proof -
  let ?f = "''./www'' @ p"
  have p: "no_nul p" using cstring_no_nul [OF assms(3)] by simp
  then have nf: "no_nul ?f" by (simp add: NUL_def)
  from file_name_string [OF assms(1) p assms(4)] obtain temp h1 s h2 q where
    1: "new_string (Some ''./www'') h = Inr (temp, h1)" "append_string_cstr (Some temp) (Some p) h1 = Inr (True, Some s, h2)"
    "rbind (block (sdata s) h2) cstring = Inr ?f" "sdata s = Some q" "only_new h h2 s" "q \<notin> dom (hmem h)"
    "dom (hmem h2) = insert q (dom (hmem h))" by blast
  let ?h4 = "h2\<lparr>hmem := (hmem h2)(q := None)\<rparr>"
  have fr: "free_string s h2 = Inr ?h4" using 1(7) by (intro free_string_ok [OF 1(4)]) auto
  have k: "handle_static_files E ext0 init_resp_ctx ?f (int_of_off sz) h2 t = Inr (init_resp_ctx, h2, t)"
    if "kind = Regular"
    using that assms(6) get_mime_class [OF nf assms(2)] by (auto simp: handle_static_files_def)
  have "handle_not_found E ext0 init_resp_ctx rctx h t = Inr (init_resp_ctx, ?h4, t)"
    using 1(1-3) assms(3,5) k fr by (cases "kind = Regular") (simp_all add: handle_not_found_def Let_def)
  moreover have "hmem ?h4 = hmem h"
    using 1(4-6) by (intro ext) (simp add: only_new_def domIff)
  moreover have "ready ?h4" using 1(5) by (simp add: only_new_def ready_def heap_ok_drop)
  moreover have "p_status (resp init_resp_ctx) = 0" "body_is ?h4 (p_body (resp init_resp_ctx)) []"
    by (simp_all add: init_resp_ctx_def body_is_def)
  moreover have "show_int 0 = ''0''" by code_simp
  then have w: "wire 0 [] [] = ''HTTP/1.1 0 Internal Server Error'' @ CRLF @ CRLF"
    by (simp add: wire_def status_line_def first_line_def get_status_code_def status_codes)
  ultimately show ?thesis
    using generate_wire [of ?h4 init_resp_ctx "[]" "[]"] has_headers_init w by (auto simp: INT_MAX_def)
qed

theorem handle_not_found_unanswered_witness:
  "\<exists>h1 r h2. handle_not_found files0 (replicate 10 (CHR ''?'')) init_resp_ctx (request_at ''/d'') heap0 []
       = Inr (init_resp_ctx, h1, []) \<and> generate_response init_resp_ctx h1 = Inr (r, h2)
     \<and> str_is h2 r (''HTTP/1.1 0 Internal Server Error'' @ CRLF @ CRLF)"
proof -
  have p: "no_nul ''/d''" "length ''/d'' < 256" by (simp_all add: NUL_def)
  show ?thesis
    using handle_not_found_unanswered [OF ready_heap0 _ request_at_path(3) [OF p] p(2),
        of "replicate 10 (CHR ''?'')" files0 Directory 4096 "[]"]
    by (simp add: EXT_SIZE_def files0_def) blast
qed

end
