(* ===== verification/App.thy ===== *)
theory App
  imports Pages
begin

text \<open>
  The route handlers of \<^verbatim>\<open>main.c\<close>: the home page, the API page, and the test page that is not
  registered.  Each answers \<open>Path=\<close> and the raw target; they differ in who owns the body and in what
  they do when memory runs out.
\<close>

section \<open>The code\<close>

text \<open>The headers all three set, in order.\<close>

definition home_headers :: "char list \<Rightarrow> (char list \<times> char list) list" where
  "home_headers len = [(''Content-Length'', len), (''Content-Type'', ''text/plain''),
     (''X-Hackerone-Id'', ''0xfaisal''), (''Connection'', ''close'')]"

definition home_page :: "response_ctx_t \<Rightarrow> 'p request_ctx_t \<Rightarrow> heap \<Rightarrow> (response_ctx_t \<times> heap) res" where
  "home_page wctx rctx h =
     rbind (new_string (Some ''Path='') h) (\<lambda>(temp, h1).
     rbind (cstring (r_raw_path (req rctx))) (\<lambda>raw.
     rbind (append_string_cstr (Some temp) (Some raw) h1) (\<lambda>(ok, tp, h2).
     let w = (if ok then wctx\<lparr>resp := (resp wctx)\<lparr>p_status := HTTP_STATUS_OK, p_body := the tp\<rparr>\<rparr>
              else wctx\<lparr>resp := (resp wctx)\<lparr>p_status := HTTP_STATUS_INTERNAL_SERVER_ERROR\<rparr>\<rparr>) in
     rbind (length_string (slen (p_body (resp w)))) (\<lambda>length.
     rbind (set_headers w (home_headers length)) (\<lambda>w'. Inr (w', h2))))))"

definition api_home_page :: "response_ctx_t \<Rightarrow> 'p request_ctx_t \<Rightarrow> heap \<Rightarrow> (response_ctx_t \<times> heap) res" where
  "api_home_page wctx rctx h =
     rbind (new_string (Some ''Path='') h) (\<lambda>(temp, h1).
     rbind (cstring (r_raw_path (req rctx))) (\<lambda>raw.
     rbind (append_string_cstr (Some temp) (Some raw) h1) (\<lambda>(ok, tp, h2).
     rbind (if ok
            then rbind (copy_string (the tp) h2) (\<lambda>(body, h3).
                 Inr (wctx\<lparr>resp := (resp wctx)\<lparr>p_status := HTTP_STATUS_OK, p_body := body\<rparr>\<rparr>, h3))
            else Inr (wctx\<lparr>resp := (resp wctx)\<lparr>p_status := HTTP_STATUS_INTERNAL_SERVER_ERROR\<rparr>\<rparr>, h2))
       (\<lambda>(w, h3).
     rbind (length_string (slen (p_body (resp w)))) (\<lambda>length.
     rbind (set_headers w (home_headers length)) (\<lambda>w'. Inr (w', h3)))))))"

definition home_page_test :: "response_ctx_t \<Rightarrow> 'p request_ctx_t \<Rightarrow> heap \<Rightarrow> (response_ctx_t \<times> heap) res" where
  "home_page_test wctx rctx h =
     rbind (new_string (Some ''Path='') h) (\<lambda>(temp, h1).
     rbind (cstring (r_raw_path (req rctx))) (\<lambda>raw.
     rbind (append_string_cstr (Some temp) (Some raw) h1) (\<lambda>(_, tp, h2).
     rbind (copy_string (the tp) h2) (\<lambda>(body, h3).
     let w = wctx\<lparr>resp := (resp wctx)\<lparr>p_status := HTTP_STATUS_OK, p_body := body\<rparr>\<rparr> in
     rbind (length_string (slen body)) (\<lambda>length.
     rbind (set_headers w (home_headers length)) (\<lambda>w'. Inr (w', h3)))))))"

section \<open>Lemmas\<close>

lemma home_headers_small:
  assumes "int n < INT_MAX"
  shows "\<forall>kv \<in> set (home_headers (show_nat n)). small_header kv"
  using length_number [OF assms] by (simp add: home_headers_def small_header_def) (simp add: NUL_def)

text \<open>Setting the headers for a body of \<open>n\<close> characters.\<close>

lemma home_prepared:
  assumes w: "has_headers w []" and b: "body_is h (p_body (resp w)) b" and n: "length b \<le> 1000"
    and st: "\<bar>p_status (resp w)\<bar> \<le> INT_MAX"
  shows "\<exists>w'. set_headers w (home_headers (show_nat (length b))) = Inr w'
     \<and> prepared w' h (p_status (resp w)) (home_headers (show_nat (length b))) b"
proof -
  let ?hs = "home_headers (show_nat (length b))"
  have lb: "int (length b) < INT_MAX" using n by (simp add: INT_MAX_def)
  have ln: "length (show_nat (length b)) \<le> 10" by (rule length_number [OF lb])
  have "\<forall>(k, v) \<in> set ?hs. length k \<le> 128 \<and> length v \<le> 128" "length ([] :: (char list \<times> char list) list) + length ?hs \<le> 128"
    using ln by (auto simp: home_headers_def)
  from set_headers_slots [OF w this(2,1)] obtain w' where
    1: "set_headers w ?hs = Inr w'" "has_headers w' ?hs" "p_body (resp w') = p_body (resp w)"
    "p_status (resp w') = p_status (resp w)" by auto
  have "length (wire (p_status (resp w)) ?hs b) \<le> 2000"
    using n ln length_status_line [OF st] by (simp add: wire_def home_headers_def header_value_def)
  then have l: "int (length (wire (p_status (resp w)) ?hs b)) < INT_MAX" by (simp add: INT_MAX_def)
  then show ?thesis using 1 b st home_headers_small [OF lb] by (simp add: prepared_def)
qed

text \<open>The string \<open>Path=raw\<close>, built by the first two calls of each handler.\<close>

lemma path_string:
  assumes h: "ready h" and raw: "cstring (r_raw_path (req rctx)) = Inr raw" "length (r_raw_path (req rctx)) = 256"
  shows "\<exists>temp h1 s h2. new_string (Some ''Path='') h = Inr (temp, h1)
     \<and> append_string_cstr (Some temp) (Some raw) h1 = Inr (True, Some s, h2)
     \<and> str_is h2 s (''Path='' @ raw) \<and> only_new h h2 s \<and> no_nul (''Path='' @ raw) \<and> length raw < 256"
proof -
  have r: "no_nul raw" "length raw < 256" using cstring_no_nul [OF raw(1)] raw(2) by auto
  have w: "no_nul ''Path=''" by (simp add: NUL_def)
  obtain temp h1 where 1: "new_string (Some ''Path='') h = Inr (temp, h1)" "str_is h1 temp ''Path=''" "only_new h h1 temp"
    using new_string_only_new [OF h w] by (auto simp: INT_MAX_def)
  obtain s h2 where "append_string_cstr (Some temp) (Some raw) h1 = Inr (True, Some s, h2)"
    "str_is h2 s (''Path='' @ raw)" "only_new h h2 s"
    using append_cstr_only_new [OF h 1(3,2) r(1)] r(2) by (auto simp: INT_MAX_def)
  with 1(1) w r show ?thesis by auto
qed

lemma only_new_card:
  assumes "only_new h h' s" and "str_is h' s t" and "ready h"
  shows "card (dom (hmem h') - dom (hmem h)) = 1"
proof -
  obtain p x where p: "sdata s = Some p" "hmem h' p = Some x" using assms(2) by (auto elim: str_isE)
  then have "dom (hmem h') = insert p (dom (hmem h))" using assms(1) by (auto simp: only_new_def dom_def)
  moreover have "p \<notin> dom (hmem h)" using assms(1,3) p(1) by (auto simp: only_new_def ready_def heap_ok_def)
  ultimately have "dom (hmem h') - dom (hmem h) = {p}" by blast
  then show ?thesis by simp
qed

text \<open>The two registered pages.\<close>

definition path_body :: "char list \<Rightarrow> char list" where
  "path_body raw = ''Path='' @ raw"

definition path_headers :: "char list \<Rightarrow> (char list \<times> char list) list" where
  "path_headers raw = home_headers (show_nat (length raw + 5))"

text \<open>What both make of a body that holds \<open>Path=raw\<close>.\<close>

lemma path_prepared:
  assumes "str_is h b (path_body raw)" and "length raw < 256"
  defines "w0 \<equiv> init_resp_ctx\<lparr>resp := (resp init_resp_ctx)\<lparr>p_status := HTTP_STATUS_OK, p_body := b\<rparr>\<rparr>"
  shows "length_string (slen b) = Inr (show_nat (length raw + 5))
     \<and> (\<exists>w. set_headers w0 (path_headers raw) = Inr w \<and> prepared w h 200 (path_headers raw) (path_body raw))"
proof -
  have l: "length (path_body raw) = length raw + 5" by (simp add: path_body_def)
  then have "slen b = int (length raw + 5)" using assms(1) by (simp add: str_is_def)
  moreover have "int (length raw + 5) < INT_MAX" using assms(2) by (simp add: INT_MAX_def)
  ultimately have "length_string (slen b) = Inr (show_nat (length raw + 5))" using length_string_eq by metis
  moreover have "has_headers w0 []" using has_headers_init by (simp add: has_headers_def w0_def)
  from home_prepared [OF this, of h "path_body raw"] have
    "\<exists>w. set_headers w0 (path_headers raw) = Inr w \<and> prepared w h 200 (path_headers raw) (path_body raw)"
    using assms(1,2) l by (simp add: body_is_def w0_def status_codes path_headers_def INT_MAX_def)
  ultimately show ?thesis by blast
qed

lemma home_page_ok:
  assumes "ready h" and "cstring (r_raw_path (req rctx)) = Inr raw" and "length (r_raw_path (req rctx)) = 256"
  shows "\<exists>w h1. home_page init_resp_ctx rctx h = Inr (w, h1) \<and> kept h h1
     \<and> prepared w h1 200 (path_headers raw) (path_body raw) \<and> card (dom (hmem h1) - dom (hmem h)) = 1"
proof -
  from path_string [OF assms] obtain temp h1 s h2 where
    1: "new_string (Some ''Path='') h = Inr (temp, h1)" "append_string_cstr (Some temp) (Some raw) h1 = Inr (True, Some s, h2)"
    "str_is h2 s (path_body raw)" "only_new h h2 s" "length raw < 256" unfolding path_body_def by blast
  from path_prepared [OF 1(3,5)] 1(1,2) assms(2) only_new_kept [OF assms(1) 1(4,3)] only_new_card [OF 1(4,3) assms(1)]
  show ?thesis by (auto simp: home_page_def path_headers_def)
qed

lemma api_home_page_ok:
  assumes "ready h" and "cstring (r_raw_path (req rctx)) = Inr raw" and "length (r_raw_path (req rctx)) = 256"
  shows "\<exists>w h1. api_home_page init_resp_ctx rctx h = Inr (w, h1) \<and> kept h h1
     \<and> prepared w h1 200 (path_headers raw) (path_body raw) \<and> card (dom (hmem h1) - dom (hmem h)) = 2"
proof -
  from path_string [OF assms] obtain temp h1 s h2 where
    1: "new_string (Some ''Path='') h = Inr (temp, h1)" "append_string_cstr (Some temp) (Some raw) h1 = Inr (True, Some s, h2)"
    "str_is h2 s (path_body raw)" "only_new h h2 s" "length raw < 256" unfolding path_body_def by blast
  obtain c h3 where 2: "copy_string s h2 = Inr (c, h3)" "str_is h3 c (path_body raw)" "ready h3"
    "card (dom (hmem h3) - dom (hmem h)) = 2" "\<forall>x \<in> dom (hmem h). hmem h3 x = hmem h x"
    using copy_two_new [OF assms(1) 1(4,3)] by blast
  from path_prepared [OF 2(2) 1(5)] 1(1,2) assms(2) 2 show ?thesis
    by (auto simp: api_home_page_def path_headers_def kept_def)
qed

interpretation home: page_handler home_page 200 path_headers path_body
  by unfold_locales (use home_page_ok in \<open>fastforce simp: prepares_def\<close>)

interpretation api_home: page_handler api_home_page 200 path_headers path_body
  by unfold_locales (use api_home_page_ok in \<open>fastforce simp: prepares_def\<close>)

section \<open>Properties\<close>

text \<open>The two registered pages send the same bytes: for a request with raw target \<open>raw\<close> and memory
  available, status 200, the length of the body, the three fixed headers and the body \<open>Path=raw\<close>;
  \<open>home_page\<close> leaves one new block, which the response owns, \<open>api_home_page\<close> two, one of them lost.\<close>

theorem home_pages_response:
  assumes "ready h" and "cstring (r_raw_path (req rctx)) = Inr raw" and "length (r_raw_path (req rctx)) = 256"
  shows "\<exists>w1 h1 r1 g1 w2 h2 r2 g2.
       home_page init_resp_ctx rctx h = Inr (w1, h1) \<and> generate_response w1 h1 = Inr (r1, g1)
     \<and> str_is g1 r1 (wire 200 (home_headers (show_nat (length raw + 5))) (''Path='' @ raw))
     \<and> card (dom (hmem h1) - dom (hmem h)) = 1
     \<and> api_home_page init_resp_ctx rctx h = Inr (w2, h2) \<and> generate_response w2 h2 = Inr (r2, g2)
     \<and> str_is g2 r2 (wire 200 (home_headers (show_nat (length raw + 5))) (''Path='' @ raw))
     \<and> card (dom (hmem h2) - dom (hmem h)) = 2"
proof -
  obtain w1 h1 where 1: "home_page init_resp_ctx rctx h = Inr (w1, h1)" "kept h h1"
    "prepared w1 h1 200 (path_headers raw) (path_body raw)" "card (dom (hmem h1) - dom (hmem h)) = 1"
    using home_page_ok [OF assms] by blast
  obtain w2 h2 where 2: "api_home_page init_resp_ctx rctx h = Inr (w2, h2)" "kept h h2"
    "prepared w2 h2 200 (path_headers raw) (path_body raw)" "card (dom (hmem h2) - dom (hmem h)) = 2"
    using api_home_page_ok [OF assms] by blast
  have "ready h1" "ready h2" using 1(2) 2(2) by (simp_all add: kept_def)
  from prepared_generate [OF this(1) 1(3)] prepared_generate [OF this(2) 2(3)] 1 2 show ?thesis
    unfolding path_headers_def path_body_def by blast
qed

theorem home_pages_response_witness:
  "\<exists>w h1 r g. home_page init_resp_ctx (request_at ''/'') heap0 = Inr (w, h1) \<and> generate_response w h1 = Inr (r, g)
     \<and> str_is g r (''HTTP/1.1 200 OK'' @ CRLF @ ''Content-Length: 6'' @ CRLF @ ''Content-Type: text/plain'' @ CRLF
          @ ''X-Hackerone-Id: 0xfaisal'' @ CRLF @ ''Connection: close'' @ CRLF @ CRLF @ ''Path=/'')"
proof -
  have p: "no_nul ''/''" "length ''/'' < 256" "no_nul ''Path=/''" by (simp_all add: NUL_def)
  have "show_nat (length ''/'' + 5) = ''6''" "show_int 200 = ''200''" by code_simp+
  then have "wire 200 (home_headers (show_nat (length ''/'' + 5))) (''Path='' @ ''/'')
    = ''HTTP/1.1 200 OK'' @ CRLF @ ''Content-Length: 6'' @ CRLF @ ''Content-Type: text/plain'' @ CRLF
          @ ''X-Hackerone-Id: 0xfaisal'' @ CRLF @ ''Connection: close'' @ CRLF @ CRLF @ ''Path=/''"
    using p(3) by (simp add: wire_def home_headers_def header_value_def status_line_def first_line_def
        get_status_code_def status_codes)
  then show ?thesis
    using home_pages_response [OF ready_heap0 request_at_path(1,2) [OF p(1,2)]] by metis
qed

end
