(* ===== verification/LList.thy ===== *)
theory LList
  imports CMemory Cnet
begin

text \<open>
  The doubly linked list of clients in \<^verbatim>\<open>src/ds/llist.c\<close>.  Nodes live in a heap of their own
  (\<open>nheap\<close>), where an allocation may fail and freed nodes stay invalid; the two loops that follow
  \<open>next\<close> pointers are partial functions, since a cyclic list makes them run for ever.  \<open>dll\<close> relates
  a list to the addresses of its nodes; every function is shown to implement the obvious operation
  on the list of clients.
\<close>

section \<open>Data\<close>

record l_node_t =
  n_client :: client_t
  n_prev :: ptr
  n_next :: ptr

record list_t =
  l_head :: ptr
  l_tail :: ptr

record nheap =
  nmem :: "nat \<rightharpoonup> l_node_t"
  nnext :: nat
  nfail :: "nat \<Rightarrow> bool"

text \<open>Reading a node, writing one of its links, freeing it.\<close>

definition node_at :: "ptr \<Rightarrow> nheap \<Rightarrow> l_node_t res" where
  "node_at p h = (case p of None \<Rightarrow> Inl NullDeref
     | Some a \<Rightarrow> (case nmem h a of None \<Rightarrow> Inl UseAfterFree | Some nd \<Rightarrow> Inr nd))"

definition set_next :: "ptr \<Rightarrow> ptr \<Rightarrow> nheap \<Rightarrow> nheap res" where
  "set_next p q h = rbind (node_at p h) (\<lambda>nd. Inr (h\<lparr>nmem := (nmem h)(the p \<mapsto> nd\<lparr>n_next := q\<rparr>)\<rparr>))"

definition set_prev :: "ptr \<Rightarrow> ptr \<Rightarrow> nheap \<Rightarrow> nheap res" where
  "set_prev p q h = rbind (node_at p h) (\<lambda>nd. Inr (h\<lparr>nmem := (nmem h)(the p \<mapsto> nd\<lparr>n_prev := q\<rparr>)\<rparr>))"

definition free_node :: "ptr \<Rightarrow> nheap \<Rightarrow> nheap res" where
  "free_node p h = (case p of None \<Rightarrow> Inr h
     | Some a \<Rightarrow> if nmem h a = None then Inl BadFree else Inr (h\<lparr>nmem := (nmem h)(a := None)\<rparr>))"

section \<open>The code\<close>

definition init_list :: list_t where
  "init_list = \<lparr>l_head = None, l_tail = None\<rparr>"

text \<open>The \<open>memset\<close> comes before the test for NULL.\<close>

definition insert_client :: "list_t \<Rightarrow> client_t \<Rightarrow> nheap \<Rightarrow> (ptr \<times> list_t \<times> nheap) res" where
  "insert_client list client h =
     (if nfail h (nnext h) then Inl NullDeref
      else
        let node = nnext h;
            nd = \<lparr>n_client = client, n_prev = l_tail list, n_next = None\<rparr>;
            h1 = h\<lparr>nmem := (nmem h)(node \<mapsto> nd), nnext := Suc node\<rparr> in
        rbind (if l_tail list \<noteq> None then set_next (l_tail list) (Some node) h1 else Inr h1) (\<lambda>h2.
        let list1 = list\<lparr>l_tail := Some node\<rparr>;
            list2 = (if l_head list1 = None then list1\<lparr>l_head := Some node\<rparr> else list1) in
        Inr (Some node, list2, h2)))"

text \<open>The loop of \<open>search_client\<close>; the outer option is termination.\<close>

partial_function (option) search_from :: "ptr \<Rightarrow> int \<Rightarrow> nheap \<Rightarrow> ptr res option" where
  "search_from node fd h =
     (case node of None \<Rightarrow> Some (Inr None)
      | Some a \<Rightarrow>
          (case nmem h a of None \<Rightarrow> Some (Inl UseAfterFree)
           | Some nd \<Rightarrow> if cl_fd (n_client nd) = fd then Some (Inr (Some a)) else search_from (n_next nd) fd h))"

definition search_client :: "list_t \<Rightarrow> int \<Rightarrow> nheap \<Rightarrow> ptr res option" where
  "search_client list fd h = search_from (l_head list) fd h"

text \<open>The statements the two removing functions share.\<close>

definition unlink_node :: "list_t \<Rightarrow> ptr \<Rightarrow> nheap \<Rightarrow> (int \<times> list_t \<times> nheap) res" where
  "unlink_node list node h =
     rbind (node_at node h) (\<lambda>nd.
     rbind (if n_prev nd \<noteq> None
            then rbind (set_next (n_prev nd) (n_next nd) h) (\<lambda>h1. Inr (list, h1))
            else Inr (list\<lparr>l_head := n_next nd\<rparr>, h)) (\<lambda>(list1, h1).
     rbind (node_at node h1) (\<lambda>nd1.
     rbind (if n_next nd1 \<noteq> None
            then rbind (set_prev (n_next nd1) (n_prev nd1) h1) (\<lambda>h2. Inr (list1, h2))
            else Inr (list1\<lparr>l_tail := n_prev nd1\<rparr>, h1)) (\<lambda>(list2, h2).
     rbind (free_node node h2) (\<lambda>h3. Inr (0, list2, h3))))))"

definition remove_client_node :: "list_t \<Rightarrow> ptr \<Rightarrow> nheap \<Rightarrow> (int \<times> list_t \<times> nheap) res" where
  "remove_client_node list node h = (if node = None then Inr (1, list, h) else unlink_node list node h)"

definition remove_client_fd :: "list_t \<Rightarrow> int \<Rightarrow> nheap \<Rightarrow> (int \<times> list_t \<times> nheap) res option" where
  "remove_client_fd list fd h =
     map_option (\<lambda>r. rbind r (\<lambda>node. if node = None then Inr (1, list, h) else unlink_node list node h))
       (search_client list fd h)"

text \<open>\<open>free_list\<close> closes the descriptors on the way; \<open>t\<close> is the table of open ones.\<close>

partial_function (option) free_list :: "list_t \<Rightarrow> nheap \<Rightarrow> fds \<Rightarrow> (list_t \<times> nheap \<times> fds) res option" where
  "free_list list h t =
     (case l_head list of None \<Rightarrow> Some (Inr (list, h, t))
      | Some a \<Rightarrow>
          (case nmem h a of None \<Rightarrow> Some (Inl UseAfterFree)
           | Some nd \<Rightarrow> free_list (list\<lparr>l_head := n_next nd\<rparr>) (h\<lparr>nmem := (nmem h)(a := None)\<rparr>)
                         (close_fd (cl_fd (n_client nd)) t)))"

section \<open>Well-formed lists\<close>

text \<open>\<open>lseg m f pv ps l nx\<close>: starting at \<open>f\<close>, whose predecessor is \<open>pv\<close>, the nodes \<open>ps\<close> follow each
  other; \<open>l\<close> is the last of them (or \<open>pv\<close>) and \<open>nx\<close> what follows.\<close>

fun lseg :: "(nat \<rightharpoonup> l_node_t) \<Rightarrow> ptr \<Rightarrow> ptr \<Rightarrow> nat list \<Rightarrow> ptr \<Rightarrow> ptr \<Rightarrow> bool" where
  "lseg m f pv [] l nx \<longleftrightarrow> f = nx \<and> l = pv"
| "lseg m f pv (a # ps) l nx \<longleftrightarrow> f = Some a \<and>
     (case m a of None \<Rightarrow> False | Some nd \<Rightarrow> n_prev nd = pv \<and> lseg m (n_next nd) (Some a) ps l nx)"

definition dll :: "nheap \<Rightarrow> list_t \<Rightarrow> nat list \<Rightarrow> bool" where
  "dll h list ps \<longleftrightarrow> distinct ps \<and> (\<forall>a \<in> set ps. a < nnext h) \<and> (\<forall>a. nnext h \<le> a \<longrightarrow> nmem h a = None)
     \<and> lseg (nmem h) (l_head list) None ps (l_tail list) None"

definition client_at :: "nheap \<Rightarrow> nat \<Rightarrow> client_t" where
  "client_at h a = n_client (the (nmem h a))"

lemma lseg_append:
  "lseg m f pv (ps @ qs) l nx \<longleftrightarrow> (\<exists>l' f'. lseg m f pv ps l' f' \<and> lseg m f' l' qs l nx)"
  by (induction ps arbitrary: f pv) (auto split: option.splits)

lemma lseg_frame: "a \<notin> set ps \<Longrightarrow> lseg (m(a := v)) f pv ps l nx = lseg m f pv ps l nx"
  by (induction ps arbitrary: f pv) (auto split: option.splits)

lemma lseg_live: "lseg m f pv ps l nx \<Longrightarrow> a \<in> set ps \<Longrightarrow> \<exists>nd. m a = Some nd"
  by (induction ps arbitrary: f pv) (auto split: option.splits)

lemma lseg_last: "lseg m f pv (ps @ [a]) l nx \<Longrightarrow> l = Some a"
  by (induction ps arbitrary: f pv) (auto split: option.splits)

text \<open>Redirecting the last \<open>next\<close> pointer, and the first \<open>prev\<close> pointer, of a segment.\<close>

lemma lseg_set_next:
  assumes "lseg m f pv (ps @ [a]) l nx" and "a \<notin> set ps" and "m a = Some nd"
  shows "lseg (m(a \<mapsto> nd\<lparr>n_next := nx'\<rparr>)) f pv (ps @ [a]) l nx'"
  using assms by (auto simp: lseg_append lseg_frame split: option.splits)

lemma lseg_set_prev:
  assumes "lseg m f pv (a # ps) l nx" and "a \<notin> set ps" and "m a = Some nd"
  shows "lseg (m(a \<mapsto> nd\<lparr>n_prev := pv'\<rparr>)) f pv' (a # ps) l nx"
  using assms by (auto simp: lseg_frame)

lemma lseg_head: "lseg m f pv ps l nx \<Longrightarrow> nx = None \<Longrightarrow> f = None \<longleftrightarrow> ps = []"
  by (cases ps) auto

lemma lseg_tail: "lseg m f None ps l nx \<Longrightarrow> l = None \<longleftrightarrow> ps = []"
  by (cases ps rule: rev_cases) (auto dest: lseg_last)

text \<open>What an operation may change: the links of the listed nodes, never a client or anything else.\<close>

definition same_clients :: "nheap \<Rightarrow> nheap \<Rightarrow> nat set \<Rightarrow> nat set \<Rightarrow> bool" where
  "same_clients h h' A B \<longleftrightarrow> (\<forall>x \<in> A. client_at h' x = client_at h x) \<and> (\<forall>x. x \<notin> B \<longrightarrow> nmem h' x = nmem h x)"

lemma insert_client_dll:
  assumes "dll h list ps" and "\<not> nfail h (nnext h)"
  shows "\<exists>list' h'. insert_client list c h = Inr (Some (nnext h), list', h')
     \<and> dll h' list' (ps @ [nnext h]) \<and> client_at h' (nnext h) = c
     \<and> same_clients h h' (set ps) (insert (nnext h) (set ps))
     \<and> nfail h' = nfail h \<and> nnext h' = Suc (nnext h)"
proof (cases ps rule: rev_cases)
  case Nil
  then show ?thesis using assms
    by (auto simp: insert_client_def Let_def dll_def client_at_def same_clients_def)
next
  case (snoc qs q)
  from assms(1) snoc have l: "l_tail list = Some q" "l_head list \<noteq> None"
    using lseg_head [of "nmem h" "l_head list" None ps "l_tail list" None] by (auto simp: dll_def dest: lseg_last)
  from assms(1) snoc obtain nd where nd: "nmem h q = Some nd"
    by (fastforce simp: dll_def dest: lseg_live)
  have q: "q < nnext h" "q \<notin> set qs" "nnext h \<notin> set ps"
    using assms(1) snoc by (auto simp: dll_def)
  let ?n = "nnext h" and ?c = "\<lparr>n_client = c, n_prev = Some q, n_next = None\<rparr>"
  let ?m = "(nmem h)(?n \<mapsto> ?c, q \<mapsto> nd\<lparr>n_next := Some ?n\<rparr>)"
  have "lseg ((nmem h)(?n \<mapsto> ?c)) (l_head list) None (qs @ [q]) (Some q) None"
    using assms(1) snoc q(3) l(1) by (subst lseg_frame) (auto simp: dll_def)
  then have "lseg ?m (l_head list) None (qs @ [q]) (Some q) (Some ?n)"
    using q nd by (intro lseg_set_next) auto
  moreover have "lseg ?m (Some ?n) (Some q) [?n] (Some ?n) None" using q by simp
  ultimately have seg: "lseg ?m (l_head list) None (ps @ [?n]) (Some ?n) None"
    unfolding snoc by (subst lseg_append) blast
  have "insert_client list c h = Inr (Some ?n, list\<lparr>l_tail := Some ?n\<rparr>, h\<lparr>nmem := ?m, nnext := Suc ?n\<rparr>)"
    using assms(2) l nd q(1) by (simp add: insert_client_def Let_def set_next_def node_at_def)
  then show ?thesis
    using seg assms(1) nd snoc q by (fastforce simp: dll_def client_at_def same_clients_def)
qed

lemma search_from_lseg:
  "lseg (nmem h) f pv ps l None \<Longrightarrow>
     search_from f fd h = Some (Inr (find (\<lambda>a. cl_fd (client_at h a) = fd) ps))"
proof (induction ps arbitrary: f pv)
  case Nil
  then show ?case by (subst search_from.simps) simp
next
  case (Cons a ps)
  then show ?case by (subst search_from.simps) (auto simp: client_at_def split: option.splits)
qed

lemma search_client_dll:
  "dll h list ps \<Longrightarrow> search_client list fd h = Some (Inr (find (\<lambda>a. cl_fd (client_at h a) = fd) ps))"
  by (auto simp: dll_def search_client_def intro: search_from_lseg)

text \<open>Unlinking in two steps: the successor's side after the predecessor's.\<close>

lemma unlink_prev:
  assumes "lseg m f None (xs @ a # ys) l None" and "distinct (xs @ a # ys)" and "m a = Some nd"
    and "nmem h = m" and "l_head list = f"
  shows "\<exists>list1 h1. (if n_prev nd \<noteq> None
            then rbind (set_next (n_prev nd) (n_next nd) h) (\<lambda>h1. Inr (list, h1))
            else Inr (list\<lparr>l_head := n_next nd\<rparr>, h)) = Inr (list1, h1)
     \<and> lseg (nmem h1) (l_head list1) None xs (n_prev nd) (n_next nd)
     \<and> lseg (nmem h1) (n_next nd) (Some a) ys l None
     \<and> nmem h1 a = Some nd \<and> l_tail list1 = l_tail list \<and> nnext h1 = nnext h \<and> nfail h1 = nfail h
     \<and> same_clients h h1 (set xs \<union> set ys) (set xs)"
proof (cases xs rule: rev_cases)
  case Nil
  then show ?thesis using assms by (auto simp: same_clients_def)
next
  case (snoc qs q)
  from assms(1,3) obtain l' where s: "lseg m f None xs l' (Some a)" "n_prev nd = l'"
    "lseg m (n_next nd) (Some a) ys l None"
    by (auto simp: lseg_append)
  then have p: "n_prev nd = Some q" using snoc by (auto dest: lseg_last)
  from s(1) snoc obtain qd where qd: "m q = Some qd" by (fastforce dest: lseg_live)
  have d: "q \<notin> set qs" "q \<noteq> a" "q \<notin> set ys" using assms(2) snoc by auto
  let ?m = "m(q \<mapsto> qd\<lparr>n_next := n_next nd\<rparr>)"
  have "lseg ?m f None (qs @ [q]) l' (n_next nd)"
    using s(1) d(1) qd snoc by (intro lseg_set_next) auto
  moreover have "lseg ?m (n_next nd) (Some a) ys l None" using s(3) d by (simp add: lseg_frame)
  ultimately show ?thesis
    using p qd s assms(3-5) d snoc
    by (auto simp: set_next_def node_at_def same_clients_def client_at_def)
qed

lemma unlink_next:
  assumes "lseg m f None xs pv nx" and "lseg m nx (Some a) ys l None" and "distinct (xs @ a # ys)"
    and "nmem h = m" and "m a = Some nd" and "n_prev nd = pv" and "n_next nd = nx"
    and "l_head list = f" and "l_tail list = l"
  shows "\<exists>list1 h1. (if n_next nd \<noteq> None
            then rbind (set_prev (n_next nd) (n_prev nd) h) (\<lambda>h2. Inr (list, h2))
            else Inr (list\<lparr>l_tail := n_prev nd\<rparr>, h)) = Inr (list1, h1)
     \<and> lseg (nmem h1) (l_head list1) None (xs @ ys) (l_tail list1) None
     \<and> nmem h1 a = Some nd \<and> nnext h1 = nnext h \<and> nfail h1 = nfail h
     \<and> same_clients h h1 (set xs \<union> set ys) (set ys)"
proof (cases ys)
  case Nil
  then show ?thesis using assms by (auto simp: same_clients_def)
next
  case (Cons q qs)
  with assms(2) obtain qd where qd: "m q = Some qd" "nx = Some q" by (auto split: option.splits)
  have d: "q \<notin> set qs" "q \<noteq> a" "q \<notin> set xs" using assms(3) Cons by auto
  let ?m = "m(q \<mapsto> qd\<lparr>n_prev := pv\<rparr>)"
  have "lseg ?m nx pv (q # qs) l None"
    using assms(2) d(1) qd(1) Cons by (intro lseg_set_prev) auto
  moreover have "lseg ?m f None xs pv nx" using assms(1) d by (simp add: lseg_frame)
  ultimately have "lseg ?m f None (xs @ ys) l None" using Cons by (auto simp: lseg_append)
  then show ?thesis
    using qd assms(4-9) d Cons
    by (auto simp: set_prev_def node_at_def same_clients_def client_at_def)
qed

lemma unlink_node_dll:
  assumes "dll h list (xs @ a # ys)"
  shows "\<exists>list' h'. unlink_node list (Some a) h = Inr (0, list', h') \<and> dll h' list' (xs @ ys)
     \<and> nmem h' a = None \<and> same_clients h h' (set (xs @ ys)) (set (xs @ a # ys))
     \<and> nfail h' = nfail h \<and> nnext h' = nnext h"
proof -
  let ?l = "l_tail list"
  from assms have seg: "lseg (nmem h) (l_head list) None (xs @ a # ys) ?l None"
    and d: "distinct (xs @ a # ys)" by (auto simp: dll_def)
  then obtain nd where nd: "nmem h a = Some nd" by (fastforce dest: lseg_live)
  from unlink_prev [OF seg d nd refl refl] obtain list1 h1 where 1:
    "(if n_prev nd \<noteq> None then rbind (set_next (n_prev nd) (n_next nd) h) (\<lambda>h1. Inr (list, h1))
      else Inr (list\<lparr>l_head := n_next nd\<rparr>, h)) = Inr (list1, h1)"
    "lseg (nmem h1) (l_head list1) None xs (n_prev nd) (n_next nd)"
    "lseg (nmem h1) (n_next nd) (Some a) ys ?l None" "nmem h1 a = Some nd" "l_tail list1 = ?l"
    "nnext h1 = nnext h" "nfail h1 = nfail h" "same_clients h h1 (set xs \<union> set ys) (set xs)"
    by blast
  from unlink_next [OF 1(2,3) d refl 1(4) refl refl refl 1(5)] obtain list2 h2 where 2:
    "(if n_next nd \<noteq> None then rbind (set_prev (n_next nd) (n_prev nd) h1) (\<lambda>h2. Inr (list1, h2))
      else Inr (list1\<lparr>l_tail := n_prev nd\<rparr>, h1)) = Inr (list2, h2)"
    "lseg (nmem h2) (l_head list2) None (xs @ ys) (l_tail list2) None" "nmem h2 a = Some nd"
    "nnext h2 = nnext h1" "nfail h2 = nfail h1" "same_clients h1 h2 (set xs \<union> set ys) (set ys)"
    by blast
  let ?h3 = "h2\<lparr>nmem := (nmem h2)(a := None)\<rparr>"
  have "unlink_node list (Some a) h = Inr (0, list2, ?h3)"
    unfolding unlink_node_def node_at_def using nd 1(1,4) 2(1,3) by (simp add: free_node_def)
  moreover have "lseg (nmem ?h3) (l_head list2) None (xs @ ys) (l_tail list2) None"
    using 2(2) d by (simp add: lseg_frame)
  moreover have "nmem h2 x = None" if "nnext h \<le> x" for x
  proof -
    have "\<forall>b \<in> set xs \<union> set ys. b < nnext h" using assms by (simp add: dll_def)
    then have "x \<notin> set xs" "x \<notin> set ys" using that not_less by blast+
    then have "nmem h2 x = nmem h x" using 1(8) 2(6) by (simp add: same_clients_def)
    then show ?thesis using assms that by (simp add: dll_def)
  qed
  ultimately show ?thesis
    using assms 1(6-8) 2(4-6) d
    by (auto simp: dll_def same_clients_def client_at_def)
qed

text \<open>\<open>free_list\<close> visits the nodes in order.\<close>

lemma free_list_lseg:
  "lseg (nmem h) (l_head list) pv ps l None \<Longrightarrow> distinct ps \<Longrightarrow>
     free_list list h t = Some (Inr (list\<lparr>l_head := None\<rparr>,
       h\<lparr>nmem := (nmem h)|` (- set ps)\<rparr>, foldl (\<lambda>t a. close_fd (cl_fd (client_at h a)) t) t ps))"
proof (induction ps arbitrary: list h pv t)
  case Nil
  have "nmem h |` UNIV = nmem h" by (simp add: restrict_map_def)
  with Nil show ?case by (subst free_list.simps) simp
next
  case (Cons a ps)
  then obtain nd where nd: "l_head list = Some a" "nmem h a = Some nd"
    "lseg (nmem h) (n_next nd) (Some a) ps l None"
    by (auto split: option.splits)
  let ?h = "h\<lparr>nmem := (nmem h)(a := None)\<rparr>"
  have c: "\<forall>x \<in> set ps. client_at ?h x = client_at h x" using Cons.prems by (auto simp: client_at_def)
  have f: "foldl (\<lambda>t x. close_fd (cl_fd (client_at ?h x)) t) u ps = foldl (\<lambda>t x. close_fd (cl_fd (client_at h x)) t) u ps" for u
    using c by (intro foldl_cong) auto
  have r: "(nmem h)(a := None) |` (- set ps) = nmem h |` (- set (a # ps))"
    by (auto simp: restrict_map_def)
  have s: "lseg (nmem ?h) (l_head (list\<lparr>l_head := n_next nd\<rparr>)) (Some a) ps l None"
    using nd Cons.prems by (simp add: lseg_frame)
  have d: "distinct ps" using Cons.prems(2) by simp
  have "free_list list h t = free_list (list\<lparr>l_head := n_next nd\<rparr>) ?h (close_fd (cl_fd (n_client nd)) t)"
    by (subst free_list.simps) (simp add: nd)
  also have "\<dots> = Some (Inr (list\<lparr>l_head := None\<rparr>, ?h\<lparr>nmem := nmem ?h |` (- set ps)\<rparr>,
      foldl (\<lambda>t x. close_fd (cl_fd (client_at h x)) t) (close_fd (cl_fd (n_client nd)) t) ps))"
    unfolding Cons.IH [OF s d] f by simp
  also have "?h\<lparr>nmem := nmem ?h |` (- set ps)\<rparr> = h\<lparr>nmem := (nmem h)(a := None) |` (- set ps)\<rparr>" by simp
  finally show ?case using nd(2) unfolding r by (simp add: client_at_def)
qed

lemma free_list_dll:
  assumes "dll h list ps"
  shows "\<exists>t'. free_list list h t = Some (Inr (list\<lparr>l_head := None\<rparr>, h\<lparr>nmem := (nmem h)|` (- set ps)\<rparr>, t'))
     \<and> set t' = set t - cl_fd ` client_at h ` set ps"
proof -
  have "set (foldl (\<lambda>t a. close_fd (cl_fd (client_at h a)) t) t ps) = set t - cl_fd ` client_at h ` set ps"
    by (induction ps arbitrary: t) (auto simp: close_fd_def)
  then show ?thesis using assms free_list_lseg by (auto simp: dll_def)
qed

section \<open>The list as a table of clients\<close>

text \<open>The abstract content: the clients in the order in which they were inserted.\<close>

definition holds :: "list_t \<times> nheap \<Rightarrow> client_t list \<Rightarrow> bool" where
  "holds s cs \<longleftrightarrow> (\<exists>ps. dll (snd s) (fst s) ps \<and> cs = map (client_at (snd s)) ps)"

text \<open>A list of clients without the first one that has a given descriptor.\<close>

fun without :: "int \<Rightarrow> client_t list \<Rightarrow> client_t list" where
  "without fd [] = []"
| "without fd (c # cs) = (if cl_fd c = fd then cs else c # without fd cs)"

text \<open>The list holds the descriptors of a table of open ones; when \<open>x\<close> it holds no others, and each once.\<close>

definition tracks :: "bool \<Rightarrow> ('s \<Rightarrow> client_t list \<Rightarrow> bool) \<Rightarrow> 's \<Rightarrow> fds \<Rightarrow> bool" where
  "tracks x rep s t \<longleftrightarrow> (\<exists>cs. rep s cs \<and> set t \<subseteq> cl_fd ` set cs
     \<and> (x \<longrightarrow> distinct (map cl_fd cs) \<and> set (map cl_fd cs) = set t))"

lemma tracks_mono: "tracks x rep s t \<Longrightarrow> \<not> x \<Longrightarrow> set t' \<subseteq> set t \<Longrightarrow> tracks x rep s t'"
  by (auto simp: tracks_def)

lemma without_others: "cl_fd ` set cs - {fd} \<subseteq> cl_fd ` set (without fd cs)"
  by (induction cs) auto

lemma without_fds:
  "distinct (map cl_fd cs) \<Longrightarrow> distinct (map cl_fd (without fd cs)) \<and>
     cl_fd ` set (without fd cs) = cl_fd ` set cs - {fd}"
proof (induction cs)
  case (Cons c cs)
  then show ?case by (cases "cl_fd c = fd") (auto simp del: image_iff)
qed simp

text \<open>The interface the server uses: insert, search, read the client of a node, remove the node.\<close>

locale client_table =
  fixes rep :: "'s \<Rightarrow> client_t list \<Rightarrow> bool"
    and room :: "'s \<Rightarrow> bool"
    and add :: "client_t \<Rightarrow> 's \<Rightarrow> (ptr \<times> 's) res"
    and look :: "int \<Rightarrow> 's \<Rightarrow> ptr res option"
    and client :: "ptr \<Rightarrow> 's \<Rightarrow> client_t res"
    and del :: "ptr \<Rightarrow> 's \<Rightarrow> (int \<times> 's) res"
  assumes add_ok: "rep s cs \<Longrightarrow> room s \<Longrightarrow>
      \<exists>p s'. add c s = Inr (Some p, s') \<and> rep s' (cs @ [c]) \<and> client (Some p) s' = Inr c"
    and look_none: "rep s cs \<Longrightarrow> fd \<notin> cl_fd ` set cs \<Longrightarrow> look fd s = Some (Inr None)"
    and look_some: "rep s cs \<Longrightarrow> fd \<in> cl_fd ` set cs \<Longrightarrow>
      \<exists>p c s'. look fd s = Some (Inr (Some p)) \<and> client (Some p) s = Inr c
        \<and> find (\<lambda>c. cl_fd c = fd) cs = Some c \<and> del (Some p) s = Inr (0, s') \<and> rep s' (without fd cs)"
begin

lemma add_tracks:
  assumes "tracks x rep s t" and "room s" and "cl_fd c \<notin> set t"
  shows "\<exists>p s'. add c s = Inr (Some p, s') \<and> client (Some p) s' = Inr c \<and> tracks x rep s' (cl_fd c # t)"
proof -
  from assms(1) obtain cs where cs: "rep s cs" "set t \<subseteq> cl_fd ` set cs" "x \<longrightarrow> distinct (map cl_fd cs) \<and> set (map cl_fd cs) = set t"
    by (auto simp: tracks_def)
  with add_ok [OF cs(1) assms(2), of c] obtain p s' where "add c s = Inr (Some p, s')" "rep s' (cs @ [c])"
    "client (Some p) s' = Inr c" by blast
  moreover have "set (cl_fd c # t) \<subseteq> cl_fd ` set (cs @ [c])" using cs(2) by auto
  moreover have "x \<longrightarrow> distinct (map cl_fd (cs @ [c])) \<and> set (map cl_fd (cs @ [c])) = set (cl_fd c # t)"
    using cs(3) assms(3) by auto
  ultimately show ?thesis unfolding tracks_def by blast
qed

lemma found_tracks:
  assumes "tracks x rep s t" and "look fd s \<noteq> Some (Inr None)"
  shows "\<exists>p c s'. look fd s = Some (Inr (Some p)) \<and> client (Some p) s = Inr c \<and> cl_fd c = fd
            \<and> del (Some p) s = Inr (0, s') \<and> tracks x rep s' (conn_close c t)"
proof -
  from assms(1) obtain cs where cs: "rep s cs" "set t \<subseteq> cl_fd ` set cs"
    "x \<Longrightarrow> distinct (map cl_fd cs)" "x \<Longrightarrow> cl_fd ` set cs = set t"
    by (auto simp: tracks_def)
  have "fd \<in> cl_fd ` set cs" using look_none [OF cs(1)] assms(2) by blast
  from look_some [OF cs(1) this] obtain p c s' where 1: "look fd s = Some (Inr (Some p))"
    "client (Some p) s = Inr c" "find (\<lambda>c. cl_fd c = fd) cs = Some c" "del (Some p) s = Inr (0, s')"
    "rep s' (without fd cs)" by blast
  then have c: "cl_fd c = fd" by (auto simp: find_Some_iff)
  have "set (conn_close c t) \<subseteq> cl_fd ` set (without fd cs)"
    using cs(2) without_others [of cs fd] c by (auto simp: conn_close_def close_fd_def)
  moreover have "distinct (map cl_fd (without fd cs)) \<and> set (map cl_fd (without fd cs)) = set (conn_close c t)" if "x"
    using without_fds [OF cs(3) [OF that], of fd] cs(4) [OF that] c by (simp add: conn_close_def close_fd_def)
  ultimately have "tracks x rep s' (conn_close c t)" using 1(5) unfolding tracks_def by blast
  with 1 c show ?thesis by auto
qed

lemma listed_tracks: "tracks x rep s t \<Longrightarrow> fd \<in> set t \<Longrightarrow> look fd s \<noteq> Some (Inr None)"
  using look_some by (fastforce simp: tracks_def)

lemma gone_tracks: "tracks True rep s t \<Longrightarrow> fd \<notin> set t \<Longrightarrow> look fd s = Some (Inr None)"
  using look_none by (auto simp: tracks_def)

end

text \<open>A pointer to a client stays good while other clients come and go.\<close>

locale client_nodes = client_table rep room add look client del
  for rep :: "'s \<Rightarrow> client_t list \<Rightarrow> bool"
    and room :: "'s \<Rightarrow> bool"
    and add :: "client_t \<Rightarrow> 's \<Rightarrow> (ptr \<times> 's) res"
    and look :: "int \<Rightarrow> 's \<Rightarrow> ptr res option"
    and client :: "ptr \<Rightarrow> 's \<Rightarrow> client_t res"
    and del :: "ptr \<Rightarrow> 's \<Rightarrow> (int \<times> 's) res" +
  assumes add_frame: "rep s cs \<Longrightarrow> add c s = Inr (Some p, s') \<Longrightarrow> client q s = Inr d \<Longrightarrow> client q s' = Inr d"
    and del_frame: "rep s cs \<Longrightarrow> look fd s = Some (Inr (Some p)) \<Longrightarrow> del (Some p) s = Inr (n, s') \<Longrightarrow>
      client q s = Inr d \<Longrightarrow> q \<noteq> Some p \<Longrightarrow> client q s' = Inr d"
    and look_add: "rep s cs \<Longrightarrow> add c s = Inr (Some p, s') \<Longrightarrow> look fd s = Some (Inr q) \<Longrightarrow>
      look fd s' = Some (Inr (if q = None \<and> cl_fd c = fd then Some p else q))"
    and look_del: "rep s cs \<Longrightarrow> look fd s = Some (Inr (Some p)) \<Longrightarrow> del (Some p) s = Inr (n, s') \<Longrightarrow> fd' \<noteq> fd \<Longrightarrow>
      look fd' s' = look fd' s"
begin

lemma gone_others:
  assumes "tracks x rep s t" and "look fd s = Some (Inr (Some p))" and "client (Some p) s = Inr c" and "cl_fd c = fd"
    and "del (Some p) s = Inr (n, s')" and "client q s = Inr d" and "cl_fd d \<noteq> fd"
  shows "client q s' = Inr d"
proof -
  have "q \<noteq> Some p" using assms(3,4,6,7) by auto
  then show ?thesis using assms del_frame by (auto simp: tracks_def)
qed

end

text \<open>The linked list provides it.\<close>

definition list_add :: "client_t \<Rightarrow> list_t \<times> nheap \<Rightarrow> (ptr \<times> list_t \<times> nheap) res" where
  "list_add c s = insert_client (fst s) c (snd s)"

definition list_look :: "int \<Rightarrow> list_t \<times> nheap \<Rightarrow> ptr res option" where
  "list_look fd s = search_client (fst s) fd (snd s)"

definition list_client :: "ptr \<Rightarrow> list_t \<times> nheap \<Rightarrow> client_t res" where
  "list_client p s = rbind (node_at p (snd s)) (\<lambda>nd. Inr (n_client nd))"

definition list_del :: "ptr \<Rightarrow> list_t \<times> nheap \<Rightarrow> (int \<times> list_t \<times> nheap) res" where
  "list_del p s = remove_client_node (fst s) p (snd s)"

definition list_room :: "list_t \<times> nheap \<Rightarrow> bool" where
  "list_room s \<longleftrightarrow> \<not> nfail (snd s) (nnext (snd s))"

lemma find_split:
  "find P xs = Some a \<Longrightarrow> \<exists>us vs. xs = us @ a # vs \<and> P a \<and> (\<forall>u \<in> set us. \<not> P u)"
proof (induction xs)
  case (Cons x xs)
  show ?case
  proof (cases "P x")
    case True
    then show ?thesis using Cons.prems by (intro exI [of _ "[]"] exI [of _ xs]) simp
  next
    case False
    then obtain us vs where "xs = us @ a # vs" "P a" "\<forall>u \<in> set us. \<not> P u" using Cons by auto
    then show ?thesis using False by (intro exI [of _ "x # us"] exI [of _ vs]) simp
  qed
qed simp

lemma without_split:
  "\<forall>u \<in> set us. cl_fd u \<noteq> fd \<Longrightarrow> cl_fd c = fd \<Longrightarrow> without fd (us @ c # vs) = us @ vs"
  by (induction us) auto

lemma find_map: "find P (map f xs) = map_option f (find (P \<circ> f) xs)"
  by (induction xs) auto

text \<open>Removing the node the search has found.\<close>

lemma found_removed:
  assumes "dll h list ps" and "find (\<lambda>a. cl_fd (client_at h a) = fd) ps = Some a"
  shows "\<exists>list' h'. unlink_node list (Some a) h = Inr (0, list', h')
     \<and> holds (list', h') (without fd (map (client_at h) ps)) \<and> dom (nmem h') = dom (nmem h) - {a}"
proof -
  from find_split [OF assms(2)] obtain us vs where u: "ps = us @ a # vs" "cl_fd (client_at h a) = fd"
    "\<forall>u \<in> set us. cl_fd (client_at h u) \<noteq> fd" by blast
  from unlink_node_dll [of h list us a vs] assms(1) u(1) obtain list' h' where
    1: "unlink_node list (Some a) h = Inr (0, list', h')" "dll h' list' (us @ vs)" "nmem h' a = None"
    "same_clients h h' (set (us @ vs)) (set ps)" by auto
  have "map (client_at h') (us @ vs) = map (client_at h) (us @ vs)"
    using 1(4) by (simp add: same_clients_def)
  moreover have "without fd (map (client_at h) ps) = map (client_at h) (us @ vs)"
    using u by (simp add: without_split)
  ultimately have "holds (list', h') (without fd (map (client_at h) ps))"
    using 1(2) by (auto simp: holds_def simp del: map_append)
  moreover have "nmem h' x = None \<longleftrightarrow> nmem h x = None \<or> x = a" for x
  proof (cases "x \<in> set (us @ vs)")
    case True
    then have "nmem h x \<noteq> None" "nmem h' x \<noteq> None" "x \<noteq> a"
      using 1(2) assms(1) u(1) by (auto simp: dll_def lseg_append dest: lseg_live split: option.splits)
    then show ?thesis by blast
  next
    case False
    then show ?thesis using 1(3,4) u(1) assms(1) by (cases "x = a") (auto simp: same_clients_def)
  qed
  then have "dom (nmem h') = dom (nmem h) - {a}" by (simp add: dom_def set_eq_iff)
  ultimately show ?thesis using 1(1) by blast
qed

interpretation clients: client_table holds list_room list_add list_look list_client list_del
proof
  fix s cs c
  assume "holds s cs" "list_room s"
  then obtain ps where ps: "dll (snd s) (fst s) ps" "cs = map (client_at (snd s)) ps"
    "\<not> nfail (snd s) (nnext (snd s))" by (auto simp: holds_def list_room_def)
  from insert_client_dll [OF ps(1,3), of c] obtain list' h' where
    1: "insert_client (fst s) c (snd s) = Inr (Some (nnext (snd s)), list', h')"
    "dll h' list' (ps @ [nnext (snd s)])" "client_at h' (nnext (snd s)) = c"
    "same_clients (snd s) h' (set ps) (insert (nnext (snd s)) (set ps))" by blast
  have "map (client_at h') (ps @ [nnext (snd s)]) = cs @ [c]"
    using 1(3,4) ps(2) by (simp add: same_clients_def)
  then have "holds (list', h') (cs @ [c])" using 1(2) by (metis fst_conv holds_def snd_conv)
  moreover have "list_client (Some (nnext (snd s))) (list', h') = Inr c"
    using 1(2,3) by (auto simp: list_client_def node_at_def client_at_def dll_def lseg_append split: option.splits)
  ultimately show "\<exists>p s'. list_add c s = Inr (Some p, s') \<and> holds s' (cs @ [c]) \<and> list_client (Some p) s' = Inr c"
    using 1(1) by (auto simp: list_add_def)
next
  fix s cs fd
  assume "holds s cs" and "fd \<notin> cl_fd ` set cs"
  then show "list_look fd s = Some (Inr None)"
    by (auto simp: holds_def list_look_def search_client_dll find_None_iff)
next
  fix s cs fd
  assume "holds s cs" and fd: "fd \<in> cl_fd ` set cs"
  then obtain ps where ps: "dll (snd s) (fst s) ps" "cs = map (client_at (snd s)) ps"
    by (auto simp: holds_def)
  with fd have "find (\<lambda>a. cl_fd (client_at (snd s) a) = fd) ps \<noteq> None" by (auto simp: find_None_iff)
  then obtain a where a: "find (\<lambda>a. cl_fd (client_at (snd s) a) = fd) ps = Some a" by blast
  then have "a \<in> set ps" by (auto simp: find_Some_iff)
  then have c: "list_client (Some a) s = Inr (client_at (snd s) a)"
    using ps(1) by (fastforce simp: list_client_def node_at_def client_at_def dll_def dest: lseg_live)
  have l: "list_look fd s = Some (Inr (Some a))"
    using search_client_dll [OF ps(1)] a by (simp add: list_look_def)
  have f: "find (\<lambda>c. cl_fd c = fd) cs = Some (client_at (snd s) a)"
    using a ps(2) by (simp add: find_map comp_def)
  from found_removed [OF ps(1) a] obtain list' h' where
    "unlink_node (fst s) (Some a) (snd s) = Inr (0, list', h')" "holds (list', h') (without fd cs)"
    using ps(2) by blast
  then have "list_del (Some a) s = Inr (0, list', h')" "holds (list', h') (without fd cs)"
    by (simp_all add: list_del_def remove_client_node_def)
  with l c f show "\<exists>p c s'. list_look fd s = Some (Inr (Some p)) \<and> list_client (Some p) s = Inr c
      \<and> find (\<lambda>c. cl_fd c = fd) cs = Some c \<and> list_del (Some p) s = Inr (0, s') \<and> holds s' (without fd cs)"
    by blast
qed

text \<open>A removed node is gone.\<close>

lemma list_del_freed:
  assumes "tracks x holds s t" and "list_look fd s = Some (Inr (Some p))" and "list_del (Some p) s = Inr (n, s')"
  shows "list_client (Some p) s' = Inl UseAfterFree"
proof -
  obtain ps where ps: "dll (snd s) (fst s) ps" using assms(1) by (auto simp: tracks_def holds_def)
  with assms(2) have "p \<in> set ps" by (auto simp: list_look_def search_client_dll find_Some_iff)
  then obtain us vs where u: "ps = us @ p # vs" by (auto simp: in_set_conv_decomp)
  obtain list' h' where "unlink_node (fst s) (Some p) (snd s) = Inr (0, list', h')" "nmem h' p = None"
    using unlink_node_dll [of "snd s" "fst s" us p vs] ps u by auto
  then show ?thesis
    using assms(3) by (auto simp: list_del_def remove_client_node_def list_client_def node_at_def)
qed

lemma find_append: "find P (xs @ ys) = (case find P xs of None \<Rightarrow> find P ys | Some x \<Rightarrow> Some x)"
  by (induction xs) auto

interpretation nodes: client_nodes holds list_room list_add list_look list_client list_del
proof
  fix s cs c p s' q d
  assume "holds s cs" and a: "list_add c s = Inr (Some p, s')" and q: "list_client q s = Inr d"
  then obtain ps where ps: "dll (snd s) (fst s) ps" by (auto simp: holds_def)
  have r: "\<not> nfail (snd s) (nnext (snd s))" using a by (auto simp: list_add_def insert_client_def)
  obtain list' h' where 1: "insert_client (fst s) c (snd s) = Inr (Some (nnext (snd s)), list', h')"
    "same_clients (snd s) h' (set ps) (insert (nnext (snd s)) (set ps))" "dll h' list' (ps @ [nnext (snd s)])"
    using insert_client_dll [OF ps r, of c] by blast
  obtain x where x: "q = Some x" "nmem (snd s) x \<noteq> None" "client_at (snd s) x = d"
    using q by (auto simp: list_client_def node_at_def client_at_def split: option.splits)
  then have "x \<noteq> nnext (snd s)" using ps by (auto simp: dll_def)
  then have "client_at h' x = d \<and> nmem h' x \<noteq> None"
    using 1(2,3) x by (cases "x \<in> set ps")
      (auto simp: same_clients_def client_at_def dll_def lseg_append dest: lseg_live)
  then show "list_client q s' = Inr d"
    using a 1(1) x(1) by (auto simp: list_add_def list_client_def node_at_def client_at_def)
next
  fix s cs fd p n s' q d
  assume "holds s cs" and l: "list_look fd s = Some (Inr (Some p))" and a: "list_del (Some p) s = Inr (n, s')"
    and q: "list_client q s = Inr d" "q \<noteq> Some p"
  then obtain ps where ps: "dll (snd s) (fst s) ps" by (auto simp: holds_def)
  from l ps have "p \<in> set ps" by (auto simp: list_look_def search_client_dll find_Some_iff)
  then obtain us vs where u: "ps = us @ p # vs" by (auto simp: in_set_conv_decomp)
  obtain list' h' where 1: "unlink_node (fst s) (Some p) (snd s) = Inr (0, list', h')" "dll h' list' (us @ vs)"
    "same_clients (snd s) h' (set (us @ vs)) (set ps)"
    using unlink_node_dll [of "snd s" "fst s" us p vs] ps u by auto
  obtain x where x: "q = Some x" "nmem (snd s) x \<noteq> None" "client_at (snd s) x = d" "x \<noteq> p"
    using q by (auto simp: list_client_def node_at_def client_at_def split: option.splits)
  then have "client_at h' x = d \<and> nmem h' x \<noteq> None"
    using 1(2,3) x u by (cases "x \<in> set (us @ vs)")
      (fastforce simp: same_clients_def client_at_def dll_def dest: lseg_live)+
  then show "list_client q s' = Inr d"
    using a 1(1) x(1) by (auto simp: list_del_def remove_client_node_def list_client_def node_at_def client_at_def)
next
  fix s cs c p s' fd q
  assume "holds s cs" and a: "list_add c s = Inr (Some p, s')" and q: "list_look fd s = Some (Inr q)"
  then obtain ps where ps: "dll (snd s) (fst s) ps" by (auto simp: holds_def)
  have r: "\<not> nfail (snd s) (nnext (snd s))" using a by (auto simp: list_add_def insert_client_def)
  obtain list' h' where 1: "insert_client (fst s) c (snd s) = Inr (Some (nnext (snd s)), list', h')"
    "same_clients (snd s) h' (set ps) (insert (nnext (snd s)) (set ps))" "dll h' list' (ps @ [nnext (snd s)])"
    "client_at h' (nnext (snd s)) = c"
    using insert_client_dll [OF ps r, of c] by blast
  have s': "p = nnext (snd s)" "s' = (list', h')" using a 1(1) by (auto simp: list_add_def)
  have "find (\<lambda>a. cl_fd (client_at h' a) = fd) ps = find (\<lambda>a. cl_fd (client_at (snd s) a) = fd) ps"
    using 1(2) by (intro find_cong) (auto simp: same_clients_def)
  then show "list_look fd s' = Some (Inr (if q = None \<and> cl_fd c = fd then Some p else q))"
    using q search_client_dll [OF ps] search_client_dll [OF 1(3)] 1(4) s'
    by (auto simp: list_look_def find_append split: option.split)
next
  fix s cs fd p n s' fd'
  assume "holds s cs" and l: "list_look fd s = Some (Inr (Some p))" and a: "list_del (Some p) s = Inr (n, s')"
    and n: "fd' \<noteq> fd"
  then obtain ps where ps: "dll (snd s) (fst s) ps" by (auto simp: holds_def)
  from l ps have p: "p \<in> set ps" "cl_fd (client_at (snd s) p) = fd"
    by (auto simp: list_look_def search_client_dll find_Some_iff)
  then obtain us vs where u: "ps = us @ p # vs" by (auto simp: in_set_conv_decomp)
  obtain list' h' where 1: "unlink_node (fst s) (Some p) (snd s) = Inr (0, list', h')" "dll h' list' (us @ vs)"
    "same_clients (snd s) h' (set (us @ vs)) (set ps)"
    using unlink_node_dll [of "snd s" "fst s" us p vs] ps u by auto
  have "s' = (list', h')" using a 1(1) by (simp add: list_del_def remove_client_node_def)
  moreover have "find (\<lambda>a. cl_fd (client_at h' a) = fd') (us @ vs) = find (\<lambda>a. cl_fd (client_at (snd s) a) = fd') (us @ vs)"
    using 1(3) by (intro find_cong) (auto simp: same_clients_def)
  ultimately show "list_look fd' s' = list_look fd' s"
    using search_client_dll [OF ps] search_client_dll [OF 1(2)] p(2) n u
    by (simp add: list_look_def find_append cong: option.case_cong)
qed

section \<open>Properties\<close>

definition nheap0 :: nheap where
  "nheap0 = \<lparr>nmem = (\<lambda>_. None), nnext = 0, nfail = (\<lambda>_. False)\<rparr>"

definition client_n :: "int \<Rightarrow> client_t" where
  "client_n fd = \<lparr>cl_fd = fd, cl_addr = \<lparr>sin_port = 0, sin_addr = 0\<rparr>, c_addr = addr0, cl_err = 0\<rparr>"

text \<open>Two clients, descriptors 4 and 5.\<close>

definition two_nodes :: nheap where
  "two_nodes = nheap0\<lparr>nmem := [0 \<mapsto> \<lparr>n_client = client_n 4, n_prev = None, n_next = Some 1\<rparr>,
                                1 \<mapsto> \<lparr>n_client = client_n 5, n_prev = Some 0, n_next = None\<rparr>], nnext := 2\<rparr>"

definition two_list :: list_t where
  "two_list = \<lparr>l_head = Some 0, l_tail = Some 1\<rparr>"

lemma two_dll: "dll two_nodes two_list [0, 1]"
  by (simp add: dll_def two_nodes_def nheap0_def two_list_def)

lemma two_holds: "holds (two_list, two_nodes) [client_n 4, client_n 5]"
  unfolding holds_def using two_dll
  by (intro exI [of _ "[0, 1]"]) (simp add: two_nodes_def nheap0_def client_at_def)

lemma init_holds: "holds (init_list, nheap0) []"
  by (auto simp: holds_def init_list_def dll_def nheap0_def intro!: exI [of _ "[]"])

text \<open>Insertion appends: on a well-formed list \<open>insert_client\<close> returns a node holding the client,
  and the list then holds the old clients followed by the new one.  When \<open>malloc\<close> fails it does not
  report the failure but clears the null pointer first.\<close>

theorem insert_client_spec:
  assumes "holds (list, h) cs"
  shows "if nfail h (nnext h) then insert_client list c h = Inl NullDeref
         else \<exists>a list' h'. insert_client list c h = Inr (Some a, list', h') \<and> holds (list', h') (cs @ [c])
                \<and> list_client (Some a) (list', h') = Inr c"
  using clients.add_ok [OF assms, of c]
  by (auto simp: list_add_def list_room_def insert_client_def)

theorem insert_client_spec_witness:
  "(\<exists>a list' h'. insert_client two_list (client_n 9) two_nodes = Inr (Some a, list', h')
      \<and> holds (list', h') [client_n 4, client_n 5, client_n 9])
   \<and> insert_client init_list (client_n 4) (nheap0\<lparr>nfail := \<lambda>_. True\<rparr>) = Inl NullDeref"
proof -
  have "holds (init_list, nheap0\<lparr>nfail := \<lambda>_. True\<rparr>) []"
    by (auto simp: holds_def init_list_def dll_def nheap0_def intro!: exI [of _ "[]"])
  from insert_client_spec [OF two_holds, of "client_n 9"] insert_client_spec [OF this, of "client_n 4"]
  show ?thesis by (auto simp: two_nodes_def nheap0_def)
qed

text \<open>Removal by descriptor: the search always ends; with a client of that descriptor on the
  list the first such node, and nothing else, is unlinked and freed and 0 returned; without one,
  1 is returned and nothing changes.\<close>

theorem remove_client_fd_spec:
  assumes "holds (list, h) cs"
  shows "if fd \<in> cl_fd ` set cs
         then \<exists>a list' h'. remove_client_fd list fd h = Some (Inr (0, list', h'))
                \<and> holds (list', h') (without fd cs) \<and> dom (nmem h') = dom (nmem h) - {a}
                \<and> list_client (Some a) (list, h) = Inr (the (find (\<lambda>c. cl_fd c = fd) cs))
         else remove_client_fd list fd h = Some (Inr (1, list, h))"
proof -
  from assms obtain ps where ps: "dll h list ps" "cs = map (client_at h) ps" by (auto simp: holds_def)
  note s = search_client_dll [OF ps(1), of fd]
  show ?thesis
  proof (cases "find (\<lambda>a. cl_fd (client_at h a) = fd) ps")
    case None
    then show ?thesis using s ps(2) by (auto simp: remove_client_fd_def find_None_iff)
  next
    case (Some a)
    then have a: "a \<in> set ps" "cl_fd (client_at h a) = fd" by (auto simp: find_Some_iff)
    have "list_client (Some a) (list, h) = Inr (client_at h a)"
      using ps(1) a(1) by (fastforce simp: list_client_def node_at_def client_at_def dll_def dest: lseg_live)
    moreover have "find (\<lambda>c. cl_fd c = fd) cs = Some (client_at h a)"
      using Some ps(2) by (simp add: find_map comp_def)
    ultimately show ?thesis
      using found_removed [OF ps(1) Some] s Some ps(2) a by (auto simp: remove_client_fd_def)
  qed
qed

theorem remove_client_fd_spec_witness:
  "(\<exists>list' h'. remove_client_fd two_list 4 two_nodes = Some (Inr (0, list', h')) \<and> holds (list', h') [client_n 5])
   \<and> remove_client_fd two_list 7 two_nodes = Some (Inr (1, two_list, two_nodes))"
  using remove_client_fd_spec [OF two_holds, of 4] remove_client_fd_spec [OF two_holds, of 7]
  by (auto simp: client_n_def)

text \<open>\<open>free_list\<close> ends, frees every node of the list and nothing else, closes the descriptors of all
  clients, and leaves \<open>head\<close> NULL; \<open>tail\<close> keeps pointing to the freed last node, so the list cannot
  be used again.\<close>

theorem free_list_spec:
  assumes "dll h list ps"
  shows "\<exists>list' h' t'. free_list list h t = Some (Inr (list', h', t'))
     \<and> nmem h' = nmem h |` (- set ps) \<and> set t' = set t - cl_fd ` client_at h ` set ps
     \<and> l_head list' = None \<and> l_tail list' = l_tail list
     \<and> (ps \<noteq> [] \<longrightarrow> \<not> nfail h (nnext h) \<longrightarrow> insert_client list' c h' = Inl UseAfterFree)"
proof -
  let ?h = "h\<lparr>nmem := nmem h |` (- set ps)\<rparr>" and ?l = "list\<lparr>l_head := None\<rparr>"
  obtain t' where f: "free_list list h t = Some (Inr (?l, ?h, t'))"
    "set t' = set t - cl_fd ` client_at h ` set ps" using free_list_dll [OF assms] by blast
  have "insert_client ?l c ?h = Inl UseAfterFree" if ne: "ps \<noteq> []" "\<not> nfail h (nnext h)"
  proof -
    have "lseg (nmem h) (l_head list) None (butlast ps @ [last ps]) (l_tail list) None"
      using assms ne(1) by (simp add: dll_def)
    then have "l_tail list = Some (last ps)" by (rule lseg_last)
    moreover have "last ps < nnext h" "last ps \<in> set ps" using assms ne(1) by (auto simp: dll_def)
    ultimately show ?thesis
      using ne(2) by (simp add: insert_client_def Let_def set_next_def node_at_def)
  qed
  with f show ?thesis by auto
qed

theorem free_list_spec_witness:
  "\<exists>list' h' t'. free_list two_list two_nodes [3, 4, 5] = Some (Inr (list', h', t'))
     \<and> set t' = {3} \<and> nmem h' = Map.empty"
proof -
  from free_list_spec [OF two_dll, of "[3, 4, 5]" "client_n 9"] obtain list' h' t' where
    1: "free_list two_list two_nodes [3, 4, 5] = Some (Inr (list', h', t'))"
    "nmem h' = nmem two_nodes |` (- set [0, 1])"
    "set t' = set [3, 4, 5] - cl_fd ` client_at two_nodes ` set [0, 1]" by blast
  have "set [3, 4, 5] - cl_fd ` client_at two_nodes ` set [0, 1] = {3}"
    by (auto simp: client_at_def two_nodes_def client_n_def)
  moreover have "nmem two_nodes |` (- set [0, 1]) = Map.empty"
    by (rule ext) (simp add: two_nodes_def nheap0_def restrict_map_def)
  ultimately show ?thesis using 1 by metis
qed

end
