(* ===== verification/Route.thy ===== *)
theory Route
  imports Buffer
begin

text \<open>
  The route table of \<^verbatim>\<open>src/route.c\<close>: paths are duplicated on the heap and put into a hash table of
  the third-party header \<^verbatim>\<open>khash.h\<close>.  The table is a parameter: a record of the operations the code
  uses, with \<open>khash_spec\<close> the behaviour that header documents.  A key is its heap address together
  with the characters there.
\<close>

section \<open>The hash table\<close>

type_synonym key = "nat \<times> char list"

record ('m, 'v) khash =
  kh_init :: "'m option"                        \<comment> \<open>\<open>None\<close> when out of memory\<close>
  kh_put :: "'m \<Rightarrow> key \<Rightarrow> nat \<times> int \<times> 'm"        \<comment> \<open>bucket, \<open>ret\<close>, table\<close>
  kh_get :: "'m \<Rightarrow> char list \<Rightarrow> nat"
  kh_end :: "'m \<Rightarrow> nat"
  kh_exist :: "'m \<Rightarrow> nat \<Rightarrow> bool"
  kh_key :: "'m \<Rightarrow> nat \<Rightarrow> key"
  kh_value :: "'m \<Rightarrow> nat \<Rightarrow> 'v"
  kh_set :: "'m \<Rightarrow> nat \<Rightarrow> 'v \<Rightarrow> 'm"             \<comment> \<open>\<open>kh_value(h, k) = v\<close>\<close>

text \<open>The entry a table has for a string: the stored key's address and the value.\<close>

definition entry :: "('m, 'v) khash \<Rightarrow> 'm \<Rightarrow> char list \<Rightarrow> (nat \<times> 'v) option" where
  "entry K m s = (if kh_get K m s = kh_end K m then None
     else Some (fst (kh_key K m (kh_get K m s)), kh_value K m (kh_get K m s)))"

text \<open>What \<^verbatim>\<open>khash.h\<close> documents, for the tables it produces (\<open>good\<close>): \<open>kh_get\<close> answers the occupied
  bucket of the string or \<open>kh_end\<close>; every occupied bucket is the one \<open>kh_get\<close> finds for its key;
  \<open>kh_put\<close> answers -1 when it runs out of memory, 0 for a key that is present, a positive number
  for a new one, which then has the value assigned to its bucket.\<close>

definition khash_spec :: "('m, 'v) khash \<Rightarrow> ('m \<Rightarrow> bool) \<Rightarrow> bool" where
  "khash_spec K good \<longleftrightarrow>
     (\<forall>m. kh_init K = Some m \<longrightarrow> good m \<and> (\<forall>s. entry K m s = None))
   \<and> (\<forall>m s. good m \<longrightarrow> kh_get K m s \<noteq> kh_end K m \<longrightarrow> kh_get K m s < kh_end K m
        \<and> kh_exist K m (kh_get K m s) \<and> snd (kh_key K m (kh_get K m s)) = s)
   \<and> (\<forall>m k. good m \<longrightarrow> k < kh_end K m \<longrightarrow> kh_exist K m k \<longrightarrow> kh_get K m (snd (kh_key K m k)) = k)
   \<and> (\<forall>m a s it r m'. good m \<longrightarrow> kh_put K m (a, s) = (it, r, m') \<longrightarrow>
        (r = -1 \<or> (if entry K m s = None then 0 < r else r = 0))
        \<and> (r \<le> 0 \<longrightarrow> good m' \<and> (\<forall>t. entry K m' t = entry K m t))
        \<and> (0 < r \<longrightarrow> (\<forall>v. good (kh_set K m' it v)
              \<and> (\<forall>t. entry K (kh_set K m' it v) t = (if t = s then Some (a, v) else entry K m t)))))"

section \<open>The code\<close>

record 'f route_handler_t =
  func :: 'f

text \<open>\<open>strdup\<close> of the C library.\<close>

definition strdup :: "char list \<Rightarrow> heap \<Rightarrow> (ptr \<times> heap) res" where
  "strdup s h = (case malloc (length s + 1) h of
       (None, h1) \<Rightarrow> Inr (None, h1)
     | (Some p, h1) \<Rightarrow> rbind (store (Some p) 0 (s @ [NUL]) h1) (\<lambda>h2. Inr (Some p, h2)))"

text \<open>\<open>init_route\<close>: the result and the pointer stored in the struct.\<close>

definition init_route :: "('m, 'f route_handler_t) khash \<Rightarrow> int \<times> 'm option" where
  "init_route K = (case kh_init K of None \<Rightarrow> (1, None) | Some m \<Rightarrow> (0, Some m))"

text \<open>A key that could not be duplicated is NULL, which hashing dereferences.\<close>

definition route_register ::
  "('m, 'f route_handler_t) khash \<Rightarrow> 'm \<Rightarrow> char list \<Rightarrow> 'f \<Rightarrow> heap \<Rightarrow> (int \<times> 'm \<times> heap) res" where
  "route_register K route path f h =
     (let handler = \<lparr>func = f\<rparr> in
      rbind (strdup path h) (\<lambda>(key, h1).
      case key of None \<Rightarrow> Inl NullDeref
      | Some a \<Rightarrow>
          (case kh_put K route (a, path) of (it, ret, route1) \<Rightarrow>
             if ret = -1 then Inr (1, route1, h1)
             else if ret = 0 then Inr (2, route1, h1)
             else Inr (0, kh_set K route1 it handler, h1))))"

fun free_keys :: "('m, 'v) khash \<Rightarrow> 'm \<Rightarrow> nat list \<Rightarrow> heap \<Rightarrow> heap res" where
  "free_keys K m [] h = Inr h"
| "free_keys K m (k # ks) h =
     rbind (if kh_exist K m k then free (Some (fst (kh_key K m k))) h else Inr h) (free_keys K m ks)"

definition destroy_route :: "('m, 'f route_handler_t) khash \<Rightarrow> 'm \<Rightarrow> heap \<Rightarrow> (int \<times> heap) res" where
  "destroy_route K route h = rbind (free_keys K route [0..<kh_end K route] h) (\<lambda>h'. Inr (0, h'))"

text \<open>\<open>route_lookup\<close>: the result and \<open>*handler\<close>, which keeps its content when nothing is found.\<close>

definition route_lookup ::
  "('m, 'f route_handler_t) khash \<Rightarrow> 'f route_handler_t \<Rightarrow> 'm \<Rightarrow> char list \<Rightarrow> bool \<times> 'f route_handler_t" where
  "route_lookup K handler route path =
     (let found = kh_get K route path in
      if found = kh_end K route then (False, handler) else (True, kh_value K route found))"

text \<open>The registrations a program makes before it serves, with their return codes.\<close>

fun register_all :: "('m, 'f route_handler_t) khash \<Rightarrow> 'm \<Rightarrow> (char list \<times> 'f) list \<Rightarrow> heap
    \<Rightarrow> (int list \<times> 'm \<times> heap) res" where
  "register_all K m [] h = Inr ([], m, h)"
| "register_all K m ((p, f) # rs) h =
     rbind (route_register K m p f h) (\<lambda>(c, m1, h1).
     rbind (register_all K m1 rs h1) (\<lambda>(cs, m2, h2). Inr (c # cs, m2, h2)))"

section \<open>Lemmas\<close>

lemma strdup_eq:
  assumes "ready h" and "int (length s) < INT_MAX"
  shows "strdup s h = Inr (Some (hnext h), with_block h (s @ [NUL]))"
proof -
  have "length s + 1 \<le> PTRDIFF_MAX" using assms(2) by (simp add: INT_MAX_def PTRDIFF_MAX_def)
  then show ?thesis
    using assms(1) overwrite_full [of "s @ [NUL]" "map (hjunk h (hnext h)) [0..<length s + 1]"]
    by (simp add: strdup_def malloc_ok ready_def store_at)
qed

lemma lookup_entry:
  "route_lookup K hd0 m p = (case entry K m p of None \<Rightarrow> (False, hd0) | Some (a, v) \<Rightarrow> (True, v))"
  by (simp add: route_lookup_def entry_def Let_def)

text \<open>The addresses of the keys in a table.\<close>

definition key_addrs :: "('m, 'v) khash \<Rightarrow> 'm \<Rightarrow> nat set" where
  "key_addrs K m = {a. \<exists>s v. entry K m s = Some (a, v)}"

text \<open>The state after some registrations from heap \<open>h0\<close>: the table is the association list, its
  keys are live blocks of their own, and \<open>L\<close> are further blocks that nobody refers to.\<close>

definition routes_ok ::
  "('m, 'f route_handler_t) khash \<Rightarrow> ('m \<Rightarrow> bool) \<Rightarrow> heap \<Rightarrow> (char list \<times> 'f) list \<Rightarrow> nat set \<Rightarrow> 'm \<Rightarrow> heap \<Rightarrow> bool" where
  "routes_ok K good h0 rs L m h \<longleftrightarrow> good m \<and> ready h
     \<and> (\<forall>s. map_option (\<lambda>(a, v). func v) (entry K m s) = map_of rs s)
     \<and> (\<forall>s s' a v v'. entry K m s = Some (a, v) \<longrightarrow> entry K m s' = Some (a, v') \<longrightarrow> s = s')
     \<and> finite L \<and> dom (hmem h) = dom (hmem h0) \<union> key_addrs K m \<union> L
     \<and> dom (hmem h0) \<inter> key_addrs K m = {} \<and> dom (hmem h0) \<inter> L = {} \<and> key_addrs K m \<inter> L = {}
     \<and> (\<forall>x \<in> dom (hmem h0). hmem h x = hmem h0 x)"

lemma khash_put_cases:
  assumes "khash_spec K good" and "good m" and "kh_put K m (a, s) = (it, r, m')" and "r \<noteq> -1"
  obtains (present) "entry K m s \<noteq> None" "r = 0" "good m'" "\<forall>t. entry K m' t = entry K m t"
  | (new) "entry K m s = None" "0 < r" "\<forall>v. good (kh_set K m' it v)"
      "\<forall>v t. entry K (kh_set K m' it v) t = (if t = s then Some (a, v) else entry K m t)"
proof -
  from assms have *: "r = -1 \<or> (if entry K m s = None then 0 < r else r = 0)"
    "r \<le> 0 \<longrightarrow> good m' \<and> (\<forall>t. entry K m' t = entry K m t)"
    "0 < r \<longrightarrow> (\<forall>v. good (kh_set K m' it v)
        \<and> (\<forall>t. entry K (kh_set K m' it v) t = (if t = s then Some (a, v) else entry K m t)))"
    unfolding khash_spec_def by blast+
  show thesis
  proof (cases "entry K m s = None")
    case True
    then have "0 < r" using *(1) assms(4) by simp
    then show ?thesis using True *(3) by (intro new) blast+
  next
    case False
    then have "r = 0" using *(1) assms(4) by simp
    then show ?thesis using False *(2) by (intro present) auto
  qed
qed

lemma key_addrs_cong: "\<forall>t. entry K m' t = entry K m t \<Longrightarrow> key_addrs K m' = key_addrs K m"
  by (simp add: key_addrs_def)

lemma key_addrs_new:
  assumes "\<forall>t. entry K m' t = (if t = s then Some (a, v) else entry K m t)" and "entry K m s = None"
  shows "key_addrs K m' = insert a (key_addrs K m)"
proof -
  have "(\<exists>t v'. entry K m' t = Some (b, v')) \<longleftrightarrow> b = a \<or> (\<exists>t v'. entry K m t = Some (b, v'))" for b
    using assms by (metis not_None_eq option.inject prod.inject)
  then show ?thesis by (auto simp: key_addrs_def)
qed

text \<open>One registration.\<close>

lemma route_register_step:
  assumes K: "khash_spec K good" "\<forall>m k. fst (snd (kh_put K m k)) \<noteq> -1"
    and ok: "routes_ok K good h0 rs L m h" and p: "int (length p) < INT_MAX"
  shows "\<exists>m' h' L'. route_register K m p f h = Inr (if map_of rs p = None then 0 else 2, m', h')
     \<and> routes_ok K good h0 (rs @ [(p, f)]) L' m' h' \<and> card L' = card L + (if map_of rs p = None then 0 else 1)"
proof -
  let ?a = "hnext h" and ?h = "with_block h (p @ [NUL])"
  from ok have ok': "good m" "ready h" "\<forall>s. map_option (\<lambda>(a, v). func v) (entry K m s) = map_of rs s"
    "\<forall>s s' a v v'. entry K m s = Some (a, v) \<longrightarrow> entry K m s' = Some (a, v') \<longrightarrow> s = s'"
    "finite L" "dom (hmem h) = dom (hmem h0) \<union> key_addrs K m \<union> L"
    "dom (hmem h0) \<inter> key_addrs K m = {}" "dom (hmem h0) \<inter> L = {}" "key_addrs K m \<inter> L = {}"
    "\<forall>x \<in> dom (hmem h0). hmem h x = hmem h0 x" by (simp_all add: routes_ok_def)
  have a: "?a \<notin> dom (hmem h)" using ok'(2) by (auto simp: ready_def dest: heap_ok_fresh)
  then have a': "?a \<notin> dom (hmem h0)" "?a \<notin> key_addrs K m" "?a \<notin> L" using ok'(6) by blast+
  have r: "ready ?h" using ok'(2) by (simp add: ready_def)
  have d: "dom (hmem ?h) = insert ?a (dom (hmem h))" by auto
  have fr: "\<forall>x \<in> dom (hmem h0). hmem ?h x = hmem h0 x" using ok'(10) a'(1) by auto
  have iff: "map_of rs p = None \<longleftrightarrow> entry K m p = None"
    using ok'(3) [rule_format, of p] by (metis option.map_disc_iff)
  obtain it rt m1 where put: "kh_put K m (?a, p) = (it, rt, m1)" by (cases "kh_put K m (?a, p)")
  then have rt: "rt \<noteq> -1" using K(2) by (metis fst_conv snd_conv)
  note run = strdup_eq [OF ok'(2) p] put
  from K(1) ok'(1) put rt show ?thesis
  proof (cases rule: khash_put_cases)
    case present
    have "route_register K m p f h = Inr (2, m1, ?h)"
      using run present(2) by (simp add: route_register_def)
    moreover have "routes_ok K good h0 (rs @ [(p, f)]) (insert ?a L) m1 ?h"
      unfolding routes_ok_def key_addrs_cong [OF present(4)] d
      using present(1,3,4) ok' r fr a' iff by (auto simp: map_add_def split: option.splits)
    moreover have "card (insert ?a L) = card L + 1" using ok'(5) a'(3) by simp
    ultimately show ?thesis using present(1) iff by auto
  next
    case new
    let ?m = "kh_set K m1 it \<lparr>func = f\<rparr>"
    have e: "\<forall>t. entry K ?m t = (if t = p then Some (?a, \<lparr>func = f\<rparr>) else entry K m t)"
      using new(4) by blast
    have "route_register K m p f h = Inr (0, ?m, ?h)"
      using run new(2) rt by (simp add: route_register_def)
    moreover have "routes_ok K good h0 (rs @ [(p, f)]) L ?m ?h"
      unfolding routes_ok_def key_addrs_new [OF e new(1)] d
    proof (intro conjI allI impI)
      fix s
      show "map_option (\<lambda>(a, v). func v) (entry K ?m s) = map_of (rs @ [(p, f)]) s"
        using e ok'(3) iff new(1) by (auto simp: map_add_def split: option.splits)
      fix s' b v v'
      assume "entry K ?m s = Some (b, v)" "entry K ?m s' = Some (b, v')"
      then show "s = s'"
        using e ok'(4) a'(2) by (auto simp: key_addrs_def split: if_splits)
    qed (use new(3) ok' r fr a' in auto)
    ultimately show ?thesis using new(1) iff by auto
  qed
qed

text \<open>Freeing the keys of a table frees exactly their addresses.\<close>

lemma free_keys_eq:
  assumes "\<forall>k \<in> set ks. kh_exist K m k \<longrightarrow> hmem h (fst (kh_key K m k)) \<noteq> None"
    and "distinct (map (\<lambda>k. fst (kh_key K m k)) (filter (kh_exist K m) ks))"
  shows "free_keys K m ks h
     = Inr (h\<lparr>hmem := hmem h |` (- (\<lambda>k. fst (kh_key K m k)) ` set (filter (kh_exist K m) ks))\<rparr>)"
  using assms
proof (induction ks arbitrary: h)
  case Nil
  have "hmem h |` UNIV = hmem h" by (simp add: restrict_map_def)
  then show ?case by simp
next
  case (Cons k ks)
  show ?case
  proof (cases "kh_exist K m k")
    case False
    then show ?thesis using Cons by simp
  next
    case True
    let ?k = "fst (kh_key K m k)" and ?S = "(\<lambda>k. fst (kh_key K m k)) ` set (filter (kh_exist K m) ks)"
    let ?h = "h\<lparr>hmem := (hmem h)(?k := None)\<rparr>"
    have "\<forall>j \<in> set ks. kh_exist K m j \<longrightarrow> hmem ?h (fst (kh_key K m j)) \<noteq> None"
      using Cons.prems True by (auto simp: image_iff)
    then have "free_keys K m ks ?h = Inr (?h\<lparr>hmem := hmem ?h |` (- ?S)\<rparr>)"
      using Cons.prems(2) True by (intro Cons.IH) auto
    moreover have "(hmem h)(?k := None) |` (- ?S) = hmem h |` (- insert ?k ?S)"
      by (auto simp: restrict_map_def)
    ultimately show ?thesis
      using Cons.prems(1) True by (simp add: free_def del: fun_upd_apply restrict_upd_same)
  qed
qed

text \<open>The return codes of a sequence of registrations: 2 for a path that was registered before.\<close>

fun reg_codes :: "char list list \<Rightarrow> char list list \<Rightarrow> int list" where
  "reg_codes seen [] = []"
| "reg_codes seen (p # ps) = (if p \<in> set seen then 2 else 0) # reg_codes (seen @ [p]) ps"

lemma map_of_None_fst: "map_of rs p = None \<longleftrightarrow> p \<notin> set (map fst rs)"
  by (simp add: map_of_eq_None_iff)

lemma register_all_ok:
  assumes K: "khash_spec K good" "\<forall>m k. fst (snd (kh_put K m k)) \<noteq> -1"
  shows "routes_ok K good h0 done_rs L m h \<Longrightarrow> \<forall>(p, f) \<in> set rs. int (length p) < INT_MAX \<Longrightarrow>
    \<exists>m' h' L'. register_all K m rs h = Inr (reg_codes (map fst done_rs) (map fst rs), m', h')
      \<and> routes_ok K good h0 (done_rs @ rs) L' m' h'
      \<and> card L' = card L + count_list (reg_codes (map fst done_rs) (map fst rs)) 2"
proof (induction rs arbitrary: done_rs L m h)
  case Nil
  then show ?case by auto
next
  case (Cons r rs)
  obtain p f where r: "r = (p, f)" by (cases r)
  with Cons.prems(2) have p: "int (length p) < INT_MAX" by simp
  from route_register_step [OF K Cons.prems(1) p] obtain m1 h1 L1 where
    1: "route_register K m p f h = Inr (if map_of done_rs p = None then 0 else 2, m1, h1)"
    "routes_ok K good h0 (done_rs @ [(p, f)]) L1 m1 h1"
    "card L1 = card L + (if map_of done_rs p = None then 0 else 1)" by blast
  have "\<forall>(p, f) \<in> set rs. int (length p) < INT_MAX" using Cons.prems(2) by simp
  from Cons.IH [OF 1(2) this] obtain m2 h2 L2 where
    2: "register_all K m1 rs h1 = Inr (reg_codes (map fst done_rs @ [p]) (map fst rs), m2, h2)"
    "routes_ok K good h0 (done_rs @ r # rs) L2 m2 h2"
    "card L2 = card L1 + count_list (reg_codes (map fst done_rs @ [p]) (map fst rs)) 2"
    using r by auto
  show ?case
    using 1 2 r by (cases "p \<in> set (map fst done_rs)") (auto simp: map_of_None_fst intro!: exI [of _ L2])
qed

lemma routes_ok_init:
  assumes "khash_spec K good" and "kh_init K = Some m" and "ready h"
  shows "routes_ok K good h [] {} m h"
proof -
  from assms(1,2) have e: "good m" "\<forall>s. entry K m s = None" by (simp_all add: khash_spec_def)
  then have "key_addrs K m = {}" by (simp add: key_addrs_def)
  then show ?thesis using e assms(3) by (simp add: routes_ok_def)
qed

text \<open>Destroying the table leaves the initial heap and the unreferenced blocks.\<close>

lemma destroy_route_ok:
  assumes K: "khash_spec K good" and ok: "routes_ok K good h0 rs L m h"
  shows "\<exists>h'. destroy_route K m h = Inr (0, h') \<and> dom (hmem h') = dom (hmem h0) \<union> L
     \<and> (\<forall>x \<in> dom (hmem h0). hmem h' x = hmem h0 x)"
proof -
  let ?ks = "[0..<kh_end K m]" and ?a = "\<lambda>k. fst (kh_key K m k)"
  from ok have ok': "good m" "\<forall>s s' a v v'. entry K m s = Some (a, v) \<longrightarrow> entry K m s' = Some (a, v') \<longrightarrow> s = s'"
    "dom (hmem h) = dom (hmem h0) \<union> key_addrs K m \<union> L"
    "dom (hmem h0) \<inter> key_addrs K m = {}" "key_addrs K m \<inter> L = {}"
    "\<forall>x \<in> dom (hmem h0). hmem h x = hmem h0 x" by (simp_all add: routes_ok_def)
  have it: "kh_get K m (snd (kh_key K m k)) = k" if "k < kh_end K m" "kh_exist K m k" for k
    using K ok'(1) that by (simp add: khash_spec_def)
  have get: "kh_get K m s < kh_end K m \<and> kh_exist K m (kh_get K m s)" if "kh_get K m s \<noteq> kh_end K m" for s
    using K ok'(1) that by (simp add: khash_spec_def)
  have en: "entry K m (snd (kh_key K m k)) = Some (?a k, kh_value K m k)" if "k < kh_end K m" "kh_exist K m k" for k
    using it [OF that] that(1) by (simp add: entry_def)
  have img: "?a ` set (filter (kh_exist K m) ?ks) = key_addrs K m"
  proof (intro equalityI subsetI)
    fix x assume "x \<in> ?a ` set (filter (kh_exist K m) ?ks)"
    then show "x \<in> key_addrs K m" using en by (auto simp: key_addrs_def)
  next
    fix x assume "x \<in> key_addrs K m"
    then obtain s v where s: "entry K m s = Some (x, v)" by (auto simp: key_addrs_def)
    then have "kh_get K m s \<noteq> kh_end K m" "x = ?a (kh_get K m s)" by (auto simp: entry_def split: if_splits)
    then show "x \<in> ?a ` set (filter (kh_exist K m) ?ks)" using get by auto
  qed
  have inj: "inj_on ?a (set (filter (kh_exist K m) ?ks))"
  proof (rule inj_onI)
    fix j k assume jk: "j \<in> set (filter (kh_exist K m) ?ks)" "k \<in> set (filter (kh_exist K m) ?ks)" "?a j = ?a k"
    then have b: "j < kh_end K m" "kh_exist K m j" "k < kh_end K m" "kh_exist K m k" by auto
    have "entry K m (snd (kh_key K m k)) = Some (?a j, kh_value K m k)" unfolding jk(3) by (rule en [OF b(3,4)])
    note same = ok'(2) [rule_format, OF en [OF b(1,2)] this]
    have "j = kh_get K m (snd (kh_key K m j))" by (rule it [OF b(1,2), symmetric])
    also have "\<dots> = k" unfolding same by (rule it [OF b(3,4)])
    finally show "j = k" .
  qed
  have "hmem h (?a k) \<noteq> None" if "k \<in> set ?ks" "kh_exist K m k" for k
    using img ok'(3) that by (auto simp: dom_def image_iff)
  then have "free_keys K m ?ks h = Inr (h\<lparr>hmem := hmem h |` (- key_addrs K m)\<rparr>)"
    using free_keys_eq [of ?ks K m h] inj img by (simp add: distinct_map)
  then show ?thesis
    using ok'(3-6) by (auto simp: destroy_route_def restrict_map_def dom_def)
qed

section \<open>Properties\<close>

text \<open>A small table that keeps its entries in an association list and never runs out of memory: it
  behaves as \<^verbatim>\<open>khash.h\<close> documents.  The value of a new bucket is whatever was there.\<close>

fun find_key :: "(key \<times> 'v) list \<Rightarrow> char list \<Rightarrow> nat" where
  "find_key [] s = 0"
| "find_key (((a, t), v) # m) s = (if t = s then 0 else Suc (find_key m s))"

definition assoc_khash :: "((key \<times> 'f route_handler_t) list, 'f route_handler_t) khash" where
  "assoc_khash = \<lparr>kh_init = Some [],
     kh_put = (\<lambda>m (a, s). if find_key m s < length m then (find_key m s, 0, m)
                          else (length m, 1, m @ [((a, s), \<lparr>func = undefined\<rparr>)])),
     kh_get = find_key, kh_end = length, kh_exist = (\<lambda>m k. k < length m),
     kh_key = (\<lambda>m k. fst (m ! k)), kh_value = (\<lambda>m k. snd (m ! k)),
     kh_set = (\<lambda>m k v. m[k := (fst (m ! k), v)])\<rparr>"

definition assoc_good :: "(key \<times> 'f route_handler_t) list \<Rightarrow> bool" where
  "assoc_good m \<longleftrightarrow> distinct (map (snd \<circ> fst) m)"

lemma find_key_le: "find_key m s \<le> length m"
  by (induction m s rule: find_key.induct) auto

lemma find_key_less: "find_key m s < length m \<Longrightarrow> snd (fst (m ! find_key m s)) = s"
  by (induction m s rule: find_key.induct) auto

lemma find_key_nth: "distinct (map (snd \<circ> fst) m) \<Longrightarrow> k < length m \<Longrightarrow> find_key m (snd (fst (m ! k))) = k"
proof (induction m arbitrary: k)
  case (Cons e m)
  obtain a t v where e: "e = ((a, t), v)" by (metis prod.collapse)
  show ?case
  proof (cases k)
    case (Suc j)
    then have "snd (fst (m ! j)) \<in> set (map (snd \<circ> fst) m)" using Cons.prems(2) by auto
    then have "t \<noteq> snd (fst (m ! j))" using Cons.prems(1) e by auto
    then show ?thesis using Cons Suc e by simp
  qed (simp add: e)
qed simp

lemma find_key_absent: "find_key m s = length m \<longleftrightarrow> s \<notin> (snd \<circ> fst) ` set m"
  by (induction m s rule: find_key.induct) auto

lemma find_key_snoc:
  "find_key (m @ [((a, s), v)]) t
     = (if find_key m t < length m then find_key m t else if t = s then length m else Suc (length m))"
  by (induction m t rule: find_key.induct) auto

lemma assoc_khash_spec: "khash_spec (assoc_khash :: ((key \<times> 'f route_handler_t) list, 'f route_handler_t) khash) assoc_good"
  unfolding khash_spec_def
proof (intro conjI allI impI)
  fix m :: "(key \<times> 'f route_handler_t) list" and a it :: nat and s t :: "char list" and r m' v
  assume g: "assoc_good m" and p: "kh_put assoc_khash m (a, s) = (it, r, m')"
  have e: "entry assoc_khash m u = (if find_key m u < length m
      then Some (fst (fst (m ! find_key m u)), snd (m ! find_key m u)) else None)" for m u
    using find_key_le [of m u] by (simp add: entry_def assoc_khash_def)
  have P: "if find_key m s < length m then r = 0 \<and> m' = m
      else it = length m \<and> r = 1 \<and> m' = m @ [((a, s), \<lparr>func = undefined\<rparr>)]"
    using p by (auto simp: assoc_khash_def split: if_splits)
  then show "r = -1 \<or> (if entry assoc_khash m s = None then 0 < r else r = 0)"
    by (auto simp: e split: if_splits)
  show "r \<le> 0 \<Longrightarrow> assoc_good m'" "r \<le> 0 \<Longrightarrow> entry assoc_khash m' t = entry assoc_khash m t"
    using P g by (auto split: if_splits)
  assume "0 < r"
  then have m': "find_key m s = length m" "it = length m" "m' = m @ [((a, s), \<lparr>func = undefined\<rparr>)]"
    using P find_key_le [of m s] by (auto split: if_splits)
  have u: "kh_set assoc_khash m' it v = m @ [((a, s), v)]"
    using m'(2,3) by (simp add: assoc_khash_def)
  show "assoc_good (kh_set assoc_khash m' it v)"
    using g m'(1) unfolding u assoc_good_def find_key_absent by auto
  show "entry assoc_khash (kh_set assoc_khash m' it v) t = (if t = s then Some (a, v) else entry assoc_khash m t)"
    using m'(1) unfolding u e find_key_snoc by (auto simp: nth_append)
next
  fix m :: "(key \<times> 'f route_handler_t) list" and k
  assume "assoc_good m" "k < kh_end assoc_khash m"
  then show "kh_get assoc_khash m (snd (kh_key assoc_khash m k)) = k"
    by (simp add: assoc_khash_def assoc_good_def find_key_nth)
qed (auto simp: assoc_khash_def assoc_good_def entry_def find_key_less le_less dest: find_key_le [THEN le_neq_implies_less])

text \<open>C38: The route table is the list of registrations: after any sequence of them (with memory
  available) every registration has answered 0, or 2 when its path was already there, and a lookup
  finds exactly the handler of the first registration of the path, or nothing for a path that was
  never registered.\<close>

theorem route_lookup_registered:
  assumes "khash_spec K good" and "\<forall>m k. fst (snd (kh_put K m k)) \<noteq> -1"
    and "kh_init K = Some m0" and "ready h" and "\<forall>(p, f) \<in> set rs. int (length p) < INT_MAX"
  shows "\<exists>m h'. init_route K = (0, Some m0)
     \<and> register_all K m0 rs h = Inr (reg_codes [] (map fst rs), m, h')
     \<and> (\<forall>p hd0. route_lookup K hd0 m p
          = (case map_of rs p of None \<Rightarrow> (False, hd0) | Some f \<Rightarrow> (True, \<lparr>func = f\<rparr>)))"
proof -
  from register_all_ok [OF assms(1,2) routes_ok_init [OF assms(1,3,4)] assms(5)] obtain m h' L where
    r: "register_all K m0 rs h = Inr (reg_codes [] (map fst rs), m, h')" "routes_ok K good h rs L m h'"
    by auto
  have "route_lookup K hd0 m p = (case map_of rs p of None \<Rightarrow> (False, hd0) | Some f \<Rightarrow> (True, \<lparr>func = f\<rparr>))" for p hd0
  proof -
    have "map_of rs p = map_option (\<lambda>(a, v). func v) (entry K m p)" using r(2) by (simp add: routes_ok_def)
    then show ?thesis by (auto simp: lookup_entry split: option.splits)
  qed
  with r(1) assms(3) show ?thesis by (auto simp: init_route_def)
qed

theorem route_lookup_registered_witness:
  "\<exists>m h'. register_all assoc_khash [] [(''/'', 1::nat), (''/api'', 2), (''/'', 3)] heap0 = Inr ([0, 0, 2], m, h')
     \<and> route_lookup assoc_khash \<lparr>func = 9\<rparr> m ''/'' = (True, \<lparr>func = 1\<rparr>)
     \<and> route_lookup assoc_khash \<lparr>func = 9\<rparr> m ''/x'' = (False, \<lparr>func = 9\<rparr>)"
proof -
  have 1: "\<forall>m k. fst (snd (kh_put (assoc_khash :: ((key \<times> nat route_handler_t) list, nat route_handler_t) khash) m k)) \<noteq> -1" by (auto simp: assoc_khash_def)
  have 2: "kh_init (assoc_khash :: ((key \<times> nat route_handler_t) list, nat route_handler_t) khash) = Some []" by (simp add: assoc_khash_def)
  have 3: "ready heap0" by (simp add: heap0_def ready_def no_fail_def heap_ok_def)
  from route_lookup_registered [OF assoc_khash_spec 1 2 3, of "[(''/'', 1), (''/api'', 2), (''/'', 3)]"]
  obtain m h' where "register_all assoc_khash [] [(''/'', 1::nat), (''/api'', 2), (''/'', 3)] heap0
      = Inr (reg_codes [] [''/'', ''/api'', ''/''], m, h')"
    "\<forall>p hd0. route_lookup assoc_khash hd0 m p = (case map_of [(''/'', 1::nat), (''/api'', 2), (''/'', 3)] p of
        None \<Rightarrow> (False, hd0) | Some f \<Rightarrow> (True, \<lparr>func = f\<rparr>))"
    by (auto simp: INT_MAX_def simp del: register_all.simps One_nat_def)
  then show ?thesis by (simp del: register_all.simps One_nat_def)
qed

text \<open>\<open>destroy_route\<close> never frees a bad pointer and frees every key in the table; what remains of
  the registrations is one leaked block for each that was refused because its path existed.\<close>

theorem destroy_route_frees:
  assumes "khash_spec K good" and "\<forall>m k. fst (snd (kh_put K m k)) \<noteq> -1"
    and "kh_init K = Some m0" and "ready h" and "\<forall>(p, f) \<in> set rs. int (length p) < INT_MAX"
  shows "\<exists>cs m h1 h2. register_all K m0 rs h = Inr (cs, m, h1) \<and> destroy_route K m h1 = Inr (0, h2)
     \<and> (\<forall>x \<in> dom (hmem h). hmem h2 x = hmem h x)
     \<and> finite (dom (hmem h2) - dom (hmem h)) \<and> card (dom (hmem h2) - dom (hmem h)) = count_list cs 2"
proof -
  from register_all_ok [OF assms(1,2) routes_ok_init [OF assms(1,3,4)] assms(5)] obtain m h1 L where
    r: "register_all K m0 rs h = Inr (reg_codes [] (map fst rs), m, h1)" "routes_ok K good h rs L m h1"
    "card L = count_list (reg_codes [] (map fst rs)) 2" by auto
  from destroy_route_ok [OF assms(1) r(2)] obtain h2 where
    2: "destroy_route K m h1 = Inr (0, h2)" "dom (hmem h2) = dom (hmem h) \<union> L"
    "\<forall>x \<in> dom (hmem h). hmem h2 x = hmem h x" by blast
  have "dom (hmem h2) - dom (hmem h) = L" "finite L" using 2(2) r(2) by (auto simp: routes_ok_def)
  with r 2 show ?thesis by auto
qed

theorem destroy_route_frees_witness:
  "\<exists>cs m h1 h2. register_all assoc_khash [] [(''/'', 1::nat), (''/api'', 2), (''/'', 3)] heap0 = Inr (cs, m, h1)
     \<and> destroy_route assoc_khash m h1 = Inr (0, h2) \<and> card (dom (hmem h2)) = count_list cs 2"
proof -
  have 1: "\<forall>m k. fst (snd (kh_put (assoc_khash :: ((key \<times> nat route_handler_t) list, nat route_handler_t) khash) m k)) \<noteq> -1" by (auto simp: assoc_khash_def)
  have 2: "kh_init (assoc_khash :: ((key \<times> nat route_handler_t) list, nat route_handler_t) khash) = Some []" by (simp add: assoc_khash_def)
  have 3: "ready heap0" "dom (hmem heap0) = {}" by (simp_all add: heap0_def ready_def no_fail_def heap_ok_def)
  show ?thesis
    using destroy_route_frees [OF assoc_khash_spec 1 2 3(1), of "[(''/'', 1), (''/api'', 2), (''/'', 3)]"]
    unfolding 3(2) by (auto simp: INT_MAX_def simp del: register_all.simps One_nat_def)
qed

end
