(* ===== verification/Http.thy ===== *)
theory Http
  imports App LList Route
begin

text \<open>
  The server of \<^verbatim>\<open>src/http.c\<close>: the listener, the event handlers of the kqueue loop, and the task
  \<open>handle_conn\<close> that the pool's workers run.  The state is one record; the kqueue is the list of its
  registrations, the answers of the system calls are arguments of the handler that makes them, and
  the pool is the list of tasks handed to it (its inner workings are theory \<open>PoolSteps\<close>).
\<close>

section \<open>State\<close>

datatype filter_t = EVFILT_READ | EVFILT_WRITE | EVFILT_TIMER

text \<open>The \<open>udata\<close> pointer of an event: a list node, or a task.\<close>

datatype udata = NoData | NodeData ptr | TaskData nat

record 'p thread_node_t =
  t_client :: client_t
  t_buffer :: string_t
  t_req :: "'p request_ctx_t"
  t_resp :: response_ctx_t

text \<open>\<open>EV_ADD\<close>: a kqueue has one registration per descriptor and filter, and adding it again replaces
  the \<open>udata\<close>.  \<open>EV_DELETE\<close> removes it.\<close>

type_synonym kqueue = "(int \<times> filter_t \<times> udata) list"

definition ev_delete :: "int \<Rightarrow> filter_t \<Rightarrow> kqueue \<Rightarrow> kqueue" where
  "ev_delete fd f kq = filter (\<lambda>(fd', f', _). \<not> (fd' = fd \<and> f' = f)) kq"

definition ev_add :: "int \<Rightarrow> filter_t \<Rightarrow> udata \<Rightarrow> kqueue \<Rightarrow> kqueue" where
  "ev_add fd f u kq = (fd, f, u) # ev_delete fd f kq"

text \<open>\<open>sv_route\<close> is None once the table is destroyed; \<open>sv_conns\<close> are the accepted connections that are
  still open, \<open>sv_files\<close> the other open descriptors (the listener, files);
  \<open>sv_tasks\<close> is the heap of \<open>thread_node_t\<close>; \<open>sv_out fd\<close> is what the peer of \<open>fd\<close> has been sent.\<close>

record ('m, 'p) server_t =
  sv_ln :: listener_t
  sv_route :: "'m option"
  sv_clients :: "list_t \<times> nheap"
  sv_conns :: fds
  sv_files :: fds
  sv_kq :: kqueue
  sv_heap :: heap
  sv_tasks :: "nat \<rightharpoonup> 'p thread_node_t"
  sv_tnext :: nat
  sv_pool :: "nat list"
  sv_out :: "int \<Rightarrow> char list"

section \<open>The listener\<close>

text \<open>\<open>getfl\<close> is what \<open>fcntl(fd, F_GETFL)\<close> answers, \<open>setfl\<close> what \<open>F_SETFL\<close> answers for the new flags.\<close>

definition O_NONBLOCK :: "32 word" where
  "O_NONBLOCK = 4"

definition set_fd_nonblock :: "int \<Rightarrow> (32 word \<Rightarrow> int) \<Rightarrow> int" where
  "set_fd_nonblock getfl setfl =
     (if getfl < 0 then getfl else setfl (word_of_int getfl OR O_NONBLOCK))"

text \<open>The result of \<open>init_listener\<close> and the listener it leaves in the server.\<close>

definition init_listener ::
  "net_env \<Rightarrow> listener_t \<Rightarrow> int \<Rightarrow> int \<Rightarrow> char list option \<Rightarrow> (int \<times> listener_t) res" where
  "init_listener env ln0 nonblock kev address =
     rbind (s_listen env ln0 ''tcp'' address) (\<lambda>ln.
     if ln_err ln \<noteq> 0 then Inr (1, ln\<lparr>ln_err := 1\<rparr>)
     else if nonblock < 0 then Inr (2, ln\<lparr>ln_err := 2\<rparr>)
     else if kev < 0 then Inr (3, ln\<lparr>ln_err := 3\<rparr>)
     else Inr (0, ln\<lparr>ln_err := 0\<rparr>))"

text \<open>The part of the error exit of \<open>serve_and_listen\<close> that deals with the listener.\<close>

definition listener_exit :: "listener_t \<Rightarrow> fds \<Rightarrow> fds" where
  "listener_exit ln t = (if ln_err ln \<noteq> 1 then s_close ln t else t)"

section \<open>Clients\<close>

text \<open>Closing a descriptor also removes its kqueue registrations.\<close>

definition close_client :: "client_t \<Rightarrow> ('m, 'p) server_t \<Rightarrow> ('m, 'p) server_t" where
  "close_client c s = s\<lparr>sv_conns := conn_close c (sv_conns s),
     sv_kq := filter (\<lambda>(fd, _). fd \<noteq> cl_fd c) (sv_kq s)\<rparr>"

definition remove_client :: "('m, 'p) server_t \<Rightarrow> int \<Rightarrow> ('m, 'p) server_t res option" where
  "remove_client server client_fd =
     map_option (\<lambda>r. rbind r (\<lambda>node.
       if node = None then Inr server
       else
         let s1 = server\<lparr>sv_kq := ev_delete client_fd EVFILT_READ (sv_kq server)\<rparr> in
         rbind (list_client node (sv_clients s1)) (\<lambda>c.
         let s2 = close_client c s1 in
         rbind (list_del node (sv_clients s2)) (\<lambda>(_, cl). Inr (s2\<lparr>sv_clients := cl\<rparr>)))))
       (list_look client_fd (sv_clients server))"

text \<open>What the calls of one round of the accepting loop answer.\<close>

record conn_in =
  ci_fd :: int
  ci_addr :: sockaddr_in
  ci_host :: "char list"       \<comment> \<open>\<open>inet_ntop\<close>\<close>
  ci_nonblock :: int
  ci_kevent :: int

definition INET_ADDRSTRLEN :: nat where
  "INET_ADDRSTRLEN = 16"

text \<open>The rest of a round, once the connection's address is known: make it non-blocking, put it on the
  list, register it.\<close>

definition enrol_client :: "conn_in \<Rightarrow> client_t \<Rightarrow> ('m, 'p) server_t \<Rightarrow> ('m, 'p) server_t res" where
  "enrol_client ci conn server =
     (if ci_nonblock ci = -1 then Inr (close_client conn server)
      else
        rbind (list_add conn (sv_clients server)) (\<lambda>(node, cl).
        let s1 = server\<lparr>sv_clients := cl\<rparr> in
        if node = None then Inr (close_client conn s1)
        else if ci_kevent ci < 0 then Inr (close_client conn s1)
        else Inr (s1\<lparr>sv_kq := ev_add (cl_fd conn) EVFILT_READ (NodeData node) (sv_kq s1)\<rparr>)))"

text \<open>\<open>accept_client\<close>: the loop of the code ends only when \<open>accept\<close> answers -1; the end of the list of answers
  stands for that answer, when nobody waits for a connection any more (\<open>EAGAIN\<close>).
  \<open>c0\<close> is the indeterminate content of the local struct of \<open>s_accept\<close>.\<close>

fun accept_client :: "client_t \<Rightarrow> conn_in list \<Rightarrow> ('m, 'p) server_t \<Rightarrow> ('m, 'p) server_t res" where
  "accept_client c0 [] server = Inr server"
| "accept_client c0 (ci # cis) server =
     (let conn = s_accept c0 (ci_fd ci, ci_addr ci) in
      if cl_fd conn = -1 then Inr server
      else if cl_err conn \<noteq> 0 then accept_client c0 cis (close_client conn server)
      else
        rbind (arr_write (a_host (c_addr conn)) 0 (ci_host ci @ [NUL])) (\<lambda>host.
        rbind (arr_put host INET_ADDRSTRLEN NUL) (\<lambda>host1.
        rbind (enrol_client ci
                 (conn\<lparr>c_addr := \<lparr>a_port = uint (ntohs (sin_port (cl_addr conn))), a_host = host1\<rparr>\<rparr>)
                 (server\<lparr>sv_conns := cl_fd conn # sv_conns server\<rparr>)) (accept_client c0 cis))))"

section \<open>Reading\<close>

datatype recv_result = RData "char list" | RAgain | RError | RClosed

datatype read_end = Got string_t | Gone | Lost

text \<open>The receiving loop; no more answers means that nothing is left to read (\<open>EAGAIN\<close>).  A chunk is what a call
  that returns a positive number received; a call that returns 0 is \<open>RClosed\<close>.  The received bytes go
  through the static array of 216 bytes, terminated, and are appended as a C string.\<close>

fun recv_loop :: "recv_result list \<Rightarrow> string_t \<Rightarrow> heap \<Rightarrow> (read_end \<times> heap) res" where
  "recv_loop [] BUF h = Inr (Got BUF, h)"
| "recv_loop (RAgain # rs) BUF h = Inr (Got BUF, h)"
| "recv_loop (RError # rs) BUF h = Inr (Lost, h)"
| "recv_loop (RClosed # rs) BUF h = Inr (Gone, h)"
| "recv_loop (RData bs # rs) BUF h =
     (if 216 \<le> length bs then Inl OutOfBounds
      else rbind (append_string_cstr (Some BUF) (Some (cstr bs)) h) (\<lambda>(ok, bp, h1).
           if \<not> ok then rbind (free_string BUF h1) (\<lambda>h2. Inr (Lost, h2))
           else recv_loop rs (the bp) h1))"

text \<open>Whether the three allocations of a task succeed, whether the pool accepts it, and the
  indeterminate contents of the two contexts.\<close>

record 'p task_in =
  ti_tnode :: bool
  ti_req :: bool
  ti_resp :: bool
  ti_pushed :: bool
  ti_req0 :: "'p request_ctx_t"
  ti_resp0 :: response_ctx_t

definition read_from_client ::
  "recv_result list \<Rightarrow> 'p task_in \<Rightarrow> client_t \<Rightarrow> ('m, 'p) server_t \<Rightarrow> ('m, 'p) server_t res option" where
  "read_from_client rs ti client server =
     (case rbind (new_string (Some []) (sv_heap server)) (\<lambda>(BUF, h). recv_loop rs BUF h) of
        Inl e \<Rightarrow> Some (Inl e)
      | Inr (Lost, h) \<Rightarrow> Some (Inr (server\<lparr>sv_heap := h\<rparr>))
      | Inr (Gone, h) \<Rightarrow> remove_client (server\<lparr>sv_heap := h\<rparr>) (cl_fd client)
      | Inr (Got BUF, h) \<Rightarrow> Some (
          if \<not> ti_tnode ti then rbind (free_string BUF h) (\<lambda>h1. Inr (server\<lparr>sv_heap := h1\<rparr>))
          else rbind (copy_string BUF h) (\<lambda>(b, h1).
            if sdata b = None then rbind (free_string BUF h1) (\<lambda>h2. Inr (server\<lparr>sv_heap := h2\<rparr>))
            else if \<not> ti_req ti \<or> \<not> ti_resp ti then
              rbind (free_string BUF h1) (\<lambda>h2. rbind (free_string b h2) (\<lambda>h3. Inr (server\<lparr>sv_heap := h3\<rparr>)))
            else
              let tn = \<lparr>t_client = client, t_buffer = b, t_req = ti_req0 ti, t_resp = ti_resp0 ti\<rparr>;
                  s1 = server\<lparr>sv_tasks := (sv_tasks server)(sv_tnext server \<mapsto> tn),
                              sv_tnext := Suc (sv_tnext server),
                              sv_pool := (if ti_pushed ti then sv_pool server @ [sv_tnext server] else sv_pool server)\<rparr> in
              rbind (free_string BUF h1) (\<lambda>h2. Inr (s1\<lparr>sv_heap := h2\<rparr>)))))"

section \<open>Handling a request\<close>

text \<open>What surrounds the worker: the hash table, llhttp, the files, the route handlers by function
  pointer, the indeterminate locals, and the answer of the \<open>kevent\<close> call.\<close>

record ('m, 'f, 'p) worker_env =
  we_khash :: "('m, 'f route_handler_t) khash"
  we_llhttp :: "'p llhttp"
  we_files :: file_env
  we_run :: "'f \<Rightarrow> response_ctx_t \<Rightarrow> 'p request_ctx_t \<Rightarrow> heap \<Rightarrow> (response_ctx_t \<times> heap) res"
  we_junk :: "nat \<Rightarrow> char"
  we_ext :: "char list"
  we_handler :: "'f route_handler_t"
  we_kevent :: int

text \<open>The switch over the method: the response and what it did to the heap and the open files.\<close>

definition respond ::
  "('m, 'f, 'p) worker_env \<Rightarrow> 'm option \<Rightarrow> response_ctx_t \<Rightarrow> 'p request_ctx_t \<Rightarrow> heap \<Rightarrow> fds
     \<Rightarrow> (response_ctx_t \<times> heap \<times> fds) res" where
  "respond W route wctx rctx h t =
     rbind (cstring (r_method (req rctx))) (\<lambda>method.
     if get_mothod_type method = GET then
       rbind (cstring (path (r_url (req rctx)))) (\<lambda>p.
       case route of None \<Rightarrow> Inl UseAfterFree
       | Some table \<Rightarrow>
           (case route_lookup (we_khash W) (we_handler W) table p of (found, handler) \<Rightarrow>
              if found then rbind (we_run W (func handler) wctx rctx h) (\<lambda>(w, h1). Inr (w, h1, t))
              else handle_not_found (we_files W) (we_ext W) wctx rctx h t))
     else Inr (wctx, h, t))"

text \<open>\<open>handle_conn\<close> up to the registration: the client to register, or None after an early return.  Its
  argument is a pointer to a task that must still be allocated.\<close>

definition answer_conn ::
  "('m, 'f, 'p) worker_env \<Rightarrow> nat \<Rightarrow> ('m, 'p) server_t \<Rightarrow> (client_t option \<times> ('m, 'p) server_t) res" where
  "answer_conn W arg server =
     (case sv_tasks server arg of None \<Rightarrow> Inl UseAfterFree
      | Some tnode \<Rightarrow>
          if sdata (t_buffer tnode) = None then Inr (None, server)
          else
            let rctx = init_req_ctx (we_llhttp W) (t_req tnode); wctx = init_resp_ctx in
            rbind (block (sdata (t_buffer tnode)) (sv_heap server)) (\<lambda>b.
            rbind (parse_http_request (we_llhttp W) (we_junk W) rctx b (slen (t_buffer tnode))) (\<lambda>(ok, rctx1).
            if ok = 1 then
              Inr (None, server\<lparr>sv_tasks := (sv_tasks server)(arg \<mapsto> tnode\<lparr>t_req := rctx1, t_resp := wctx\<rparr>)\<rparr>)
            else
              rbind (respond W (sv_route server) wctx rctx1 (sv_heap server) (sv_files server)) (\<lambda>(w, h, t).
              rbind (generate_response w h) (\<lambda>(c, h1).
              Inr (Some (t_client tnode), server\<lparr>
                sv_heap := h1, sv_files := t,
                sv_tasks := (sv_tasks server)(arg \<mapsto> tnode\<lparr>t_req := rctx1, t_resp := w\<lparr>complete_resp := c\<rparr>\<rparr>)\<rparr>))))))"

text \<open>The registration; \<open>kev\<close> is what \<open>kevent\<close> answers, and a failure is ignored.\<close>

definition register_write :: "int \<Rightarrow> client_t \<Rightarrow> nat \<Rightarrow> ('m, 'p) server_t \<Rightarrow> ('m, 'p) server_t" where
  "register_write kev client arg server =
     (if kev < 0 then server
      else server\<lparr>sv_kq := ev_add (cl_fd client) EVFILT_WRITE (TaskData arg) (sv_kq server)\<rparr>)"

text \<open>The task of a worker.\<close>

definition handle_conn :: "('m, 'f, 'p) worker_env \<Rightarrow> nat \<Rightarrow> ('m, 'p) server_t \<Rightarrow> ('m, 'p) server_t res" where
  "handle_conn W arg server =
     rbind (answer_conn W arg server) (\<lambda>(client, s1).
     Inr (case client of None \<Rightarrow> s1 | Some c \<Rightarrow> register_write (we_kevent W) c arg s1))"

lemma handle_conn_eq:
  "handle_conn W arg server =
     (case sv_tasks server arg of None \<Rightarrow> Inl UseAfterFree
      | Some tnode \<Rightarrow>
          if sdata (t_buffer tnode) = None then Inr server
          else
            let rctx = init_req_ctx (we_llhttp W) (t_req tnode); wctx = init_resp_ctx in
            rbind (block (sdata (t_buffer tnode)) (sv_heap server)) (\<lambda>b.
            rbind (parse_http_request (we_llhttp W) (we_junk W) rctx b (slen (t_buffer tnode))) (\<lambda>(ok, rctx1).
            if ok = 1 then
              Inr (server\<lparr>sv_tasks := (sv_tasks server)(arg \<mapsto> tnode\<lparr>t_req := rctx1, t_resp := wctx\<rparr>)\<rparr>)
            else
              rbind (respond W (sv_route server) wctx rctx1 (sv_heap server) (sv_files server)) (\<lambda>(w, h, t).
              rbind (generate_response w h) (\<lambda>(c, h1).
              Inr (server\<lparr>
                sv_heap := h1, sv_files := t,
                sv_tasks := (sv_tasks server)(arg \<mapsto> tnode\<lparr>t_req := rctx1, t_resp := w\<lparr>complete_resp := c\<rparr>\<rparr>),
                sv_kq := (if we_kevent W < 0 then sv_kq server
                          else ev_add (cl_fd (t_client tnode)) EVFILT_WRITE (TaskData arg) (sv_kq server))\<rparr>))))))"
proof (cases "sv_tasks server arg")
  case (Some tn)
  then show ?thesis using Some
    by (cases server)
      (auto simp: handle_conn_def answer_conn_def register_write_def Let_def rbind_def split: sum.split prod.split)
qed (simp add: handle_conn_def answer_conn_def)

section \<open>Writing\<close>

text \<open>\<open>SAgain\<close>: the socket would block, and \<open>kevent\<close> registers the connection again; \<open>SStuck\<close>: it would block,
  and that call fails.\<close>

datatype send_result = Sent nat | SAgain | SStuck | SError

datatype send_end = SDone | SWait | SLost | SFail

text \<open>The sending loop on the bytes that remain: what goes out, and how the loop ends.  \<open>send\<close> accepts
  at most what it is offered; no more answers means that the socket would block.\<close>

fun send_loop :: "send_result list \<Rightarrow> char list \<Rightarrow> char list \<times> send_end" where
  "send_loop rs [] = ([], SDone)"
| "send_loop [] (c # cs) = ([], SWait)"
| "send_loop (SAgain # rs) (c # cs) = ([], SWait)"
| "send_loop (SStuck # rs) (c # cs) = ([], SLost)"
| "send_loop (SError # rs) (c # cs) = ([], SFail)"
| "send_loop (Sent n # rs) (c # cs) =
     (if n = 0 then ([], SFail)
      else (case send_loop rs (drop n (c # cs)) of (out, e) \<Rightarrow> (take n (c # cs) @ out, e)))"

text \<open>On success the task is freed, but not the string of the response.  The answer of the \<open>kevent\<close> call that
  waits for more room is ignored.\<close>

definition write_to_client ::
  "send_result list \<Rightarrow> nat \<Rightarrow> ('m, 'p) server_t \<Rightarrow> ('m, 'p) server_t res option" where
  "write_to_client sends tnode server =
     (case sv_tasks server tnode of None \<Rightarrow> Some (Inl UseAfterFree)
      | Some tn \<Rightarrow>
          let r = complete_resp (t_resp tn); fd = cl_fd (t_client tn) in
          (case load (sdata r) (nat (slen r)) (sv_heap server) of
             Inl e \<Rightarrow> Some (Inl e)
           | Inr bytes \<Rightarrow>
               (case send_loop sends bytes of (out, e) \<Rightarrow>
                  let s1 = server\<lparr>sv_out := (sv_out server)(fd := sv_out server fd @ out)\<rparr> in
                  (case e of
                     SWait \<Rightarrow> Some (Inr (s1\<lparr>sv_kq := ev_add fd EVFILT_WRITE (TaskData tnode) (sv_kq s1)\<rparr>))
                   | SLost \<Rightarrow> Some (Inr s1)
                   | SFail \<Rightarrow> remove_client s1 fd
                   | SDone \<Rightarrow>
                       map_option (\<lambda>r. rbind r (\<lambda>s2.
                         rbind (free_string (t_buffer tn) (sv_heap s2)) (\<lambda>h.
                         Inr (s2\<lparr>sv_heap := h, sv_tasks := (sv_tasks s2)(tnode := None)\<rparr>))))
                         (remove_client s1 fd)))))"

section \<open>The event loop\<close>

text \<open>One event as \<open>kevent\<close> reports it, with the answers of the calls its handler makes.\<close>

record 'p kevent_t =
  ke_ident :: int
  ke_filter :: filter_t
  ke_udata :: udata
  ke_eof :: bool
  ke_conns :: "conn_in list"
  ke_recvs :: "recv_result list"
  ke_sends :: "send_result list"
  ke_task :: "'p task_in"

text \<open>Reporting a one-shot event removes its registration.  The code's kqueue does that when it delivers the
  batch, the model when the event is handled: no handler of another connection adds or removes this
  registration in between, and a batch has one event for each descriptor and filter.  A worker that
  registers the same connection inside a batch is not modelled.\<close>

definition handle_event :: "client_t \<Rightarrow> 'p kevent_t \<Rightarrow> ('m, 'p) server_t \<Rightarrow> ('m, 'p) server_t res option" where
  "handle_event c0 e server =
     (case ke_filter e of
        EVFILT_READ \<Rightarrow>
          if ke_eof e then remove_client server (ke_ident e)
          else if ke_ident e = ln_fd (sv_ln server) then Some (accept_client c0 (ke_conns e) server)
          else (case ke_udata e of
              NodeData node \<Rightarrow>
                (case list_client node (sv_clients server) of
                   Inl f \<Rightarrow> Some (Inl f)
                 | Inr client \<Rightarrow> read_from_client (ke_recvs e) (ke_task e) client server)
            | _ \<Rightarrow> Some (Inl NullDeref))
      | EVFILT_WRITE \<Rightarrow>
          (case ke_udata e of
             TaskData tnode \<Rightarrow>
               write_to_client (ke_sends e) tnode
                 (server\<lparr>sv_kq := ev_delete (ke_ident e) EVFILT_WRITE (sv_kq server)\<rparr>)
           | _ \<Rightarrow> Some (Inl NullDeref))
      | EVFILT_TIMER \<Rightarrow> Some (Inr server))"

fun handle_events :: "client_t \<Rightarrow> 'p kevent_t list \<Rightarrow> ('m, 'p) server_t \<Rightarrow> ('m, 'p) server_t res option" where
  "handle_events c0 [] server = Some (Inr server)"
| "handle_events c0 (e # es) server =
     (case handle_event c0 e server of
        None \<Rightarrow> None
      | Some (Inl f) \<Rightarrow> Some (Inl f)
      | Some (Inr s1) \<Rightarrow> handle_events c0 es s1)"

text \<open>\<open>register_route\<close>, whose result is dropped.\<close>

definition register_route ::
  "('m, 'f route_handler_t) khash \<Rightarrow> ('m, 'p) server_t \<Rightarrow> char list \<Rightarrow> 'f \<Rightarrow> ('m, 'p) server_t res" where
  "register_route K server p f =
     (case sv_route server of None \<Rightarrow> Inl UseAfterFree
      | Some table \<Rightarrow>
          rbind (route_register K table p f (sv_heap server)) (\<lambda>(_, m, h).
          Inr (server\<lparr>sv_route := Some m, sv_heap := h\<rparr>)))"

end
