(* ===== verification/HttpInv.thy ===== *)
theory HttpInv
  imports Http
begin

text \<open>
  The connection state of the server as a transition system: the events of the kqueue, one at a
  time and each from a registration that is current, and the tasks of the workers, in any order.
  The invariant says which pointers are alive: the client list holds exactly the open connections,
  every registration belongs to an open connection, and the node or task it points to is allocated
  and is that connection's.
\<close>

section \<open>The invariant\<close>

definition node_for :: "bool \<Rightarrow> ('m, 'p) server_t \<Rightarrow> udata \<Rightarrow> int \<Rightarrow> bool" where
  "node_for x s u fd \<longleftrightarrow> (\<exists>p c. u = NodeData p \<and> list_client p (sv_clients s) = Inr c \<and> cl_fd c = fd
     \<and> (x \<longrightarrow> list_look fd (sv_clients s) = Some (Inr p)))"

definition task_for :: "('m, 'p) server_t \<Rightarrow> udata \<Rightarrow> int \<Rightarrow> bool" where
  "task_for s u fd \<longleftrightarrow> (\<exists>i tn. u = TaskData i \<and> sv_tasks s i = Some tn \<and> cl_fd (t_client tn) = fd \<and> i \<notin> set (sv_pool s))"

definition reg_inv :: "bool \<Rightarrow> ('m, 'p) server_t \<Rightarrow> int \<times> filter_t \<times> udata \<Rightarrow> bool" where
  "reg_inv x s r = (case r of (fd, f, u) \<Rightarrow> fd \<in> set (sv_conns s) \<and>
     (case f of EVFILT_READ \<Rightarrow> node_for x s u fd | EVFILT_WRITE \<Rightarrow> task_for s u fd | EVFILT_TIMER \<Rightarrow> False))"

definition reg_key :: "int \<times> filter_t \<times> udata \<Rightarrow> int \<times> filter_t" where
  "reg_key r = (fst r, fst (snd r))"

definition tasks_ok :: "('m, 'p) server_t \<Rightarrow> bool" where
  "tasks_ok s \<longleftrightarrow> distinct (sv_pool s) \<and> (\<forall>i \<in> set (sv_pool s). sv_tasks s i \<noteq> None)
     \<and> (\<forall>i. sv_tasks s i \<noteq> None \<longrightarrow> i < sv_tnext s)"

definition server_inv :: "bool \<Rightarrow> ('m, 'p) server_t \<Rightarrow> bool" where
  "server_inv x s \<longleftrightarrow> tracks x holds (sv_clients s) (sv_conns s) \<and> distinct (map reg_key (sv_kq s))
     \<and> (\<forall>r \<in> set (sv_kq s). reg_inv x s r) \<and> tasks_ok s"

text \<open>What holds in every reachable state.\<close>

abbreviation reg_ok :: "('m, 'p) server_t \<Rightarrow> int \<times> filter_t \<times> udata \<Rightarrow> bool" where
  "reg_ok \<equiv> reg_inv False"

abbreviation server_ok :: "('m, 'p) server_t \<Rightarrow> bool" where
  "server_ok \<equiv> server_inv False"

lemma server_inv_weaken: "server_inv x s \<Longrightarrow> server_ok s"
  by (fastforce simp: server_inv_def tracks_def reg_inv_def node_for_def split: filter_t.splits)

text \<open>Only these six fields play a part in it.\<close>

lemma server_inv_cong:
  assumes "sv_clients s' = sv_clients s" and "sv_conns s' = sv_conns s" and "sv_kq s' = sv_kq s"
    and "sv_tasks s' = sv_tasks s" and "sv_tnext s' = sv_tnext s" and "sv_pool s' = sv_pool s"
  shows "server_inv x s' = server_inv x s"
proof -
  have "reg_inv x s' = reg_inv x s"
    using assms by (auto simp: fun_eq_iff reg_inv_def node_for_def task_for_def split: filter_t.splits)
  then show ?thesis using assms by (simp add: server_inv_def tasks_ok_def)
qed

lemma server_inv_frame [simp]:
  "server_inv x (s\<lparr>sv_heap := h\<rparr>) = server_inv x s"
  "server_inv x (s\<lparr>sv_files := t\<rparr>) = server_inv x s"
  "server_inv x (s\<lparr>sv_out := f\<rparr>) = server_inv x s"
  by (rule server_inv_cong; simp)+

text \<open>A registration stays good while its connection stays open, its client stays on the list and its
  task stays allocated and out of the pool.\<close>

lemma reg_inv_mono:
  assumes "reg_inv x s (fd, f, u)" and "fd \<in> set (sv_conns s) \<Longrightarrow> fd \<in> set (sv_conns s')"
    and "\<And>p c. list_client p (sv_clients s) = Inr c \<Longrightarrow> cl_fd c = fd \<Longrightarrow> list_client p (sv_clients s') = Inr c"
    and "\<And>p. p \<noteq> None \<Longrightarrow> x \<Longrightarrow> list_look fd (sv_clients s) = Some (Inr p) \<Longrightarrow> list_look fd (sv_clients s') = Some (Inr p)"
    and "\<And>i tn. sv_tasks s i = Some tn \<Longrightarrow> i \<notin> set (sv_pool s) \<Longrightarrow> cl_fd (t_client tn) = fd \<Longrightarrow>
      \<exists>tn'. sv_tasks s' i = Some tn' \<and> t_client tn' = t_client tn \<and> i \<notin> set (sv_pool s')"
  shows "reg_inv x s' (fd, f, u)"
proof (cases f)
  case EVFILT_READ
  then obtain p c where "u = NodeData p" "list_client p (sv_clients s) = Inr c" "cl_fd c = fd"
    "x \<longrightarrow> list_look fd (sv_clients s) = Some (Inr p)"
    using assms(1) by (auto simp: reg_inv_def node_for_def)
  moreover from this have "p \<noteq> None" by (cases p) (auto simp: list_client_def node_at_def)
  ultimately show ?thesis using EVFILT_READ assms(1-4) by (auto simp: reg_inv_def node_for_def)
next
  case EVFILT_WRITE
  then obtain i tn where "u = TaskData i" "sv_tasks s i = Some tn" "i \<notin> set (sv_pool s)" "cl_fd (t_client tn) = fd"
    using assms(1) by (auto simp: reg_inv_def task_for_def)
  then show ?thesis using EVFILT_WRITE assms(1,2) assms(5) [of i tn] by (auto simp: reg_inv_def task_for_def)
next
  case EVFILT_TIMER
  then show ?thesis using assms(1) by (simp add: reg_inv_def)
qed

lemma ev_delete_keys: "distinct (map reg_key kq) \<Longrightarrow> distinct (map reg_key (ev_delete fd f kq))"
  by (simp add: ev_delete_def distinct_map_filter)

lemma set_ev_delete: "r \<in> set (ev_delete fd f kq) \<longleftrightarrow> r \<in> set kq \<and> reg_key r \<noteq> (fd, f)"
  by (cases r) (auto simp: ev_delete_def reg_key_def)

lemma set_ev_add: "r \<in> set (ev_add fd f u kq) \<longleftrightarrow> r = (fd, f, u) \<or> r \<in> set kq \<and> reg_key r \<noteq> (fd, f)"
  by (simp add: ev_add_def set_ev_delete)

lemma ev_add_keys: "distinct (map reg_key kq) \<Longrightarrow> distinct (map reg_key (ev_add fd f u kq))"
  using set_ev_delete [of _ fd f kq] by (auto simp: ev_add_def ev_delete_keys reg_key_def)

section \<open>Removing a client\<close>

text \<open>A client is removed when it is found; its connection need not be open any more.\<close>

lemma remove_client_cases:
  assumes "server_inv x s"
  obtains (absent) "fd \<notin> set (sv_conns s)" "list_look fd (sv_clients s) = Some (Inr None)" "remove_client s fd = Some (Inr s)"
  | (found) p c cl where
    "remove_client s fd = Some (Inr (s\<lparr>sv_kq := filter (\<lambda>(fd', _). fd' \<noteq> fd) (sv_kq s),
       sv_conns := close_fd fd (sv_conns s), sv_clients := cl\<rparr>))"
    "tracks x holds cl (close_fd fd (sv_conns s))"
    "list_client (Some p) (sv_clients s) = Inr c" "cl_fd c = fd" "list_client (Some p) cl = Inl UseAfterFree"
    "\<And>q d. list_client q (sv_clients s) = Inr d \<Longrightarrow> cl_fd d \<noteq> fd \<Longrightarrow> list_client q cl = Inr d"
    "list_look fd (sv_clients s) = Some (Inr (Some p))"
    "\<And>fd'. fd' \<noteq> fd \<Longrightarrow> list_look fd' cl = list_look fd' (sv_clients s)"
proof (cases "list_look fd (sv_clients s) = Some (Inr None)")
  case True
  then have "fd \<notin> set (sv_conns s)" using clients.listed_tracks [of x "sv_clients s" "sv_conns s" fd] assms by (auto simp: server_inv_def)
  with True absent show thesis by (simp add: remove_client_def)
next
  case False
  have t: "tracks x holds (sv_clients s) (sv_conns s)" using assms by (simp add: server_inv_def)
  from clients.found_tracks [OF t False] obtain p c cl where
    1: "list_look fd (sv_clients s) = Some (Inr (Some p))" "list_client (Some p) (sv_clients s) = Inr c"
    "cl_fd c = fd" "list_del (Some p) (sv_clients s) = Inr (0, cl)" "tracks x holds cl (conn_close c (sv_conns s))"
    by blast
  have k: "filter (\<lambda>(fd', _). fd' \<noteq> fd) (ev_delete fd EVFILT_READ (sv_kq s)) = filter (\<lambda>(fd', _). fd' \<noteq> fd) (sv_kq s)"
    by (auto simp: ev_delete_def intro!: filter_cong)
  have "remove_client s fd = Some (Inr (s\<lparr>sv_kq := filter (\<lambda>(fd', _). fd' \<noteq> fd) (sv_kq s),
       sv_conns := close_fd fd (sv_conns s), sv_clients := cl\<rparr>))"
    using 1 k by (simp add: remove_client_def close_client_def Let_def conn_close_def)
  moreover obtain cs where "holds (sv_clients s) cs" using t by (auto simp: tracks_def)
  note list_del_freed [OF t 1(1,4)] nodes.gone_others [OF t 1(1-4)] nodes.look_del [OF this 1(1,4)]
  ultimately show thesis using found [OF _ _ 1(2,3)] 1(1,3,5) by (simp add: conn_close_def)
qed

lemma remove_client_present:
  assumes "server_inv x s" and fd: "fd \<in> set (sv_conns s)"
  obtains p c cl where
    "remove_client s fd = Some (Inr (s\<lparr>sv_kq := filter (\<lambda>(fd', _). fd' \<noteq> fd) (sv_kq s),
       sv_conns := close_fd fd (sv_conns s), sv_clients := cl\<rparr>))"
    "list_client (Some p) (sv_clients s) = Inr c" "cl_fd c = fd" "list_look fd (sv_clients s) = Some (Inr (Some p))"
  by (rule remove_client_cases [OF assms(1), of fd]) (use fd in auto)

lemma remove_client_ok:
  assumes "server_inv x s"
  shows "\<exists>s'. remove_client s fd = Some (Inr s') \<and> server_inv x s' \<and> set (sv_conns s') = set (sv_conns s) - {fd}
     \<and> sv_tasks s' = sv_tasks s \<and> sv_pool s' = sv_pool s \<and> sv_heap s' = sv_heap s \<and> sv_out s' = sv_out s
     \<and> sv_ln s' = sv_ln s \<and> sv_tnext s' = sv_tnext s
     \<and> sv_kq s' = filter (\<lambda>(fd', _). fd' \<noteq> fd) (sv_kq s)
     \<and> (\<forall>p. list_look fd (sv_clients s) = Some (Inr (Some p)) \<longrightarrow> list_client (Some p) (sv_clients s') = Inl UseAfterFree)"
  using assms
proof (cases rule: remove_client_cases [where fd = fd])
  case absent
  moreover have "filter (\<lambda>(fd', _). fd' \<noteq> fd) (sv_kq s) = sv_kq s"
    using assms absent(1) by (auto simp: filter_id_conv server_inv_def reg_inv_def)
  ultimately show ?thesis using assms by simp
next
  case (found p c cl)
  let ?s = "s\<lparr>sv_kq := filter (\<lambda>(fd', _). fd' \<noteq> fd) (sv_kq s), sv_conns := close_fd fd (sv_conns s), sv_clients := cl\<rparr>"
  have "reg_inv x ?s r" if "r \<in> set (sv_kq ?s)" for r
  proof -
    obtain fd' f u where r: "r = (fd', f, u)" by (cases r)
    with that assms have "reg_inv x s (fd', f, u)" "fd' \<noteq> fd" by (auto simp: server_inv_def)
    then show ?thesis using found(6,8) unfolding r
      by (elim reg_inv_mono) (auto simp: close_fd_def)
  qed
  then have "server_inv x ?s"
    using assms found(2) by (simp add: server_inv_def tasks_ok_def distinct_map_filter)
  then show ?thesis using found(1,5,7) by (intro exI [of _ ?s]) (simp add: close_fd_def)
qed

text \<open>Registering an event for an open connection, and setting up a task, keep the invariant.\<close>

lemma server_ok_add:
  assumes "server_inv x s" and "reg_inv x s (fd, f, u)"
  shows "server_inv x (s\<lparr>sv_kq := ev_add fd f u (sv_kq s)\<rparr>)"
proof -
  have r: "reg_inv x (s\<lparr>sv_kq := q\<rparr>) r = reg_inv x s r" for q r
    by (simp add: reg_inv_def node_for_def task_for_def cong: filter_t.case_cong)
  show ?thesis using assms ev_add_keys [of "sv_kq s" fd f u]
    by (auto simp: server_inv_def tasks_ok_def r set_ev_add)
qed

lemma server_ok_delete:
  assumes "server_inv x s"
  shows "server_inv x (s\<lparr>sv_kq := ev_delete fd f (sv_kq s)\<rparr>)"
proof -
  have r: "reg_inv x (s\<lparr>sv_kq := q\<rparr>) r = reg_inv x s r" for q r
    by (simp add: reg_inv_def node_for_def task_for_def cong: filter_t.case_cong)
  show ?thesis using assms ev_delete_keys [of "sv_kq s" fd f]
    by (auto simp: server_inv_def tasks_ok_def r set_ev_delete)
qed

section \<open>Accepting\<close>

text \<open>What is known of the answers of one round: \<open>accept\<close> returns -1 or a descriptor that is not in use.  When
  \<open>x\<close>, also that the kernel does not refuse to register the new connection.\<close>

definition answer_in :: "bool \<Rightarrow> conn_in \<Rightarrow> ('m, 'p) server_t \<Rightarrow> bool" where
  "answer_in x ci s \<longleftrightarrow> ci_fd ci = -1 \<or> 0 \<le> ci_fd ci \<and> ci_fd ci \<notin> set (sv_conns s) \<and> ci_fd ci \<noteq> ln_fd (sv_ln s)
     \<and> (x \<longrightarrow> 0 \<le> ci_kevent ci)"

fun answers_in :: "bool \<Rightarrow> client_t \<Rightarrow> conn_in list \<Rightarrow> ('m, 'p) server_t \<Rightarrow> bool" where
  "answers_in x c0 [] s \<longleftrightarrow> True"
| "answers_in x c0 (ci # cis) s \<longleftrightarrow> answer_in x ci s \<and>
     (case accept_client c0 [ci] s of Inl _ \<Rightarrow> True | Inr s1 \<Rightarrow> answers_in x c0 cis s1)"

abbreviation answer_ok :: "conn_in \<Rightarrow> ('m, 'p) server_t \<Rightarrow> bool" where
  "answer_ok \<equiv> answer_in False"

abbreviation answers_ok :: "client_t \<Rightarrow> conn_in list \<Rightarrow> ('m, 'p) server_t \<Rightarrow> bool" where
  "answers_ok \<equiv> answers_in False"

lemma answers_weaken: "answers_in x c0 cis s \<Longrightarrow> answers_ok c0 cis s"
  by (induction cis arbitrary: s) (auto simp: answer_in_def split: sum.splits simp del: accept_client.simps)

lemma accept_rounds:
  "accept_client c0 (ci # cis) s =
     (if ci_fd ci = -1 then Inr s else rbind (accept_client c0 [ci] s) (accept_client c0 cis))"
  by (simp add: s_accept_def Let_def rbind_assoc cong: rbind_cong)

text \<open>A descriptor that was just opened and is closed again leaves no trace.\<close>

lemma open_close:
  assumes "server_inv x s" and "cl_fd c \<notin> set (sv_conns s)"
  shows "close_client c (s\<lparr>sv_conns := cl_fd c # sv_conns s\<rparr>) = s"
proof -
  have "filter (\<lambda>(fd, _). fd \<noteq> cl_fd c) (sv_kq s) = sv_kq s"
    using assms by (auto simp: filter_id_conv server_inv_def reg_inv_def)
  then show ?thesis using assms(2) by (simp add: close_client_def conn_close_def close_fd_def)
qed

text \<open>A client put on the list, and its registration.\<close>

lemma server_ok_new_client:
  assumes ok: "server_inv x s" and fd: "cl_fd c \<notin> set (sv_conns s)"
    and add: "list_add c (sv_clients s) = Inr (node, cl)"
  shows "node \<noteq> None \<and> server_inv x (s\<lparr>sv_conns := cl_fd c # sv_conns s, sv_clients := cl,
           sv_kq := ev_add (cl_fd c) EVFILT_READ (NodeData node) (sv_kq s)\<rparr>)"
proof -
  have t: "tracks x holds (sv_clients s) (sv_conns s)" using ok by (simp add: server_inv_def)
  have "list_room (sv_clients s)" using add by (auto simp: list_room_def list_add_def insert_client_def split: if_splits)
  from clients.add_tracks [OF t this fd] add
  have 1: "node \<noteq> None" "list_client node cl = Inr c" "tracks x holds cl (cl_fd c # sv_conns s)" by auto
  have 2: "list_client q cl = Inr d" if "list_client q (sv_clients s) = Inr d" for q d
  proof -
    obtain cs where "holds (sv_clients s) cs" using t by (auto simp: tracks_def)
    moreover obtain p where "node = Some p" using 1(1) by blast
    ultimately show ?thesis using nodes.add_frame add that by blast
  qed
  obtain cs p where cs: "holds (sv_clients s) cs" "node = Some p" using t 1(1) by (auto simp: tracks_def)
  have 3: "list_look fd' cl = Some (Inr q)" if "q \<noteq> None" "list_look fd' (sv_clients s) = Some (Inr q)" for fd' q
    using nodes.look_add [OF cs(1), of c p cl fd' q] add cs(2) that by simp
  have 4: "list_look (cl_fd c) cl = Some (Inr node)" if x
  proof -
    have "list_look (cl_fd c) (sv_clients s) = Some (Inr None)" using clients.gone_tracks t fd that by simp
    then show ?thesis using nodes.look_add [OF cs(1), of c p cl "cl_fd c" None] add cs(2) by simp
  qed
  let ?s = "s\<lparr>sv_conns := cl_fd c # sv_conns s, sv_clients := cl\<rparr>"
  have "reg_inv x ?s r" if "r \<in> set (sv_kq s)" for r
  proof -
    obtain fd' f u where r: "r = (fd', f, u)" by (cases r)
    with that ok have "reg_inv x s (fd', f, u)" by (auto simp: server_inv_def)
    then show ?thesis using 2 3 unfolding r by (elim reg_inv_mono) auto
  qed
  then have "server_inv x ?s" using ok 1(3) by (auto simp: server_inv_def tasks_ok_def)
  moreover have "reg_inv x ?s (cl_fd c, EVFILT_READ, NodeData node)"
    using 1 4 by (auto simp: reg_inv_def node_for_def)
  ultimately show ?thesis using server_ok_add [of x ?s "cl_fd c" EVFILT_READ "NodeData node"] 1(1) by simp
qed

text \<open>A client put on the list whose registration is refused stays there.\<close>

lemma refused_client:
  assumes ok: "server_ok s" and fd: "cl_fd c \<notin> set (sv_conns s)" and add: "list_add c (sv_clients s) = Inr (node, cl)"
  shows "close_client c (s\<lparr>sv_conns := cl_fd c # sv_conns s, sv_clients := cl\<rparr>) = s\<lparr>sv_clients := cl\<rparr>"
    and "server_ok (s\<lparr>sv_clients := cl\<rparr>)"
proof -
  have k: "filter (\<lambda>(fd, _). fd \<noteq> cl_fd c) (sv_kq s) = sv_kq s"
    using assms(1,2) by (auto simp: filter_id_conv server_inv_def reg_inv_def)
  then show "close_client c (s\<lparr>sv_conns := cl_fd c # sv_conns s, sv_clients := cl\<rparr>) = s\<lparr>sv_clients := cl\<rparr>"
    using fd by (simp add: close_client_def conn_close_def close_fd_def)
  let ?s = "s\<lparr>sv_conns := cl_fd c # sv_conns s, sv_clients := cl, sv_kq := ev_add (cl_fd c) EVFILT_READ (NodeData node) (sv_kq s)\<rparr>"
  have s: "server_ok ?s" using server_ok_new_client [OF ok fd add] by simp
  have "reg_ok (s\<lparr>sv_clients := cl\<rparr>) r" if "r \<in> set (sv_kq s)" for r
  proof -
    obtain fd' f u where r: "r = (fd', f, u)" by (cases r)
    with that ok fd have fd': "reg_ok s (fd', f, u)" "fd' \<in> set (sv_conns s)" "fd' \<noteq> cl_fd c"
      by (auto simp: server_inv_def reg_inv_def)
    then have "(fd', f, u) \<in> set (sv_kq ?s)" using that r by (simp add: set_ev_add reg_key_def)
    then have "reg_ok ?s (fd', f, u)" using s unfolding server_inv_def by blast
    then show ?thesis unfolding r by (elim reg_inv_mono) (use fd'(2) in auto)
  qed
  moreover have "tracks False holds cl (sv_conns s)"
    using s by (auto simp: server_inv_def elim: tracks_mono)
  ultimately show "server_ok (s\<lparr>sv_clients := cl\<rparr>)" using ok by (simp add: server_inv_def tasks_ok_def)
qed

text \<open>The three ends of a round with a new connection.\<close>

lemma enrol_client_cases:
  assumes "server_inv x s" and fd: "cl_fd c \<notin> set (sv_conns s)" and "x \<longrightarrow> 0 \<le> ci_kevent ci"
    and e: "enrol_client ci c (s\<lparr>sv_conns := cl_fd c # sv_conns s\<rparr>) = Inr s'"
  obtains (closed) "s' = s"
  | (refused) node cl where "list_add c (sv_clients s) = Inr (node, cl)" "\<not> x" "s' = s\<lparr>sv_clients := cl\<rparr>"
  | (enrolled) p cl where "list_add c (sv_clients s) = Inr (Some p, cl)" "s' = s\<lparr>sv_conns := cl_fd c # sv_conns s, sv_clients := cl,
           sv_kq := ev_add (cl_fd c) EVFILT_READ (NodeData (Some p)) (sv_kq s)\<rparr>"
proof (cases "ci_nonblock ci = -1")
  case True
  then show thesis using e open_close [OF assms(1,2)] closed by (simp add: enrol_client_def)
next
  case False
  obtain node cl where add: "list_add c (sv_clients s) = Inr (node, cl)"
    using e False by (auto simp: enrol_client_def rbind_eq_Inr)
  have "node \<noteq> None" using server_ok_new_client [OF assms(1,2) add] by simp
  then obtain p where p: "node = Some p" by blast
  show thesis
  proof (cases "ci_kevent ci < 0")
    case True
    have "s' = close_client c (s\<lparr>sv_conns := cl_fd c # sv_conns s, sv_clients := cl\<rparr>)"
      using e False add p True by (simp add: enrol_client_def)
    then show thesis using refused_client(1) [OF server_inv_weaken [OF assms(1)] fd add] refused [OF add] True assms(3) by simp
  next
    case kev: False
    then show thesis using enrolled [of p cl] e False add p by (simp add: enrol_client_def Let_def)
  qed
qed

lemma accept_round_ok:
  assumes "server_inv x s" and "answer_in x ci s" and "accept_client c0 [ci] s = Inr s'"
  shows "server_inv x s' \<and> sv_ln s' = sv_ln s"
proof (cases "ci_fd ci = -1")
  case True
  then show ?thesis using assms by (simp add: s_accept_def)
next
  case False
  then have fd: "0 \<le> ci_fd ci" "ci_fd ci \<notin> set (sv_conns s)" "x \<longrightarrow> 0 \<le> ci_kevent ci"
    using assms(2) by (auto simp: answer_in_def)
  obtain c where c: "enrol_client ci c (s\<lparr>sv_conns := ci_fd ci # sv_conns s\<rparr>) = Inr s'" "cl_fd c = ci_fd ci"
    using assms(3) fd(1) False by (auto simp: s_accept_def Let_def rbind_eq_Inr)
  then have n: "cl_fd c \<notin> set (sv_conns s)" using fd(2) by simp
  from assms(1) n fd(3) c(1) [folded c(2)] show ?thesis
  proof (cases rule: enrol_client_cases)
    case (refused node cl)
    then show ?thesis using refused_client(2) [OF _ n refused(1)] assms(1) by simp
  next
    case (enrolled p cl)
    then show ?thesis using server_ok_new_client [OF assms(1) n enrolled(1)] by simp
  qed (use assms(1) in simp)
qed

lemma accept_client_ok:
  "server_inv x s \<Longrightarrow> answers_in x c0 cis s \<Longrightarrow> accept_client c0 cis s = Inr s' \<Longrightarrow> server_inv x s' \<and> sv_ln s' = sv_ln s"
proof (induction cis arbitrary: s)
  case Nil
  then show ?case by simp
next
  case (Cons ci cis)
  show ?case
  proof (cases "ci_fd ci = -1")
    case True
    then show ?thesis using Cons.prems by (simp add: s_accept_def)
  next
    case False
    with Cons.prems(3) obtain s1 where 1: "accept_client c0 [ci] s = Inr s1" "accept_client c0 cis s1 = Inr s'"
      unfolding accept_rounds [of c0 ci cis] by (auto simp: rbind_eq_Inr)
    have "answer_in x ci s" "answers_in x c0 cis s1" using Cons.prems(2) 1(1) by (simp_all del: accept_client.simps)
    then have "server_inv x s1" "sv_ln s1 = sv_ln s" "answers_in x c0 cis s1"
      using accept_round_ok [OF Cons.prems(1) _ 1(1)] by simp_all
    then show ?thesis using Cons.IH [OF _ _ 1(2)] by simp
  qed
qed

section \<open>Reading, handling, writing\<close>

lemma server_ok_new_task:
  assumes "server_inv x s"
  shows "server_inv x (s\<lparr>sv_tasks := (sv_tasks s)(sv_tnext s \<mapsto> tn), sv_tnext := Suc (sv_tnext s),
     sv_pool := (if b then sv_pool s @ [sv_tnext s] else sv_pool s)\<rparr>)"
proof -
  let ?s = "s\<lparr>sv_tasks := (sv_tasks s)(sv_tnext s \<mapsto> tn), sv_tnext := Suc (sv_tnext s),
     sv_pool := (if b then sv_pool s @ [sv_tnext s] else sv_pool s)\<rparr>"
  have t: "sv_tnext s \<noteq> i" if "sv_tasks s i = Some tn" for i tn
    using assms that by (auto simp: server_inv_def tasks_ok_def)
  have "tasks_ok ?s" using assms t by (fastforce simp: server_inv_def tasks_ok_def less_Suc_eq)
  moreover have "reg_inv x ?s r" if "r \<in> set (sv_kq s)" for r
  proof -
    obtain fd f u where r: "r = (fd, f, u)" by (cases r)
    with that assms have "reg_inv x s (fd, f, u)" by (auto simp: server_inv_def)
    then show ?thesis unfolding r by (elim reg_inv_mono) (auto dest: t)
  qed
  ultimately show ?thesis using assms by (simp add: server_inv_def)
qed

text \<open>The three ways in which a read ends: nothing but memory was used, the client is gone, or a task was
  started.\<close>

lemma read_from_client_cases:
  assumes "read_from_client rs ti c s = Some (Inr s')"
  obtains (memory) h where "s' = s\<lparr>sv_heap := h\<rparr>"
  | (gone) h where "remove_client (s\<lparr>sv_heap := h\<rparr>) (cl_fd c) = Some (Inr s')"
  | (task) tn h where "s' = s\<lparr>sv_tasks := (sv_tasks s)(sv_tnext s \<mapsto> tn), sv_tnext := Suc (sv_tnext s),
       sv_pool := (if ti_pushed ti then sv_pool s @ [sv_tnext s] else sv_pool s)\<rparr>\<lparr>sv_heap := h\<rparr>"
proof -
  obtain e h where e: "rbind (new_string (Some []) (sv_heap s)) (\<lambda>(BUF, h). recv_loop rs BUF h) = Inr (e, h)"
    using assms by (auto simp: read_from_client_def split: sum.splits)
  show thesis
  proof (cases e)
    case (Got BUF)
    let ?t = "\<lambda>tn. s\<lparr>sv_tasks := (sv_tasks s)(sv_tnext s \<mapsto> tn), sv_tnext := Suc (sv_tnext s),
       sv_pool := (if ti_pushed ti then sv_pool s @ [sv_tnext s] else sv_pool s)\<rparr>"
    from Got assms e have "\<exists>g. s' = s\<lparr>sv_heap := g\<rparr> \<or> (\<exists>tn. s' = (?t tn)\<lparr>sv_heap := g\<rparr>)"
      by (cases "ti_tnode ti"; cases "ti_req ti \<and> ti_resp ti")
        (auto simp: read_from_client_def Let_def rbind_eq_Inr simp del: de_Morgan_conj split del: if_split split: if_split_asm)
    then show thesis using memory task by blast
  next
    case Gone
    then show thesis using gone assms e by (simp add: read_from_client_def)
  next
    case Lost
    then show thesis using assms e by (intro memory [of h]) (simp add: read_from_client_def)
  qed
qed

lemma read_from_client_ok:
  assumes "server_inv x s" and "read_from_client rs ti c s = Some (Inr s')"
  shows "server_inv x s' \<and> sv_ln s' = sv_ln s"
  using assms(2)
proof (cases rule: read_from_client_cases)
  case (gone h)
  then show ?thesis using remove_client_ok [of x "s\<lparr>sv_heap := h\<rparr>" "cl_fd c"] assms(1) by auto
qed (use assms(1) server_ok_new_task [OF assms(1), of "ti_pushed ti"] in simp_all)

text \<open>A worker takes a task out of the pool and runs it.  The kernel refuses to register a descriptor
  that is not open.\<close>

definition take_task :: "nat \<Rightarrow> ('m, 'p) server_t \<Rightarrow> ('m, 'p) server_t" where
  "take_task i s = s\<lparr>sv_pool := remove1 i (sv_pool s)\<rparr>"

lemma server_ok_take:
  assumes "server_inv x s"
  shows "server_inv x (take_task i s)"
proof -
  have "reg_inv x (take_task i s) r" if "r \<in> set (sv_kq s)" for r
  proof -
    obtain fd f u where r: "r = (fd, f, u)" by (cases r)
    with that assms have "reg_inv x s (fd, f, u)" by (auto simp: server_inv_def)
    then show ?thesis unfolding r take_task_def by (elim reg_inv_mono) (auto dest: notin_set_remove1)
  qed
  then show ?thesis using assms by (auto simp: server_inv_def tasks_ok_def take_task_def dest: notin_set_remove1)
qed

text \<open>Rewriting a task's contexts changes no client.\<close>

lemma server_ok_update_task:
  assumes "server_inv x s" and "sv_tasks s i = Some tn" and "t_client tn' = t_client tn"
  shows "server_inv x (s\<lparr>sv_tasks := (sv_tasks s)(i \<mapsto> tn')\<rparr>)"
proof -
  let ?s = "s\<lparr>sv_tasks := (sv_tasks s)(i \<mapsto> tn')\<rparr>"
  have "reg_inv x ?s r" if "r \<in> set (sv_kq s)" for r
  proof -
    obtain fd f u where r: "r = (fd, f, u)" by (cases r)
    with that assms(1) have "reg_inv x s (fd, f, u)" by (auto simp: server_inv_def)
    then show ?thesis unfolding r using assms(2,3) by (elim reg_inv_mono) auto
  qed
  then show ?thesis using assms(1,2) by (auto simp: server_inv_def tasks_ok_def)
qed

definition kernel_ok :: "('m, 'f, 'p) worker_env \<Rightarrow> nat \<Rightarrow> ('m, 'p) server_t \<Rightarrow> bool" where
  "kernel_ok W i s \<longleftrightarrow> (case sv_tasks s i of None \<Rightarrow> True
     | Some tn \<Rightarrow> cl_fd (t_client tn) \<in> set (sv_conns s) \<or> we_kevent W < 0)"

lemma handle_conn_ok:
  assumes "server_inv x s" and "i \<in> set (sv_pool s)" and "kernel_ok W i s"
    and "handle_conn W i (take_task i s) = Inr s'"
  shows "server_inv x s' \<and> sv_ln s' = sv_ln s"
proof -
  let ?s = "take_task i s"
  have ok: "server_inv x ?s" using assms(1) by (rule server_ok_take)
  have i: "i \<notin> set (sv_pool ?s)" using assms(1) by (simp add: take_task_def server_inv_def tasks_ok_def)
  obtain tn where tn: "sv_tasks ?s i = Some tn" "sv_tasks s i = Some tn"
    using assms(4) by (auto simp: handle_conn_eq take_task_def split: option.splits)
  have 1: "server_inv x (?s\<lparr>sv_tasks := (sv_tasks ?s)(i \<mapsto> tn')\<rparr>)" if "t_client tn' = t_client tn" for tn'
    by (rule server_ok_update_task [OF ok tn(1) that])
  have 2: "server_inv x (?s\<lparr>sv_tasks := (sv_tasks ?s)(i \<mapsto> tn'), sv_kq := ev_add (cl_fd (t_client tn)) EVFILT_WRITE (TaskData i) (sv_kq ?s)\<rparr>)"
    if "t_client tn' = t_client tn" "\<not> we_kevent W < 0" for tn'
  proof -
    have "cl_fd (t_client tn) \<in> set (sv_conns ?s)"
      using assms(3) that(2) tn(2) by (simp add: kernel_ok_def take_task_def)
    then have "reg_inv x (?s\<lparr>sv_tasks := (sv_tasks ?s)(i \<mapsto> tn')\<rparr>) (cl_fd (t_client tn), EVFILT_WRITE, TaskData i)"
      using that(1) i by (simp add: reg_inv_def task_for_def)
    from server_ok_add [OF 1 [OF that(1)] this] show ?thesis by simp
  qed
  have 3: "server_inv x (?s\<lparr>sv_heap := h, sv_files := t, sv_tasks := (sv_tasks ?s)(i \<mapsto> tn'),
      sv_kq := (if we_kevent W < 0 then sv_kq ?s else ev_add (cl_fd (t_client tn)) EVFILT_WRITE (TaskData i) (sv_kq ?s))\<rparr>)"
    if "t_client tn' = t_client tn" for tn' h t
  proof (cases "we_kevent W < 0")
    case True
    show ?thesis using 1 [OF that] by (rule server_inv_cong [THEN iffD2, rotated -1]) (simp_all add: True)
  next
    case False
    show ?thesis using 2 [OF that False] by (rule server_inv_cong [THEN iffD2, rotated -1]) (simp_all add: False)
  qed
  show ?thesis
    using assms(4) tn(1) ok 1 3
    by (auto simp: handle_conn_eq rbind_eq_Inr Let_def take_task_def split: if_splits)
qed

lemma write_to_client_ok:
  assumes "server_inv x s" and "reg_inv x s (fd, EVFILT_WRITE, TaskData i)"
    and "\<forall>r \<in> set (sv_kq s). reg_key r \<noteq> (fd, EVFILT_WRITE)"
    and "write_to_client sends i s = Some (Inr s')"
  shows "server_inv x s' \<and> sv_ln s' = sv_ln s"
proof -
  from assms(2) obtain tn where tn: "sv_tasks s i = Some tn" "cl_fd (t_client tn) = fd" "i \<notin> set (sv_pool s)"
    by (auto simp: reg_inv_def task_for_def)
  obtain f e bytes out where
    load: "load (sdata (complete_resp (t_resp tn))) (nat (slen (complete_resp (t_resp tn)))) (sv_heap s) = Inr bytes"
    "send_loop sends bytes = (out, e)" "f = (sv_out s)(fd := sv_out s fd @ out)"
    using assms(4) tn by (auto simp: write_to_client_def Let_def split: sum.splits prod.splits)
  let ?s = "s\<lparr>sv_out := f\<rparr>"
  have ok: "server_inv x ?s" using assms(1) by simp
  have reg: "reg_inv x ?s (fd, EVFILT_WRITE, TaskData i)" using assms(2) by (elim reg_inv_mono) auto
  obtain s2 where s2: "remove_client ?s fd = Some (Inr s2)" "server_inv x s2" "sv_tasks s2 = sv_tasks s"
    "sv_pool s2 = sv_pool s" "sv_ln s2 = sv_ln s" "sv_kq s2 = filter (\<lambda>(fd', _). fd' \<noteq> fd) (sv_kq s)"
    using remove_client_ok [OF ok, of fd] by auto
  show ?thesis
  proof (cases e)
    case SWait
    then have "s' = ?s\<lparr>sv_kq := ev_add fd EVFILT_WRITE (TaskData i) (sv_kq ?s)\<rparr>"
      using assms(4) tn load by (simp add: write_to_client_def Let_def)
    then show ?thesis using server_ok_add [OF ok reg] by simp
  next
    case SLost
    then have "s' = ?s" using assms(4) tn load by (simp add: write_to_client_def Let_def)
    then show ?thesis using ok by simp
  next
    case SFail
    then show ?thesis using assms(4) tn load s2 by (simp add: write_to_client_def Let_def)
  next
    case SDone
    then obtain h where s': "s' = s2\<lparr>sv_heap := h, sv_tasks := (sv_tasks s2)(i := None)\<rparr>"
      using assms(4) tn load s2(1) by (auto simp: write_to_client_def Let_def rbind_eq_Inr)
    have "reg_inv x s' r" if "r \<in> set (sv_kq s2)" for r
    proof -
      obtain fd' f u where r: "r = (fd', f, u)" by (cases r)
      have "reg_inv x s2 (fd', f, u)" "fd' \<noteq> fd" using that s2(2,6) r by (auto simp: server_inv_def)
      then show ?thesis unfolding r s'
        using tn(1,2) s2(3) by (elim reg_inv_mono) (auto)
    qed
    then show ?thesis using s2 tn(3) by (auto simp: s' server_inv_def tasks_ok_def)
  qed
qed

section \<open>The transition system\<close>

text \<open>An event that \<open>kevent\<close> may report: a current registration, or a connection on the listener.\<close>

definition reported :: "'p kevent_t \<Rightarrow> ('m, 'p) server_t \<Rightarrow> bool" where
  "reported e s \<longleftrightarrow> (ke_ident e, ke_filter e, ke_udata e) \<in> set (sv_kq s)
     \<or> (ke_ident e, ke_filter e, ke_udata e) = (ln_fd (sv_ln s), EVFILT_READ, NoData)"

inductive step_in :: "bool \<Rightarrow> ('m, 'f, 'p) worker_env set \<Rightarrow> ('m, 'p) server_t \<Rightarrow> ('m, 'p) server_t \<Rightarrow> bool"
  for x :: bool and E :: "('m, 'f, 'p) worker_env set" where
  event: "reported e s \<Longrightarrow> answers_in x c0 (ke_conns e) s \<Longrightarrow> handle_event c0 e s = Some (Inr s') \<Longrightarrow> step_in x E s s'"
| worker: "i \<in> set (sv_pool s) \<Longrightarrow> W \<in> E \<Longrightarrow> kernel_ok W i s \<Longrightarrow> handle_conn W i (take_task i s) = Inr s' \<Longrightarrow>
     step_in x E s s'"

inductive_cases step_inE [consumes 1, case_names event worker]: "step_in x E s s'"

text \<open>The state in which the loop starts: nobody connected.\<close>

definition idle :: "('m, 'p) server_t \<Rightarrow> bool" where
  "idle s \<longleftrightarrow> holds (sv_clients s) [] \<and> sv_conns s = [] \<and> sv_kq s = [] \<and> sv_tasks s = Map.empty \<and> sv_pool s = []"

inductive reach_in :: "bool \<Rightarrow> ('m, 'f, 'p) worker_env set \<Rightarrow> ('m, 'p) server_t \<Rightarrow> bool"
  for x :: bool and E :: "('m, 'f, 'p) worker_env set" where
  start: "idle s \<Longrightarrow> reach_in x E s"
| step: "reach_in x E s \<Longrightarrow> step_in x E s s' \<Longrightarrow> reach_in x E s'"

text \<open>All states that can be reached, and those that can be reached as long as the kernel registers every
  connection that is accepted.\<close>

abbreviation server_step :: "('m, 'f, 'p) worker_env set \<Rightarrow> ('m, 'p) server_t \<Rightarrow> ('m, 'p) server_t \<Rightarrow> bool" where
  "server_step \<equiv> step_in False"

abbreviation reach :: "('m, 'f, 'p) worker_env set \<Rightarrow> ('m, 'p) server_t \<Rightarrow> bool" where
  "reach \<equiv> reach_in False"

abbreviation calm_reach :: "('m, 'f, 'p) worker_env set \<Rightarrow> ('m, 'p) server_t \<Rightarrow> bool" where
  "calm_reach \<equiv> reach_in True"

lemma reach_weaken: "reach_in x E s \<Longrightarrow> reach E s"
proof (induction rule: reach_in.induct)
  case (step s s')
  have "server_step E s s'" using step.hyps(2)
    by (cases rule: step_inE) (blast intro: step_in.intros dest: answers_weaken)+
  with step.IH show ?case by (rule reach_in.step)
qed (rule reach_in.start)

lemma idle_ok: "idle s \<Longrightarrow> server_inv x s"
  by (auto simp: idle_def server_inv_def tasks_ok_def tracks_def intro!: exI [of _ "[]"])

lemma handle_event_listener:
  assumes "server_inv x s" and "reported e s" and "answers_in x c0 (ke_conns e) s"
    and "handle_event c0 e s = Some (Inr s')"
  shows "server_inv x s' \<and> sv_ln s' = sv_ln s"
proof (cases "ke_filter e")
  case EVFILT_READ
  consider "ke_eof e" | "\<not> ke_eof e" "ke_ident e = ln_fd (sv_ln s)"
    | "\<not> ke_eof e" "ke_ident e \<noteq> ln_fd (sv_ln s)" by blast
  then show ?thesis
  proof cases
    case 1
    then have "remove_client s (ke_ident e) = Some (Inr s')" using assms(4) EVFILT_READ by (simp add: handle_event_def)
    then show ?thesis using remove_client_ok [OF assms(1), of "ke_ident e"] by auto
  next
    case 2
    then have "accept_client c0 (ke_conns e) s = Inr s'" using assms(4) EVFILT_READ by (simp add: handle_event_def)
    then show ?thesis using accept_client_ok [OF assms(1,3)] by blast
  next
    case 3
    then obtain c where "read_from_client (ke_recvs e) (ke_task e) c s = Some (Inr s')"
      using assms(4) EVFILT_READ by (auto simp: handle_event_def split: udata.splits sum.splits)
    then show ?thesis using read_from_client_ok [OF assms(1)] by blast
  qed
next
  case EVFILT_WRITE
  then obtain i where i: "ke_udata e = TaskData i" "(ke_ident e, EVFILT_WRITE, TaskData i) \<in> set (sv_kq s)"
    "write_to_client (ke_sends e) i (s\<lparr>sv_kq := ev_delete (ke_ident e) EVFILT_WRITE (sv_kq s)\<rparr>) = Some (Inr s')"
    using assms(2,4) by (auto simp: handle_event_def reported_def split: udata.splits)
  have "reg_inv x s (ke_ident e, EVFILT_WRITE, TaskData i)" using assms(1) i(2) by (auto simp: server_inv_def)
  then have "reg_inv x (s\<lparr>sv_kq := ev_delete (ke_ident e) EVFILT_WRITE (sv_kq s)\<rparr>) (ke_ident e, EVFILT_WRITE, TaskData i)"
    by (elim reg_inv_mono) auto
  from write_to_client_ok [OF server_ok_delete [OF assms(1)] this _ i(3)] show ?thesis
    by (simp add: set_ev_delete)
next
  case EVFILT_TIMER
  then show ?thesis using assms(1,4) by (simp add: handle_event_def)
qed

lemma handle_event_ok:
  "server_inv x s \<Longrightarrow> reported e s \<Longrightarrow> answers_in x c0 (ke_conns e) s \<Longrightarrow> handle_event c0 e s = Some (Inr s') \<Longrightarrow> server_inv x s'"
  using handle_event_listener by blast

lemma server_step_ok:
  assumes "step_in x E s s'" and "server_inv x s"
  shows "server_inv x s'"
  using assms(1)
proof (cases rule: step_inE)
  case (event e c0)
  then show ?thesis by (intro handle_event_ok [OF assms(2)])
next
  case (worker i W)
  then show ?thesis using handle_conn_ok [OF assms(2) worker(1,3,4)] by simp
qed

lemma reach_ok: "reach_in x E s \<Longrightarrow> server_inv x s"
  by (induction rule: reach_in.induct) (rule idle_ok, assumption, rule server_step_ok)

section \<open>The list alone\<close>

text \<open>Whatever is reported, in whatever order, and whatever the calls answer, the client list stays well
  formed, so that the searches end.\<close>

definition list_ok :: "('m, 'p) server_t \<Rightarrow> bool" where
  "list_ok s \<longleftrightarrow> (\<exists>cs. holds (sv_clients s) cs)"

definition keeps_list :: "('m, 'p) server_t res option \<Rightarrow> bool" where
  "keeps_list r \<longleftrightarrow> (\<exists>x. r = Some x \<and> (\<forall>s'. x = Inr s' \<longrightarrow> list_ok s'))"

lemma list_ok_cong: "sv_clients s' = sv_clients s \<Longrightarrow> list_ok s' = list_ok s"
  by (simp add: list_ok_def)

lemma remove_client_keeps:
  assumes "list_ok s"
  shows "keeps_list (remove_client s fd)"
proof -
  obtain cs where cs: "holds (sv_clients s) cs" using assms by (auto simp: list_ok_def)
  show ?thesis
  proof (cases "fd \<in> cl_fd ` set cs")
    case True
    from clients.look_some [OF cs True] obtain p c cl where
      "list_look fd (sv_clients s) = Some (Inr (Some p))" "list_client (Some p) (sv_clients s) = Inr c"
      "list_del (Some p) (sv_clients s) = Inr (0, cl)" "holds cl (without fd cs)" by blast
    then show ?thesis by (auto simp: keeps_list_def remove_client_def close_client_def Let_def list_ok_def)
  next
    case False
    then show ?thesis using clients.look_none [OF cs False] assms by (simp add: keeps_list_def remove_client_def)
  qed
qed

lemma accept_client_keeps: "list_ok s \<Longrightarrow> accept_client c0 cis s = Inr s' \<Longrightarrow> list_ok s'"
proof (induction cis arbitrary: s)
  case (Cons ci cis)
  have e: "list_ok s2" if "enrol_client ci c s1 = Inr s2" "list_ok s1" for c s1 s2
  proof (cases "ci_nonblock ci = -1")
    case True
    then show ?thesis using that by (auto simp: enrol_client_def close_client_def list_ok_def)
  next
    case False
    then have "\<exists>node cl. list_add c (sv_clients s1) = Inr (node, cl) \<and> sv_clients s2 = cl"
      using that(1) by (auto simp: enrol_client_def close_client_def Let_def rbind_eq_Inr split: if_splits)
    then obtain node cl where a: "list_add c (sv_clients s1) = Inr (node, cl)" "sv_clients s2 = cl" by blast
    have "list_room (sv_clients s1)" using a(1) by (auto simp: list_room_def list_add_def insert_client_def split: if_splits)
    moreover have "\<exists>cs. holds (sv_clients s1) cs" using that(2) by (simp add: list_ok_def)
    then obtain cs where "holds (sv_clients s1) cs" by blast
    ultimately have "holds cl (cs @ [c])" using clients.add_ok [of "sv_clients s1" cs c] a(1) by auto
    then show ?thesis using a(2) by (auto simp: list_ok_def)
  qed
  have l: "list_ok (s\<lparr>sv_conns := t\<rparr>)" "list_ok (close_client c s)" for t c
    using Cons.prems(1) by (simp_all add: list_ok_def close_client_def)
  define conn where "conn = s_accept c0 (ci_fd ci, ci_addr ci)"
  note step = Cons.prems(2) [simplified Let_def accept_client.simps, folded conn_def]
  show ?case
  proof (cases "cl_fd conn = -1 \<or> cl_err conn \<noteq> 0")
    case True
    then show ?thesis using step Cons.prems(1) Cons.IH [OF l(2)] by (auto split: if_splits)
  next
    case False
    then obtain c t s2 where "enrol_client ci c (s\<lparr>sv_conns := t\<rparr>) = Inr s2" "accept_client c0 cis s2 = Inr s'"
      using step by (auto simp: rbind_eq_Inr)
    then show ?thesis using Cons.IH [OF e [OF _ l(1)]] by blast
  qed
qed simp

lemma read_from_client_keeps:
  assumes "list_ok s"
  shows "keeps_list (read_from_client rs ti c s)"
proof -
  have l: "list_ok (s\<lparr>sv_heap := h\<rparr>)" for h using assms by (simp add: list_ok_def)
  note k = remove_client_keeps [OF this]
  have "list_ok s'" if "read_from_client rs ti c s = Some (Inr s')" for s'
    using that
  proof (cases rule: read_from_client_cases)
    case (gone h)
    then show ?thesis using k [of h "cl_fd c"] by (auto simp: keeps_list_def)
  qed (use assms in \<open>simp_all add: list_ok_def\<close>)
  moreover have "\<exists>x. read_from_client rs ti c s = Some x"
    using k [of _ "cl_fd c"] by (fastforce simp: read_from_client_def keeps_list_def split: sum.split read_end.split)
  ultimately show ?thesis by (auto simp: keeps_list_def)
qed

lemma write_to_client_keeps:
  assumes "list_ok s"
  shows "keeps_list (write_to_client sends i s)"
proof (cases "\<exists>tn bytes. sv_tasks s i = Some tn
    \<and> load (sdata (complete_resp (t_resp tn))) (nat (slen (complete_resp (t_resp tn)))) (sv_heap s) = Inr bytes")
  case False
  then show ?thesis by (auto simp: write_to_client_def keeps_list_def Let_def split: option.splits sum.splits)
next
  case True
  then obtain tn bytes where tn: "sv_tasks s i = Some tn"
    "load (sdata (complete_resp (t_resp tn))) (nat (slen (complete_resp (t_resp tn)))) (sv_heap s) = Inr bytes" by blast
  obtain out e where o: "send_loop sends bytes = (out, e)" by (cases "send_loop sends bytes")
  let ?fd = "cl_fd (t_client tn)"
  let ?s = "s\<lparr>sv_out := (sv_out s)(?fd := sv_out s ?fd @ out)\<rparr>"
  have s: "list_ok ?s" using assms by (simp add: list_ok_def)
  from remove_client_keeps [OF this, of ?fd] obtain x where
    x: "remove_client ?s ?fd = Some x" "\<forall>s'. x = Inr s' \<longrightarrow> list_ok s'" by (auto simp: keeps_list_def)
  show ?thesis
    using tn o x s by (cases e) (auto simp: write_to_client_def keeps_list_def Let_def rbind_eq_Inr list_ok_def)
qed

lemma handle_event_keeps:
  assumes "list_ok s"
  shows "keeps_list (handle_event c0 e s)"
proof -
  have "list_ok (s\<lparr>sv_kq := q\<rparr>)" for q using assms by (simp add: list_ok_def)
  note k = remove_client_keeps [OF assms] read_from_client_keeps [OF assms] write_to_client_keeps [OF this]
  have "keeps_list (Some (accept_client c0 cis s))" for cis
    using accept_client_keeps [OF assms] by (auto simp: keeps_list_def)
  with k assms show ?thesis
    by (auto simp: handle_event_def keeps_list_def [of "Some (Inl _)"] keeps_list_def [of "Some (Inr _)"]
        split: filter_t.split udata.split sum.split)
qed

text \<open>A batch is handled to its end, or up to an event that faults.\<close>

lemma handle_events_stop:
  assumes "list_ok s"
  shows "(\<exists>s'. handle_events c0 es s = Some (Inr s') \<and> list_ok s')
     \<or> (\<exists>k s' f. k < length es \<and> handle_events c0 (take k es) s = Some (Inr s') \<and> list_ok s'
          \<and> handle_event c0 (es ! k) s' = Some (Inl f) \<and> handle_events c0 es s = Some (Inl f))"
  using assms
proof (induction es arbitrary: s)
  case (Cons e es)
  then obtain x where x: "handle_event c0 e s = Some x" "\<forall>s'. x = Inr s' \<longrightarrow> list_ok s'"
    using handle_event_keeps [OF Cons.prems, of c0 e] unfolding keeps_list_def by blast
  show ?case
  proof (cases x)
    case (Inl f)
    with x Cons.prems show ?thesis by (intro disjI2 exI [of _ 0]) simp
  next
    case (Inr s1)
    with x have "list_ok s1" by simp
    from Cons.IH [OF this] show ?thesis
    proof (elim disjE exE conjE)
      fix k s' f
      assume "k < length es" "handle_events c0 (take k es) s1 = Some (Inr s')" "list_ok s'"
        "handle_event c0 (es ! k) s' = Some (Inl f)" "handle_events c0 es s1 = Some (Inl f)"
      with x(1) Inr show ?thesis by (intro disjI2 exI [of _ "Suc k"]) simp
    qed (use x(1) Inr in simp)
  qed
qed simp

section \<open>Properties\<close>

text \<open>A server on descriptor 8 with one route and nobody connected, and a connection with descriptor 5.\<close>

definition server0 :: "((key \<times> nat route_handler_t) list, unit) server_t" where
  "server0 = \<lparr>sv_ln = listener0, sv_route = Some [((0, ''/''), \<lparr>func = 1\<rparr>)], sv_clients = (init_list, nheap0), sv_conns = [], sv_files = [],
     sv_kq = [], sv_heap = heap0, sv_tasks = Map.empty, sv_tnext = 0, sv_pool = [], sv_out = (\<lambda>_. [])\<rparr>"

definition conn5 :: conn_in where
  "conn5 = \<lparr>ci_fd = 5, ci_addr = \<lparr>sin_port = 0, sin_addr = 1\<rparr>, ci_host = ''10.0.0.1'', ci_nonblock = 0, ci_kevent = 0\<rparr>"

definition task_in0 :: "unit task_in" where
  "task_in0 = \<lparr>ti_tnode = True, ti_req = True, ti_resp = True, ti_pushed = True,
     ti_req0 = \<lparr>req = http_request_t_init, lparser = ()\<rparr>, ti_resp0 = init_resp_ctx\<rparr>"

definition event0 :: "int \<Rightarrow> filter_t \<Rightarrow> udata \<Rightarrow> unit kevent_t" where
  "event0 fd f u = \<lparr>ke_ident = fd, ke_filter = f, ke_udata = u, ke_eof = False, ke_conns = [], ke_recvs = [],
     ke_sends = [], ke_task = task_in0\<rparr>"

definition accept5 :: "unit kevent_t" where
  "accept5 = (event0 8 EVFILT_READ NoData)\<lparr>ke_conns := [conn5]\<rparr>"

definition client5 :: client_t where
  "client5 = \<lparr>cl_fd = 5, cl_addr = \<lparr>sin_port = 0, sin_addr = 1\<rparr>,
     c_addr = \<lparr>a_port = 0, a_host = ''10.0.0.1'' @ NUL # replicate 7 (CHR ''z'') @ NUL # replicate 7 (CHR ''z'')\<rparr>, cl_err = 0\<rparr>"

definition server5 :: "((key \<times> nat route_handler_t) list, unit) server_t" where
  "server5 = server0\<lparr>
     sv_clients := (\<lparr>l_head = Some 0, l_tail = Some 0\<rparr>,
       nheap0\<lparr>nmem := [0 \<mapsto> \<lparr>n_client = client5, n_prev = None, n_next = None\<rparr>], nnext := 1\<rparr>),
     sv_conns := [5], sv_kq := [(5, EVFILT_READ, NodeData (Some 0))]\<rparr>"

lemma idle_server0: "idle server0"
  using init_holds by (simp add: idle_def server0_def)

lemma accept5_event: "handle_event (client_n 0) accept5 server0 = Some (Inr server5)"
  by (simp add: handle_event_def accept5_def event0_def server0_def server5_def listener0_def s_accept_def
      conn5_def client_n_def addr0_def arr_write_def arr_put_def overwrite_def INET_ADDRSTRLEN_def
      enrol_client_def list_add_def insert_client_def init_list_def nheap0_def Let_def client5_def
      ev_add_def ev_delete_def ntohs_def numeral_eq_Suc)

lemma reach_server5: "reach_in x E server5"
proof (rule reach_in.step [OF reach_in.start [OF idle_server0]])
  have "ke_conns accept5 = [conn5]" by (simp add: accept5_def)
  moreover have "answer_in x conn5 server0" by (simp add: answer_in_def conn5_def server0_def listener0_def)
  ultimately have "answers_in x (client_n 0) (ke_conns accept5) server0" by (simp split: sum.split del: accept_client.simps)
  moreover have "reported accept5 server0" by (simp add: reported_def accept5_def event0_def server0_def listener0_def)
  ultimately show "step_in x E server0 server5" using accept5_event by (blast intro: step_in.event)
qed

text \<open>C5: No dangling pointers while events are handled one at a time, each as long as its registration is
  current, and whichever calls fail: in every reachable state the registered connections are open; the
  node a READ registration points to is allocated and holds a client with that descriptor; the task a WRITE
  registration points to is allocated, is for that descriptor and is no longer in the pool; every task in the
  pool is allocated; and every open connection is on the client list.  As long as the kernel refuses to
  register no accepted connection, the list holds nothing but the open connections, each once; after a
  refusal it may hold others (\<open>accept_unregistered_stays\<close>), but nothing dangles.\<close>

theorem server_no_dangling:
  assumes "reach E s"
  shows "(\<forall>(fd, f, u) \<in> set (sv_kq s). fd \<in> set (sv_conns s)
       \<and> (f = EVFILT_READ \<longrightarrow> (\<exists>p c. u = NodeData p \<and> list_client p (sv_clients s) = Inr c \<and> cl_fd c = fd))
       \<and> (f = EVFILT_WRITE \<longrightarrow> (\<exists>i tn. u = TaskData i \<and> sv_tasks s i = Some tn \<and> cl_fd (t_client tn) = fd
                                  \<and> i \<notin> set (sv_pool s))))
     \<and> (\<forall>i \<in> set (sv_pool s). sv_tasks s i \<noteq> None)
     \<and> (\<exists>cs. holds (sv_clients s) cs \<and> set (sv_conns s) \<subseteq> set (map cl_fd cs))
     \<and> (calm_reach E s \<longrightarrow>
          (\<exists>cs. holds (sv_clients s) cs \<and> distinct (map cl_fd cs) \<and> set (map cl_fd cs) = set (sv_conns s)))"
proof -
  note ok = reach_ok [OF assms]
  then have "\<forall>r \<in> set (sv_kq s). reg_ok s r" by (simp add: server_inv_def)
  moreover have "\<exists>cs. holds (sv_clients s) cs \<and> distinct (map cl_fd cs) \<and> set (map cl_fd cs) = set (sv_conns s)"
    if "calm_reach E s"
    using reach_ok [OF that] by (auto simp: server_inv_def tracks_def)
  ultimately show ?thesis
    using ok by (fastforce simp: server_inv_def tasks_ok_def tracks_def reg_inv_def node_for_def task_for_def)
qed

theorem server_no_dangling_witness:
  "(\<exists>p c. (5, EVFILT_READ, NodeData p) \<in> set (sv_kq server5) \<and> list_client p (sv_clients server5) = Inr c \<and> cl_fd c = 5)
     \<and> (\<exists>cs. holds (sv_clients server5) cs \<and> set (map cl_fd cs) = {5})"
proof -
  have f: "sv_conns server5 = [5]" "sv_kq server5 = [(5, EVFILT_READ, NodeData (Some 0))]" by (simp_all add: server5_def)
  note t = server_no_dangling [OF reach_server5 [of False "{}"], unfolded f]
  have "\<exists>cs. holds (sv_clients server5) cs \<and> set (map cl_fd cs) = {5}"
    using t [THEN conjunct2, THEN conjunct2, THEN conjunct2] reach_server5 [of True "{}"] by auto
  moreover have "\<exists>c. list_client (Some 0) (sv_clients server5) = Inr c \<and> cl_fd c = 5"
    using t [THEN conjunct1] by simp
  ultimately show ?thesis unfolding f by simp
qed

text \<open>C33: Handling a batch comes to an end, for any list of events, current or stale, with any finite
  answers of the system calls, from any state whose client list is well formed: no search of the list
  goes on forever.  Either every event is handled and the list is well formed at the end; or there is an
  event that faults, all events before it are handled, the list is well formed when the event is reached,
  and the outcome of the batch is that fault.  Such batches exist (\<open>batch_write_read_uaf\<close>).\<close>

theorem handle_events_return:
  assumes "holds (sv_clients s) cs"
  shows "(\<exists>s' cs'. handle_events c0 es s = Some (Inr s') \<and> holds (sv_clients s') cs')
     \<or> (\<exists>k s' cs' f. k < length es \<and> handle_events c0 (take k es) s = Some (Inr s') \<and> holds (sv_clients s') cs'
          \<and> handle_event c0 (es ! k) s' = Some (Inl f) \<and> handle_events c0 es s = Some (Inl f))"
  using handle_events_stop [of s c0 es] assms unfolding list_ok_def by blast

theorem handle_events_return_witness:
  "\<exists>s' cs'. handle_events (client_n 0) [accept5, event0 5 EVFILT_TIMER NoData] server0 = Some (Inr s')
     \<and> holds (sv_clients s') cs'"
proof -
  have h: "holds (sv_clients server0) []" using init_holds by (simp add: server0_def)
  have t: "handle_event (client_n 0) (event0 5 EVFILT_TIMER NoData) server5 = Some (Inr server5)"
    by (simp add: handle_event_def event0_def)
  have e: "handle_events (client_n 0) [accept5, event0 5 EVFILT_TIMER NoData] server0 = Some (Inr server5)"
    by (simp add: accept5_event t)
  from handle_events_return [OF h, of "client_n 0" "[accept5, event0 5 EVFILT_TIMER NoData]"] e show ?thesis by fastforce
qed

text \<open>When the registration of an accepted connection fails, its descriptor is closed but its node stays
  on the client list: afterwards the list holds a client whose descriptor is not open, and the next
  connection that is given this descriptor is on the list twice.\<close>

theorem accept_unregistered_stays:
  assumes "calm_reach E s" and "0 \<le> ci_fd ci" and "ci_fd ci \<notin> set (sv_conns s)" and "ci_nonblock ci \<noteq> -1" and "ci_kevent ci < 0"
    and "length (ci_host ci) \<le> 15" and "length (a_host (c_addr c0)) = HOST_SIZE" and "list_room (sv_clients s)"
  shows "\<exists>s' p c. accept_client c0 [ci] s = Inr s' \<and> set (sv_conns s') = set (sv_conns s)
     \<and> list_look (ci_fd ci) (sv_clients s') = Some (Inr (Some p)) \<and> list_client (Some p) (sv_clients s') = Inr c
     \<and> cl_fd c = ci_fd ci"
proof -
  have t: "tracks True holds (sv_clients s) (sv_conns s)" using reach_ok [OF assms(1)] by (simp add: server_inv_def)
  let ?h = "overwrite (a_host (c_addr c0)) 0 (ci_host ci @ [NUL])"
  let ?c = "c0\<lparr>cl_err := 0, cl_fd := ci_fd ci, cl_addr := ci_addr ci,
     c_addr := \<lparr>a_port = uint (ntohs (sin_port (ci_addr ci))), a_host = ?h[INET_ADDRSTRLEN := NUL]\<rparr>\<rparr>"
  have n: "cl_fd ?c \<notin> set (sv_conns s)" using assms(3) by simp
  obtain p cl where a: "list_add ?c (sv_clients s) = Inr (Some p, cl)" "list_client (Some p) cl = Inr ?c"
    using clients.add_tracks [OF t assms(8) n] by auto
  obtain cs where cs: "holds (sv_clients s) cs" using t by (auto simp: tracks_def)
  have "list_look (ci_fd ci) (sv_clients s) = Some (Inr None)"
    using clients.gone_tracks [OF t assms(3)] by simp
  from nodes.look_add [OF cs a(1) this] have l: "list_look (ci_fd ci) cl = Some (Inr (Some p))" by simp
  let ?s = "s\<lparr>sv_conns := close_fd (ci_fd ci) (ci_fd ci # sv_conns s), sv_clients := cl,
     sv_kq := filter (\<lambda>(fd, _). fd \<noteq> ci_fd ci) (sv_kq s)\<rparr>"
  have "length ?h = 24" using assms(6,7) by (simp add: overwrite_def HOST_SIZE_def)
  then have "accept_client c0 [ci] s = Inr ?s"
    using assms(2,4-7) a(1)
    by (simp add: s_accept_def Let_def arr_write_def arr_put_def HOST_SIZE_def INET_ADDRSTRLEN_def enrol_client_def
        close_client_def conn_close_def)
  moreover have "set (close_fd (ci_fd ci) (ci_fd ci # sv_conns s)) = set (sv_conns s)"
    using assms(3) by (auto simp: close_fd_def)
  ultimately show ?thesis using a(2) l by fastforce
qed

theorem accept_unregistered_stays_witness:
  "\<exists>s' p. accept_client (client_n 0) [conn5\<lparr>ci_kevent := -1\<rparr>] server0 = Inr s' \<and> sv_conns s' = []
     \<and> list_look 5 (sv_clients s') = Some (Inr (Some p))"
  using accept_unregistered_stays [OF reach_in.start [OF idle_server0, of True "{}"], of "conn5\<lparr>ci_kevent := -1\<rparr>" "client_n 0"]
  by (auto simp: conn5_def server0_def client_n_def addr0_def HOST_SIZE_def list_room_def nheap0_def simp del: accept_client.simps)

text \<open>Starting to listen: \<open>init_listener\<close> succeeds if and only if every call does; its code says which
  step failed, and the error exit closes the socket for codes 2 and 3 only.  Code 1 stands for every
  failure inside \<open>s_listen\<close>, whose own code is overwritten: when \<open>bind\<close> or \<open>listen\<close> fails the socket
  that was already created stays open.\<close>

theorem init_listener_errors:
  assumes "s_listen env ln0 ''tcp'' address = Inr ln"
  shows "\<exists>r ln'. init_listener env ln0 nonblock kev address = Inr (r, ln') \<and> ln_err ln' = r \<and> ln_fd ln' = ln_fd ln
     \<and> (r = 0 \<longleftrightarrow> ln_err ln = 0 \<and> 0 \<le> nonblock \<and> 0 \<le> kev)
     \<and> (r \<in> {2, 3} \<longrightarrow> ln_fd ln \<notin> set (listener_exit ln' t))
     \<and> (ln_err ln \<noteq> 0 \<longrightarrow> r = 1 \<and> listener_exit ln' t = t)"
  using assms by (auto simp: init_listener_def listener_exit_def s_close_def close_fd_def)

theorem init_listener_errors_witness:
  "\<exists>ln'. init_listener (env0\<lparr>e_bind := \<lambda>_. -1\<rparr>) listener0 0 0 (Some '':80'') = Inr (1, ln')
     \<and> ln_fd ln' = 3 \<and> listener_exit ln' [3] = [3]"
proof -
  have "split_addr_port (Some (ln_addr listener0)) (Some '':80'') = Inr (0, Some ((ln_addr listener0)\<lparr>
     a_host := NUL # drop 1 (a_host (ln_addr listener0)), a_port := 80\<rparr>))"
    by code_simp
  then have "\<exists>ln. s_listen (env0\<lparr>e_bind := \<lambda>_. -1\<rparr>) listener0 ''tcp'' (Some '':80'') = Inr ln \<and> ln_err ln = 5 \<and> ln_fd ln = 3"
    by (simp add: s_listen_def Let_def get_protocol_type_def PROTOCOL_TCP_def tcp_create_and_listen_ipv4_def
        bind_and_listen_def env0_def cstring_terminated [of "[]", simplified])
  then obtain ln where "s_listen (env0\<lparr>e_bind := \<lambda>_. -1\<rparr>) listener0 ''tcp'' (Some '':80'') = Inr ln" "ln_err ln = 5" "ln_fd ln = 3"
    by blast
  with init_listener_errors [OF this(1), of 0 0 "[3]"] show ?thesis by auto
qed

end
