(* ===== verification/HttpIO.thy ===== *)
theory HttpIO
  imports HttpInv
begin

text \<open>
  What the handlers of the server do with bytes: \<open>read_from_client\<close> collects the received chunks into
  the buffer of a task, \<open>handle_conn\<close> answers it, \<open>write_to_client\<close> sends the response and takes the
  connection down.
\<close>

section \<open>Reading\<close>

text \<open>The chunks received before the socket would block; each counts up to its first NUL.\<close>

definition received :: "char list list \<Rightarrow> char list" where
  "received bss = concat (map cstr bss)"

lemma received_simps [simp]: "received [] = []" "received (b # bss) = cstr b @ received bss"
  by (simp_all add: received_def)

definition drained :: "recv_result list \<Rightarrow> bool" where
  "drained rs \<longleftrightarrow> rs = [] \<or> hd rs = RAgain"

lemma recv_loop_collects:
  assumes "ready h0" and "only_new h0 h B" and "str_is h B t" and "\<forall>b \<in> set bss. length b < 216"
    and "int (length t + length (received bss)) < INT_MAX"
  shows "\<exists>B' h'. (\<forall>rs. recv_loop (map RData bss @ rs) B h = recv_loop rs B' h')
     \<and> only_new h0 h' B' \<and> str_is h' B' (t @ received bss)"
  using assms(2-5)
proof (induction bss arbitrary: B h t)
  case Nil
  then show ?case by auto
next
  case (Cons b bss)
  then have l: "int (length t + length (cstr b)) < INT_MAX" by simp
  obtain B1 h1 where 1: "append_string_cstr (Some B) (Some (cstr b)) h = Inr (True, Some B1, h1)"
    "str_is h1 B1 (t @ cstr b)" "only_new h0 h1 B1"
    using append_cstr_only_new [OF assms(1) Cons.prems(1,2) no_nul_cstr l] by blast
  have "int (length (t @ cstr b) + length (received bss)) < INT_MAX" using Cons.prems(4) by simp
  with Cons.IH [OF 1(3,2)] Cons.prems(3) 1(1) show ?case by auto
qed

lemma recv_start:
  assumes "ready h" and "\<forall>b \<in> set bss. length b < 216" and "int (length (received bss)) < INT_MAX"
  shows "\<exists>B h'. (\<forall>rs. rbind (new_string (Some []) h) (\<lambda>(BUF, h). recv_loop (map RData bss @ rs) BUF h) = recv_loop rs B h')
     \<and> only_new h h' B \<and> str_is h' B (received bss)"
proof -
  obtain B h1 where 1: "new_string (Some []) h = Inr (B, h1)" "str_is h1 B []" "only_new h h1 B"
    using new_string_only_new [OF assms(1), of "[]"] by (auto simp: INT_MAX_def)
  from recv_loop_collects [OF assms(1) 1(3,2) assms(2)] assms(3) 1(1) show ?thesis by auto
qed

text \<open>Copying the collected string and freeing it leaves the copy as the only new block.\<close>

lemma copy_then_free:
  assumes "ready h" and "only_new h h1 B" and "str_is h1 B t"
  shows "\<exists>b h2 h3. copy_string B h1 = Inr (b, h2) \<and> sdata b \<noteq> None \<and> free_string B h2 = Inr h3
     \<and> str_is h3 b t \<and> only_new h h3 b"
proof -
  obtain p x where p: "sdata B = Some p" "hmem h1 p = Some (t @ NUL # x)" using assms(3) by (auto elim: str_isE)
  have o: "ready h1" "hnext h \<le> hnext h1" "hnext h \<le> p" "\<forall>x. x \<noteq> p \<longrightarrow> hmem h1 x = hmem h x"
    using assms(2) p(1) by (auto simp: only_new_def)
  have pn: "p < hnext h1" using o(1) p(2) by (auto simp: ready_def dest: heap_ok_used)
  let ?b = "\<lparr>slen = int (length t), sdata = Some (hnext h1)\<rparr>" and ?h2 = "with_block h1 (t @ [NUL])"
  let ?h3 = "?h2\<lparr>hmem := (hmem ?h2)(p := None)\<rparr>"
  have c: "copy_string B h1 = Inr (?b, ?h2)"
    using copy_string_eq [OF _ _ assms(3)] o(1) by (simp add: ready_def)
  have f: "free_string B ?h2 = Inr ?h3" by (rule free_string_ok [OF p(1)]) (use p pn in auto)
  have hp: "hmem h p = None" "hmem h (hnext h1) = None" using o(2,3) assms(1) by (auto simp: ready_def heap_ok_def)
  have s: "str_is ?h3 ?b t" using pn assms(3) by (auto simp: str_is_def)
  have "ready ?h3" using o(1) by (auto simp: ready_def no_fail_def heap_ok_def)
  then have "only_new h ?h3 ?b" using o hp pn by (auto simp: only_new_def)
  with c f s show ?thesis by (metis option.distinct(1) string_t.select_convs(2))
qed

text \<open>The state after a request was read: a new task, in the pool, whose buffer is the only new block.\<close>

definition task_started :: "client_t \<Rightarrow> char list \<Rightarrow> ('m, 'p) server_t \<Rightarrow> ('m, 'p) server_t \<Rightarrow> bool" where
  "task_started c t s s' \<longleftrightarrow> (\<exists>tn. s' = s\<lparr>sv_tasks := (sv_tasks s)(sv_tnext s \<mapsto> tn), sv_tnext := Suc (sv_tnext s),
       sv_pool := sv_pool s @ [sv_tnext s], sv_heap := sv_heap s'\<rparr>
     \<and> t_client tn = c \<and> str_is (sv_heap s') (t_buffer tn) t \<and> only_new (sv_heap s) (sv_heap s') (t_buffer tn))"

lemma read_from_client_started:
  assumes "ready (sv_heap s)" and "\<forall>b \<in> set bss. length b < 216" and "int (length (received bss)) < INT_MAX"
    and "drained rs" and "ti_tnode ti" and "ti_req ti" and "ti_resp ti" and "ti_pushed ti"
  shows "\<exists>s'. read_from_client (map RData bss @ rs) ti c s = Some (Inr s') \<and> task_started c (received bss) s s'"
proof -
  obtain B h1 where 1: "rbind (new_string (Some []) (sv_heap s)) (\<lambda>(BUF, h). recv_loop (map RData bss @ rs) BUF h)
      = recv_loop rs B h1" "only_new (sv_heap s) h1 B" "str_is h1 B (received bss)"
    using recv_start [OF assms(1-3)] by blast
  have d: "recv_loop rs B h1 = Inr (Got B, h1)" using assms(4) by (cases rs) (auto simp: drained_def)
  obtain b h2 h3 where 2: "copy_string B h1 = Inr (b, h2)" "sdata b \<noteq> None" "free_string B h2 = Inr h3"
    "str_is h3 b (received bss)" "only_new (sv_heap s) h3 b"
    using copy_then_free [OF assms(1) 1(2,3)] by blast
  let ?tn = "\<lparr>t_client = c, t_buffer = b, t_req = ti_req0 ti, t_resp = ti_resp0 ti\<rparr>"
  let ?s = "s\<lparr>sv_tasks := (sv_tasks s)(sv_tnext s \<mapsto> ?tn), sv_tnext := Suc (sv_tnext s),
       sv_pool := sv_pool s @ [sv_tnext s], sv_heap := h3\<rparr>"
  have "read_from_client (map RData bss @ rs) ti c s = Some (Inr ?s)"
    using 1(1) d 2(1-3) assms(5-8) by (auto simp: read_from_client_def Let_def)
  moreover have "task_started c (received bss) s ?s" using 2(4,5) by (auto simp: task_started_def)
  ultimately show ?thesis by blast
qed

section \<open>Writing\<close>

lemma send_loop_done: "send_loop rs bs = (out, SDone) \<Longrightarrow> out = bs"
proof (induction rs bs arbitrary: out rule: send_loop.induct)
  case (6 n rs c cs)
  then obtain o' where "n \<noteq> 0" "send_loop rs (drop n (c # cs)) = (o', SDone)" "out = take n (c # cs) @ o'"
    by (auto split: if_splits prod.splits)
  moreover from this 6 have "o' = drop n (c # cs)" by blast
  ultimately show ?case by (metis append_take_drop_id)
qed auto

lemma send_loop_prefix: "send_loop rs bs = (out, e) \<Longrightarrow> \<exists>k. out = take k bs"
proof (induction rs bs arbitrary: out rule: send_loop.induct)
  case (6 n rs c cs)
  show ?case
  proof (cases "n = 0")
    case True
    then show ?thesis using 6(2) by auto
  next
    case False
    then obtain o' where o: "send_loop rs (drop n (c # cs)) = (o', e)" "out = take n (c # cs) @ o'"
      using 6(2) by (auto split: prod.splits)
    then obtain k where "o' = take k (drop n (c # cs))" using 6(1) [OF False] by blast
    then have "out = take (n + k) (c # cs)" using o(2) by (simp only: take_add)
    then show ?thesis by blast
  qed
qed auto

lemma load_str: "str_is h r t \<Longrightarrow> load (sdata r) (nat (slen r)) h = Inr t"
  by (elim str_isE) (simp add: load_def block_def)

text \<open>The response is sent, in any number of pieces: the peer has it, the connection is gone, the task and
  its buffer are freed.\<close>

lemma write_done:
  assumes ok: "server_ok s" and tn: "sv_tasks s i = Some tn" and fd: "cl_fd (t_client tn) = fd"
    and resp: "str_is (sv_heap s) (complete_resp (t_resp tn)) t"
    and buf: "str_is (sv_heap s) (t_buffer tn) q" "sdata (t_buffer tn) = Some b"
    and sends: "snd (send_loop sends t) = SDone"
  shows "\<exists>s'. write_to_client sends i s = Some (Inr s') \<and> sv_out s' = (sv_out s)(fd := sv_out s fd @ t)
     \<and> set (sv_conns s') = set (sv_conns s) - {fd} \<and> sv_tasks s' = (sv_tasks s)(i := None) \<and> sv_pool s' = sv_pool s
     \<and> sv_kq s' = filter (\<lambda>(fd', _). fd' \<noteq> fd) (sv_kq s)
     \<and> sv_heap s' = (sv_heap s)\<lparr>hmem := (hmem (sv_heap s))(b := None)\<rparr> \<and> sv_ln s' = sv_ln s
     \<and> (\<forall>p. list_look fd (sv_clients s) = Some (Inr (Some p)) \<longrightarrow> list_client (Some p) (sv_clients s') = Inl UseAfterFree)"
proof -
  have out: "send_loop sends t = (t, SDone)"
    using send_loop_done [of sends t] sends by (cases "send_loop sends t") auto
  let ?s = "s\<lparr>sv_out := (sv_out s)(fd := sv_out s fd @ t)\<rparr>"
  have "server_ok ?s" using ok by simp
  from remove_client_ok [OF this, of fd] obtain s2 where
    2: "remove_client ?s fd = Some (Inr s2)" "set (sv_conns s2) = set (sv_conns s) - {fd}" "sv_tasks s2 = sv_tasks s" "sv_pool s2 = sv_pool s"
    "sv_heap s2 = sv_heap s" "sv_out s2 = (sv_out s)(fd := sv_out s fd @ t)"
    "sv_kq s2 = filter (\<lambda>(fd', _). fd' \<noteq> fd) (sv_kq s)" "sv_ln s2 = sv_ln s"
    "\<forall>p. list_look fd (sv_clients s) = Some (Inr (Some p)) \<longrightarrow> list_client (Some p) (sv_clients s2) = Inl UseAfterFree"
    by auto
  have f: "free_string (t_buffer tn) (sv_heap s2) = Inr ((sv_heap s)\<lparr>hmem := (hmem (sv_heap s))(b := None)\<rparr>)"
    using buf unfolding 2(5) by (intro free_string_ok) (auto elim: str_isE)
  have "write_to_client sends i s = Some (Inr (s2\<lparr>sv_heap := (sv_heap s)\<lparr>hmem := (hmem (sv_heap s))(b := None)\<rparr>,
      sv_tasks := (sv_tasks s2)(i := None)\<rparr>))"
    using tn fd load_str [OF resp] out 2(1) f by (simp add: write_to_client_def Let_def)
  then show ?thesis using 2 by auto
qed

section \<open>Answering\<close>

text \<open>llhttp reports a request for the bytes \<open>q\<close>: method \<open>m\<close>, target \<open>u\<close>, which decodes to \<open>d\<close>, with sizes
  that fit the arrays.\<close>

definition asks :: "'p llhttp \<Rightarrow> char list \<Rightarrow> char list \<Rightarrow> char list \<Rightarrow> char list \<Rightarrow> bool" where
  "asks L q m u d \<longleftrightarrow> (\<exists>hs rest p. lh_execute L (lh_init L) q = (request_events m u hs rest, HPE_OK, p)
     \<and> request_fits m u hs \<and> (\<forall>e \<in> set rest. ignored e)) \<and> pct_decode u = Some d
     \<and> (CHR ''?'' \<in> set d \<longrightarrow> count_list (query_part d) (CHR ''&'') < 10
           \<and> (\<forall>f \<in> set (Url.fields (query_part d)). length f < 128))"

lemma request_parsed:
  assumes a: "asks (we_llhttp W) q m u d" and q: "str_is (sv_heap s) (t_buffer tn) q"
  obtains a x rctx where "sdata (t_buffer tn) = Some a" "hmem (sv_heap s) a = Some x"
    "parse_http_request (we_llhttp W) (we_junk W) (init_req_ctx (we_llhttp W) (t_req tn)) x (slen (t_buffer tn)) = Inr (0, rctx)"
    "cstring (r_method (req rctx)) = Inr m" "cstring (r_raw_path (req rctx)) = Inr u"
    "length (r_raw_path (req rctx)) = 256" "cstring (path (r_url (req rctx))) = Inr (path_part d)"
    "length (path_part d) < 256"
proof -
  obtain hs rest p where L: "lh_execute (we_llhttp W) (lh_init (we_llhttp W)) q = (request_events m u hs rest, HPE_OK, p)"
    "request_fits m u hs" "\<forall>e \<in> set rest. ignored e" using a by (auto simp: asks_def)
  have d: "pct_decode u = Some d" using a by (simp add: asks_def)
  obtain a x where x: "sdata (t_buffer tn) = Some a" "hmem (sv_heap s) a = Some (q @ NUL # x)"
    "slen (t_buffer tn) = int (length q)" "int (length q) < INT_MAX" using q by (auto elim: str_isE)
  have L': "lh_execute (we_llhttp W) (lh_init (we_llhttp W)) (take (nat (int (length q))) (q @ NUL # x))
      = (request_events m u hs rest, HPE_OK, p)" using L(1) by simp
  have qs: "\<forall>s. pct_decode u = Some s \<longrightarrow> CHR ''?'' \<in> set s \<longrightarrow> count_list (query_part s) (CHR ''&'') < 10
           \<and> (\<forall>f \<in> set (Url.fields (query_part s)). length f < 128)" using assms(1) d by (simp add: asks_def)
  obtain rctx where r: "parse_http_request (we_llhttp W) (we_junk W) (init_req_ctx (we_llhttp W) (t_req tn))
      (q @ NUL # x) (int (length q)) = Inr (0, rctx)" "cstring (r_method (req rctx)) = Inr m"
    "cstring (r_raw_path (req rctx)) = Inr u" "length (r_raw_path (req rctx)) = 256"
    "cstring (path (r_url (req rctx))) = Inr (path_part d)"
    using parse_request_ok [OF L' _ _ x(4) L(2,3) qs, of "we_junk W" "t_req tn"] d by auto
  have "length (path_part d) \<le> length d" by (simp add: path_part_def length_takeWhile_le)
  moreover have "length u < 256" using L(2) by (simp add: request_fits_def)
  ultimately have l: "length (path_part d) < 256" using length_pct_decode [OF d] by simp
  show thesis by (rule that [OF x(1,2) _ r(2-5) l]) (use r(1) x(3) in simp)
qed

lemma handle_conn_parsed:
  assumes a: "asks (we_llhttp W) q m u d" and tn: "sv_tasks s i = Some tn" and q: "str_is (sv_heap s) (t_buffer tn) q"
  obtains rctx where "cstring (r_method (req rctx)) = Inr m" "cstring (r_raw_path (req rctx)) = Inr u"
    "length (r_raw_path (req rctx)) = 256" "cstring (path (r_url (req rctx))) = Inr (path_part d)"
    "length (path_part d) < 256"
    "handle_conn W i s = rbind (respond W (sv_route s) init_resp_ctx rctx (sv_heap s) (sv_files s)) (\<lambda>(w, h, t).
       rbind (generate_response w h) (\<lambda>(r, h1). Inr (s\<lparr>sv_heap := h1, sv_files := t,
         sv_tasks := (sv_tasks s)(i \<mapsto> tn\<lparr>t_req := rctx, t_resp := w\<lparr>complete_resp := r\<rparr>\<rparr>),
         sv_kq := (if we_kevent W < 0 then sv_kq s
                   else ev_add (cl_fd (t_client tn)) EVFILT_WRITE (TaskData i) (sv_kq s))\<rparr>)))"
proof -
  obtain a x rctx where x: "sdata (t_buffer tn) = Some a" "hmem (sv_heap s) a = Some x"
    "parse_http_request (we_llhttp W) (we_junk W) (init_req_ctx (we_llhttp W) (t_req tn)) x (slen (t_buffer tn)) = Inr (0, rctx)"
    and r: "cstring (r_method (req rctx)) = Inr m" "cstring (r_raw_path (req rctx)) = Inr u"
    "length (r_raw_path (req rctx)) = 256" "cstring (path (r_url (req rctx))) = Inr (path_part d)" "length (path_part d) < 256"
    by (rule request_parsed [OF a q])
  show thesis by (rule that [OF r]) (use tn x in \<open>simp add: handle_conn_eq block_def Let_def\<close>)
qed

text \<open>The task is answered with the bytes \<open>txt\<close>, and its connection registered for writing.\<close>

definition answered :: "nat \<Rightarrow> char list \<Rightarrow> ('m, 'p) server_t \<Rightarrow> ('m, 'p) server_t \<Rightarrow> bool" where
  "answered i txt s s' \<longleftrightarrow> (\<exists>tn tn'. sv_tasks s i = Some tn \<and> t_client tn' = t_client tn \<and> t_buffer tn' = t_buffer tn
     \<and> str_is (sv_heap s') (complete_resp (t_resp tn')) txt \<and> kept (sv_heap s) (sv_heap s')
     \<and> s' = s\<lparr>sv_heap := sv_heap s', sv_files := sv_files s', sv_tasks := (sv_tasks s)(i \<mapsto> tn'),
           sv_kq := ev_add (cl_fd (t_client tn)) EVFILT_WRITE (TaskData i) (sv_kq s)\<rparr>)"

lemma handle_conn_answered:
  assumes "asks (we_llhttp W) q m u d" and "sv_tasks s i = Some tn" and "str_is (sv_heap s) (t_buffer tn) q"
    and "0 \<le> we_kevent W"
    and "\<And>rctx. cstring (r_method (req rctx)) = Inr m \<Longrightarrow> cstring (r_raw_path (req rctx)) = Inr u \<Longrightarrow>
      length (r_raw_path (req rctx)) = 256 \<Longrightarrow> cstring (path (r_url (req rctx))) = Inr (path_part d) \<Longrightarrow>
      length (path_part d) < 256 \<Longrightarrow>
      \<exists>w h t. respond W (sv_route s) init_resp_ctx rctx (sv_heap s) (sv_files s) = Inr (w, h, t)
        \<and> prepared w h code hs b \<and> kept (sv_heap s) h"
  shows "\<exists>s'. handle_conn W i s = Inr s' \<and> answered i (wire code hs b) s s'"
proof -
  obtain rctx where r: "cstring (r_method (req rctx)) = Inr m" "cstring (r_raw_path (req rctx)) = Inr u"
    "length (r_raw_path (req rctx)) = 256" "cstring (path (r_url (req rctx))) = Inr (path_part d)"
    "length (path_part d) < 256"
    "handle_conn W i s = rbind (respond W (sv_route s) init_resp_ctx rctx (sv_heap s) (sv_files s)) (\<lambda>(w, h, t).
       rbind (generate_response w h) (\<lambda>(r, h1). Inr (s\<lparr>sv_heap := h1, sv_files := t,
         sv_tasks := (sv_tasks s)(i \<mapsto> tn\<lparr>t_req := rctx, t_resp := w\<lparr>complete_resp := r\<rparr>\<rparr>),
         sv_kq := (if we_kevent W < 0 then sv_kq s
                   else ev_add (cl_fd (t_client tn)) EVFILT_WRITE (TaskData i) (sv_kq s))\<rparr>)))"
    by (rule handle_conn_parsed [OF assms(1-3)])
  obtain w h t where 1: "respond W (sv_route s) init_resp_ctx rctx (sv_heap s) (sv_files s) = Inr (w, h, t)"
    "prepared w h code hs b" "kept (sv_heap s) h" using assms(5) [OF r(1-5)] by blast
  have rh: "ready h" using 1(3) by (simp add: kept_def)
  from prepared_generate [OF rh 1(2)] obtain c h1 where
    2: "generate_response w h = Inr (c, h1)" "str_is h1 c (wire code hs b)" "only_new h h1 c" by blast
  have "kept (sv_heap s) h1" using kept_trans [OF 1(3) only_new_kept [OF rh 2(3,2)]] .
  then show ?thesis using r(6) 1(1) 2(1) assms(2,4) 2(2)
    by (auto simp: answered_def intro!: exI [of _ "tn\<lparr>t_req := rctx, t_resp := w\<lparr>complete_resp := c\<rparr>\<rparr>"])
qed

section \<open>Properties\<close>

text \<open>C31: Reading a request: when the socket has delivered some chunks (each at most 215 bytes) and then
  would block, \<open>read_from_client\<close> hands the pool one new task for the client, whose buffer holds the
  chunks in order, each up to its first NUL byte; everything it allocated on the way is freed again, so
  that the task's buffer is the only new block.\<close>

theorem read_from_client_collects:
  assumes "ready (sv_heap s)" and "\<forall>b \<in> set bss. length b < 216" and "int (length (concat (map cstr bss))) < INT_MAX"
    and "drained rs" and "ti_tnode ti" and "ti_req ti" and "ti_resp ti" and "ti_pushed ti"
  shows "\<exists>s' tn b. read_from_client (map RData bss @ rs) ti c s = Some (Inr s')
     \<and> sv_tasks s' = (sv_tasks s)(sv_tnext s \<mapsto> tn) \<and> sv_pool s' = sv_pool s @ [sv_tnext s] \<and> t_client tn = c
     \<and> str_is (sv_heap s') (t_buffer tn) (concat (map cstr bss)) \<and> sdata (t_buffer tn) = Some b
     \<and> dom (hmem (sv_heap s')) = insert b (dom (hmem (sv_heap s))) \<and> b \<notin> dom (hmem (sv_heap s))"
proof -
  obtain s' where 1: "read_from_client (map RData bss @ rs) ti c s = Some (Inr s')" "task_started c (received bss) s s'"
    using read_from_client_started [OF assms(1,2) _ assms(4-8), of c] assms(3) unfolding received_def by blast
  obtain tn where tn: "s' = s\<lparr>sv_tasks := (sv_tasks s)(sv_tnext s \<mapsto> tn), sv_tnext := Suc (sv_tnext s),
       sv_pool := sv_pool s @ [sv_tnext s], sv_heap := sv_heap s'\<rparr>" "t_client tn = c"
    "str_is (sv_heap s') (t_buffer tn) (received bss)" "only_new (sv_heap s) (sv_heap s') (t_buffer tn)"
    using 1(2) unfolding task_started_def by blast
  obtain H where H: "sv_heap s' = H" by blast
  have "sv_tasks s' = (sv_tasks s)(sv_tnext s \<mapsto> tn)" "sv_pool s' = sv_pool s @ [sv_tnext s]"
    using tn(1) unfolding H by simp_all
  moreover obtain b x where b: "sdata (t_buffer tn) = Some b" "hmem (sv_heap s') b = Some x"
    using tn(3) by (auto elim: str_isE)
  moreover have "dom (hmem (sv_heap s')) = insert b (dom (hmem (sv_heap s)))"
    using tn(4) b by (auto simp: only_new_def dom_def)
  moreover have "b \<notin> dom (hmem (sv_heap s))" using tn(4) b(1) assms(1) by (auto simp: only_new_def ready_def heap_ok_def)
  ultimately show ?thesis using 1(1) tn(2,3) unfolding received_def by blast
qed

theorem read_from_client_collects_witness:
  "\<exists>s' tn. read_from_client [RData ''GET / '', RData (''HT'' @ [NUL] @ ''!''), RAgain] task_in0 client5 server5 = Some (Inr s')
     \<and> sv_tasks s' 0 = Some tn \<and> str_is (sv_heap s') (t_buffer tn) ''GET / HT''"
proof -
  have c: "cstr ''GET / '' = ''GET / ''" "cstr (''HT'' @ [NUL] @ ''!'') = ''HT''"
    by (simp_all add: cstr_def NUL_def)
  show ?thesis
    using read_from_client_collects [of server5 "[''GET / '', ''HT'' @ [NUL] @ ''!'']" "[RAgain]" task_in0 client5] c
    by (auto simp: server5_def server0_def ready_heap0 INT_MAX_def drained_def task_in0_def)
qed

text \<open>A read that fails leaks: when \<open>recv\<close> reports an error the string built so far stays allocated for
  ever and the connection stays open and registered; when the peer has closed, the same block is lost
  and the connection is removed.\<close>

theorem read_failure_leaks:
  assumes "server_ok s" and "ready (sv_heap s)" and "\<forall>b \<in> set bss. length b < 216"
    and "int (length (concat (map cstr bss))) < INT_MAX"
  shows "\<exists>h' s'. read_from_client (map RData bss @ RError # rs) ti c s = Some (Inr (s\<lparr>sv_heap := h'\<rparr>))
     \<and> read_from_client (map RData bss @ RClosed # rs) ti c s = Some (Inr s') \<and> sv_heap s' = h'
     \<and> set (sv_conns s') = set (sv_conns s) - {cl_fd c}
     \<and> card (dom (hmem h') - dom (hmem (sv_heap s))) = 1"
proof -
  have r: "int (length (received bss)) < INT_MAX" using assms(4) by (simp add: received_def)
  obtain B h' where 1: "\<And>rs. rbind (new_string (Some []) (sv_heap s)) (\<lambda>(BUF, h). recv_loop (map RData bss @ rs) BUF h)
      = recv_loop rs B h'" "only_new (sv_heap s) h' B" "str_is h' B (received bss)"
    using recv_start [OF assms(2,3) r] by blast
  have "server_ok (s\<lparr>sv_heap := h'\<rparr>)" using assms(1) by simp
  from remove_client_ok [OF this, of "cl_fd c"] obtain s' where
    2: "remove_client (s\<lparr>sv_heap := h'\<rparr>) (cl_fd c) = Some (Inr s')" "set (sv_conns s') = set (sv_conns s) - {cl_fd c}"
    "sv_heap s' = h'" by auto
  have "read_from_client (map RData bss @ RError # rs) ti c s = Some (Inr (s\<lparr>sv_heap := h'\<rparr>))"
    using 1(1) by (simp add: read_from_client_def)
  moreover have "read_from_client (map RData bss @ RClosed # rs) ti c s = Some (Inr s')"
    using 1(1) 2(1) by (simp add: read_from_client_def)
  ultimately show ?thesis using 2(2,3) only_new_card [OF 1(2,3) assms(2)] by blast
qed

theorem read_failure_leaks_witness:
  "\<exists>h'. read_from_client [RData ''GET'', RError] task_in0 client5 server5 = Some (Inr (server5\<lparr>sv_heap := h'\<rparr>))
     \<and> card (dom (hmem h')) = 1"
proof -
  have h: "sv_heap server5 = heap0" "dom (hmem heap0) = {}" "cstr ''GET'' = ''GET''"
    by (simp_all add: server5_def server0_def heap0_def NUL_def)
  show ?thesis
    using read_failure_leaks [OF reach_ok [OF reach_server5], of "[''GET'']" "[]" task_in0 client5]
    unfolding h by (auto simp: ready_heap0 INT_MAX_def h(3))
qed

end
