(* ===== verification/Conversation.thy ===== *)
theory Conversation
  imports HttpIO
begin

text \<open>
  The reading handler, a worker and the writing handler in a row: what a client that connects, sends
  one request and waits gets back, for each way in which the server can respond; and what goes wrong
  when the steps meet other events.
\<close>

section \<open>One conversation\<close>

text \<open>How the server responds to a method, a target and a path, in any heap.\<close>

definition responds ::
  "('m, 'f, 'p) worker_env \<Rightarrow> 'm option \<Rightarrow> fds \<Rightarrow> char list \<Rightarrow> char list \<Rightarrow> char list \<Rightarrow> int
     \<Rightarrow> (char list \<times> char list) list \<Rightarrow> char list \<Rightarrow> bool" where
  "responds W route files m u p code hs b \<longleftrightarrow> (\<forall>rctx h.
     cstring (r_method (req rctx)) = Inr m \<longrightarrow> cstring (r_raw_path (req rctx)) = Inr u \<longrightarrow>
     length (r_raw_path (req rctx)) = 256 \<longrightarrow> cstring (path (r_url (req rctx))) = Inr p \<longrightarrow> length p < 256 \<longrightarrow> ready h \<longrightarrow>
     (\<exists>w h' t. respond W route init_resp_ctx rctx h files = Inr (w, h', t) \<and> prepared w h' code hs b \<and> kept h h'))"

lemma responds_other:
  "get_mothod_type m \<noteq> GET \<Longrightarrow> responds W route files m u p 0 [] []"
  by (auto simp: responds_def respond_def kept_def prepared_init)

lemma responds_missing:
  assumes "get_mothod_type m = GET" and "fst (route_lookup (we_khash W) (we_handler W) table p) = False"
    and "f_stat (we_files W) (''./www'' @ p) = None" and "route = Some table"
  shows "responds W route files m u p 404 (page_headers (not_found_text u) ''text/plain'' ''keep-alive'') (not_found_text u)"
  unfolding responds_def
proof (intro allI impI)
  fix rctx :: "'c request_ctx_t" and h
  assume "cstring (r_method (req rctx)) = Inr m" "cstring (r_raw_path (req rctx)) = Inr u"
    "length (r_raw_path (req rctx)) = 256" "cstring (path (r_url (req rctx))) = Inr p" "length p < 256" "ready h"
  moreover from handle_not_found_missing [OF this(4,5) assms(3) this(2,3,6), of "we_ext W" files]
  obtain w h' where "handle_not_found (we_files W) (we_ext W) init_resp_ctx rctx h files = Inr (w, h', files)" "kept h h'"
    "prepared w h' 404 (page_headers (not_found_text u) ''text/plain'' ''keep-alive'') (not_found_text u)" by blast
  ultimately show "\<exists>w h' t. respond W route init_resp_ctx rctx h files = Inr (w, h', t)
      \<and> prepared w h' 404 (page_headers (not_found_text u) ''text/plain'' ''keep-alive'') (not_found_text u) \<and> kept h h'"
    using assms(1,2,4) by (auto simp: respond_def split: prod.splits)
qed

lemma wire_cleared: "wire 0 [] [] = ''HTTP/1.1 0 Internal Server Error'' @ CRLF @ CRLF"
proof -
  have "status_line 0 = ''HTTP/1.1 0 Internal Server Error'' @ CRLF" by code_simp
  then show ?thesis by (simp add: wire_def nul_pad_def strncpy_bytes_def cstr_def)
qed

context page_handler
begin

text \<open>A page that is registered for the path.\<close>

lemma responds_page:
  assumes "get_mothod_type m = GET" and "route_lookup (we_khash W) (we_handler W) table p = (True, \<lparr>func = f\<rparr>)"
    and "we_run W f = run" and "route = Some table"
  shows "responds W route files m u p code (headers u) (body u)"
  unfolding responds_def
proof (intro allI impI)
  fix rctx :: "'p request_ctx_t" and h
  assume a: "cstring (r_method (req rctx)) = Inr m" "cstring (r_raw_path (req rctx)) = Inr u"
    "length (r_raw_path (req rctx)) = 256" "cstring (path (r_url (req rctx))) = Inr p" "ready h"
  obtain w h' where "run init_resp_ctx rctx h = Inr (w, h')" "prepared w h' code (headers u) (body u)" "kept h h'"
    using run_prepares [OF a(2,3)] a(5) by (auto simp: prepares_def)
  then show "\<exists>w h' t. respond W route init_resp_ctx rctx h files = Inr (w, h', t)
      \<and> prepared w h' code (headers u) (body u) \<and> kept h h'"
    using a(1,4) assms by (auto simp: respond_def)
qed

end

text \<open>A registered client whose request arrives, in chunks that add up to \<open>q\<close>.\<close>

definition request_event :: "'p kevent_t \<Rightarrow> int \<Rightarrow> char list \<Rightarrow> ('m, 'p) server_t \<Rightarrow> bool" where
  "request_event e fd q s \<longleftrightarrow> ke_ident e = fd \<and> ke_filter e = EVFILT_READ \<and> \<not> ke_eof e \<and> fd \<noteq> ln_fd (sv_ln s)
     \<and> (fd, EVFILT_READ, ke_udata e) \<in> set (sv_kq s)
     \<and> (\<exists>bss rs. ke_recvs e = map RData bss @ rs \<and> drained rs \<and> (\<forall>b \<in> set bss. length b < 216) \<and> received bss = q)
     \<and> int (length q) < INT_MAX
     \<and> ti_tnode (ke_task e) \<and> ti_req (ke_task e) \<and> ti_resp (ke_task e) \<and> ti_pushed (ke_task e)"

text \<open>Its WRITE event, with a socket that takes the whole response, in pieces.\<close>

definition response_event :: "'p kevent_t \<Rightarrow> int \<Rightarrow> nat \<Rightarrow> char list \<Rightarrow> bool" where
  "response_event e fd i txt \<longleftrightarrow> ke_ident e = fd \<and> ke_filter e = EVFILT_WRITE \<and> ke_udata e = TaskData i
     \<and> snd (send_loop (ke_sends e) txt) = SDone"

text \<open>Reading, then the worker, then writing.\<close>

definition conversation ::
  "client_t \<Rightarrow> ('m, 'f, 'p) worker_env \<Rightarrow> 'p kevent_t \<Rightarrow> 'p kevent_t \<Rightarrow> ('m, 'p) server_t \<Rightarrow> ('m, 'p) server_t res option" where
  "conversation c0 W e1 e2 s =
     (case handle_event c0 e1 s of
        Some (Inr s1) \<Rightarrow>
          (case handle_conn W (last (sv_pool s1)) (take_task (last (sv_pool s1)) s1) of
             Inr s2 \<Rightarrow> handle_event c0 e2 s2
           | Inl f \<Rightarrow> Some (Inl f))
      | r \<Rightarrow> r)"

lemma request_read:
  assumes ok: "server_ok s" and h: "ready (sv_heap s)" and e1: "request_event e1 fd q s"
  obtains s1 tn where "handle_event c0 e1 s = Some (Inr s1)" "server_ok s1" "fd \<in> set (sv_conns s)"
    "cl_fd (t_client tn) = fd" "str_is (sv_heap s1) (t_buffer tn) q" "only_new (sv_heap s) (sv_heap s1) (t_buffer tn)"
    "s1 = s\<lparr>sv_tasks := (sv_tasks s)(sv_tnext s \<mapsto> tn), sv_tnext := Suc (sv_tnext s),
       sv_pool := sv_pool s @ [sv_tnext s], sv_heap := sv_heap s1\<rparr>"
proof -
  have e: "ke_ident e1 = fd" "ke_filter e1 = EVFILT_READ" "\<not> ke_eof e1" "fd \<noteq> ln_fd (sv_ln s)"
    "(fd, EVFILT_READ, ke_udata e1) \<in> set (sv_kq s)" "int (length q) < INT_MAX"
    "ti_tnode (ke_task e1)" "ti_req (ke_task e1)" "ti_resp (ke_task e1)" "ti_pushed (ke_task e1)"
    using e1 by (simp_all add: request_event_def)
  obtain bss rs where b: "ke_recvs e1 = map RData bss @ rs" "drained rs" "\<forall>b \<in> set bss. length b < 216" "received bss = q"
    using e1 by (auto simp: request_event_def)
  have "reg_ok s (fd, EVFILT_READ, ke_udata e1)" using ok e(5) by (auto simp: server_inv_def)
  then obtain p c where c: "ke_udata e1 = NodeData p" "list_client p (sv_clients s) = Inr c" "cl_fd c = fd" "fd \<in> set (sv_conns s)"
    by (auto simp: reg_inv_def node_for_def)
  obtain s1 where 1: "read_from_client (ke_recvs e1) (ke_task e1) c s = Some (Inr s1)" "task_started c q s s1"
    using read_from_client_started [OF h b(3) _ b(2) e(7-10), of c] e(6) b(1,4) by auto
  have "handle_event c0 e1 s = Some (Inr s1)" using e c 1(1) by (simp add: handle_event_def)
  moreover have "server_ok s1" using read_from_client_ok [OF ok 1(1)] by simp
  ultimately show thesis using 1(2) c(3,4) that unfolding task_started_def by blast
qed

lemma response_written:
  assumes ok: "server_ok s" and reg: "(fd, EVFILT_WRITE, TaskData i) \<in> set (sv_kq s)" and e2: "response_event e2 fd i txt"
    and tn: "sv_tasks s i = Some tn" and resp: "str_is (sv_heap s) (complete_resp (t_resp tn)) txt"
    and buf: "str_is (sv_heap s) (t_buffer tn) q" "sdata (t_buffer tn) = Some b"
  shows "\<exists>s'. handle_event c0 e2 s = Some (Inr s') \<and> server_ok s' \<and> sv_out s' = (sv_out s)(fd := sv_out s fd @ txt)
     \<and> set (sv_conns s') = set (sv_conns s) - {fd} \<and> sv_tasks s' = (sv_tasks s)(i := None) \<and> sv_pool s' = sv_pool s
     \<and> (\<forall>r \<in> set (sv_kq s'). fst r \<noteq> fd)
     \<and> sv_heap s' = (sv_heap s)\<lparr>hmem := (hmem (sv_heap s))(b := None)\<rparr> \<and> sv_ln s' = sv_ln s
     \<and> (\<forall>p. list_look fd (sv_clients s) = Some (Inr (Some p)) \<longrightarrow> list_client (Some p) (sv_clients s') = Inl UseAfterFree)"
proof -
  let ?s = "s\<lparr>sv_kq := ev_delete fd EVFILT_WRITE (sv_kq s)\<rparr>"
  have ok': "server_ok ?s" by (rule server_ok_delete [OF ok])
  have r0: "reg_ok s (fd, EVFILT_WRITE, TaskData i)" using ok reg by (auto simp: server_inv_def)
  then have r1: "reg_ok ?s (fd, EVFILT_WRITE, TaskData i)" by (elim reg_inv_mono) auto
  have fd: "cl_fd (t_client tn) = fd" using r0 tn by (auto simp: reg_inv_def task_for_def)
  have e: "ke_ident e2 = fd" "ke_filter e2 = EVFILT_WRITE" "ke_udata e2 = TaskData i" "snd (send_loop (ke_sends e2) txt) = SDone"
    using e2 by (simp_all add: response_event_def)
  obtain s' where 1: "write_to_client (ke_sends e2) i ?s = Some (Inr s')" "sv_out s' = (sv_out s)(fd := sv_out s fd @ txt)"
     "set (sv_conns s') = set (sv_conns s) - {fd}" "sv_tasks s' = (sv_tasks s)(i := None)" "sv_pool s' = sv_pool s"
     "sv_kq s' = filter (\<lambda>(fd', _). fd' \<noteq> fd) (sv_kq ?s)"
     "sv_heap s' = (sv_heap s)\<lparr>hmem := (hmem (sv_heap s))(b := None)\<rparr>" "sv_ln s' = sv_ln s"
     "\<forall>p. list_look fd (sv_clients s) = Some (Inr (Some p)) \<longrightarrow> list_client (Some p) (sv_clients s') = Inl UseAfterFree"
    using write_done [OF ok', of i tn fd "txt" q b "ke_sends e2"] tn fd resp buf e(4) by auto
  have "server_ok s'" using write_to_client_ok [OF ok' r1 _ 1(1)] by (simp add: set_ev_delete)
  moreover have "handle_event c0 e2 s = Some (Inr s')" using e 1(1) by (simp add: handle_event_def)
  ultimately show ?thesis using 1 by auto
qed

text \<open>The first two steps: the task is answered, and its connection registered for writing.\<close>

lemma request_answered:
  assumes ok: "server_ok s" and h: "ready (sv_heap s)" and e1: "request_event e1 fd q s"
    and a: "asks (we_llhttp W) q m u d" and k: "0 \<le> we_kevent W"
    and r: "responds W (sv_route s) (sv_files s) m u (path_part d) code hs b"
  obtains s1 s2 tn where "handle_event c0 e1 s = Some (Inr s1)" "last (sv_pool s1) = sv_tnext s" "sv_tnext s \<in> set (sv_pool s1)"
    "kernel_ok W (sv_tnext s) s1" "handle_conn W (sv_tnext s) (take_task (sv_tnext s) s1) = Inr s2" "server_ok s2"
    "sv_tasks s2 = (sv_tasks s)(sv_tnext s \<mapsto> tn)" "str_is (sv_heap s2) (complete_resp (t_resp tn)) (wire code hs b)"
    "str_is (sv_heap s2) (t_buffer tn) q" "sv_out s2 = sv_out s" "sv_conns s2 = sv_conns s" "sv_pool s2 = sv_pool s"
    "sv_ln s2 = sv_ln s" "sv_kq s2 = ev_add fd EVFILT_WRITE (TaskData (sv_tnext s)) (sv_kq s)"
    "ready (sv_heap s2)" "sv_tnext s2 = Suc (sv_tnext s)"
proof -
  let ?i = "sv_tnext s" and ?txt = "wire code hs b"
  obtain s1 tn where 1: "handle_event c0 e1 s = Some (Inr s1)" "server_ok s1" "fd \<in> set (sv_conns s)"
    "cl_fd (t_client tn) = fd" "str_is (sv_heap s1) (t_buffer tn) q" "only_new (sv_heap s) (sv_heap s1) (t_buffer tn)"
    and s1: "s1 = s\<lparr>sv_tasks := (sv_tasks s)(?i \<mapsto> tn), sv_tnext := Suc ?i, sv_pool := sv_pool s @ [?i], sv_heap := sv_heap s1\<rparr>"
    by (rule request_read [OF ok h e1]) blast
  have i: "?i \<notin> set (sv_pool s)" using ok by (auto simp: server_inv_def tasks_ok_def)
  let ?t = "take_task ?i s1"
  obtain H where H: "sv_heap s1 = H" by blast
  have t: "last (sv_pool s1) = ?i" "?i \<in> set (sv_pool s1)" "sv_pool ?t = sv_pool s" "sv_tasks ?t = (sv_tasks s)(?i \<mapsto> tn)"
    "sv_route ?t = sv_route s" "sv_files ?t = sv_files s" "sv_heap ?t = sv_heap s1" "sv_conns ?t = sv_conns s"
    "sv_out ?t = sv_out s" "sv_ln ?t = sv_ln s" "sv_kq ?t = sv_kq s"
    using s1 i unfolding H by (simp_all add: take_task_def remove1_append)
  have ti: "sv_tasks ?t ?i = Some tn" using t(4) by simp
  have rh: "ready (sv_heap s1)" using 1(6) by (simp add: only_new_def)
  have K: "kernel_ok W ?i s1"
    using 1(3,4) s1 unfolding H by (simp add: kernel_ok_def)
  obtain s2 where 2: "handle_conn W ?i ?t = Inr s2" "answered ?i ?txt ?t s2"
    using handle_conn_answered [OF a ti, of code hs b] k r rh 1(5) unfolding t(5-7) responds_def by blast
  have ok2: "server_ok s2" using handle_conn_ok [OF 1(2) t(2) K 2(1)] by simp
  obtain tn' where tn': "t_client tn' = t_client tn" "t_buffer tn' = t_buffer tn"
    "str_is (sv_heap s2) (complete_resp (t_resp tn')) ?txt" "kept (sv_heap s1) (sv_heap s2)"
    "s2 = ?t\<lparr>sv_heap := sv_heap s2, sv_files := sv_files s2, sv_tasks := (sv_tasks ?t)(?i \<mapsto> tn'),
           sv_kq := ev_add fd EVFILT_WRITE (TaskData ?i) (sv_kq ?t)\<rparr>"
    using 2(2) ti t(7) 1(4) by (auto simp: answered_def)
  have buf: "str_is (sv_heap s2) (t_buffer tn') q" using kept_str [OF 1(5) tn'(4)] tn'(2) by simp
  obtain H2 F2 where H2: "sv_heap s2 = H2" "sv_files s2 = F2" by blast
  have "sv_tasks s2 = (sv_tasks s)(?i \<mapsto> tn')" "sv_out s2 = sv_out s" "sv_conns s2 = sv_conns s" "sv_pool s2 = sv_pool s"
    "sv_ln s2 = sv_ln s" "sv_kq s2 = ev_add fd EVFILT_WRITE (TaskData ?i) (sv_kq s)"
    using tn'(5) t unfolding H2 by simp_all
  moreover have "sv_tnext s2 = Suc ?i" using tn'(5) s1 unfolding H H2 by (simp add: take_task_def)
  moreover have "ready (sv_heap s2)" using tn'(4) by (simp add: kept_def)
  ultimately show thesis using that 1(1) t(1,2) K 2(1) ok2 tn'(3) buf by blast
qed

lemma conversation_ends:
  assumes ok: "server_ok s" and h: "ready (sv_heap s)" and e1: "request_event e1 fd q s"
    and a: "asks (we_llhttp W) q m u d" and k: "0 \<le> we_kevent W"
    and r: "responds W (sv_route s) (sv_files s) m u (path_part d) code hs b"
    and e2: "response_event e2 fd (sv_tnext s) (wire code hs b)"
  shows "\<exists>s'. conversation c0 W e1 e2 s = Some (Inr s') \<and> sv_out s' = (sv_out s)(fd := sv_out s fd @ wire code hs b)
     \<and> set (sv_conns s') = set (sv_conns s) - {fd} \<and> sv_tasks s' = sv_tasks s \<and> sv_pool s' = sv_pool s \<and> server_ok s'"
proof -
  obtain s1 s2 tn where
    2: "handle_event c0 e1 s = Some (Inr s1)" "last (sv_pool s1) = sv_tnext s" "sv_tnext s \<in> set (sv_pool s1)"
    "kernel_ok W (sv_tnext s) s1" "handle_conn W (sv_tnext s) (take_task (sv_tnext s) s1) = Inr s2" "server_ok s2"
    "sv_tasks s2 = (sv_tasks s)(sv_tnext s \<mapsto> tn)" "str_is (sv_heap s2) (complete_resp (t_resp tn)) (wire code hs b)"
    "str_is (sv_heap s2) (t_buffer tn) q" "sv_out s2 = sv_out s" "sv_conns s2 = sv_conns s" "sv_pool s2 = sv_pool s"
    "sv_ln s2 = sv_ln s" "sv_kq s2 = ev_add fd EVFILT_WRITE (TaskData (sv_tnext s)) (sv_kq s)"
    by (rule request_answered [OF ok h e1 a k r])
  obtain z where z: "sdata (t_buffer tn) = Some z" using 2(9) by (auto elim: str_isE)
  have g: "(fd, EVFILT_WRITE, TaskData (sv_tnext s)) \<in> set (sv_kq s2)" unfolding 2(14) by (simp add: set_ev_add)
  have n: "sv_tasks s (sv_tnext s) = None" using ok by (auto simp: server_inv_def tasks_ok_def)
  from response_written [OF 2(6) g e2 _ 2(8,9) z, of c0] obtain s' where
    3: "handle_event c0 e2 s2 = Some (Inr s')" "server_ok s'" "sv_out s' = (sv_out s)(fd := sv_out s fd @ wire code hs b)"
     "set (sv_conns s') = set (sv_conns s) - {fd}" "sv_tasks s' = (sv_tasks s2)(sv_tnext s := None)" "sv_pool s' = sv_pool s"
    using 2 by auto
  have "sv_tasks s' = sv_tasks s" using 3(5) 2(7) n by auto
  then show ?thesis using 2(1,2,5) 3 by (auto simp: conversation_def)
qed

section \<open>Properties\<close>

text \<open>C7: A request for something that does not exist, from the socket and back: for a connected client
  that sends a \<open>GET\<close> request for a path without a route and without a file, the reading handler, a
  worker and the writing handler together append exactly the 404 response with the raw target to what
  the client has been sent; afterwards the client's connection is closed and every task is as before.\<close>

theorem serve_not_found:
  assumes "reach E s" and "ready (sv_heap s)" and "request_event e1 fd q s" and "asks (we_llhttp W) q m u d"
    and "get_mothod_type m = GET" and "fst (route_lookup (we_khash W) (we_handler W) table (path_part d)) = False"
    and "f_stat (we_files W) (''./www'' @ path_part d) = None" and "sv_route s = Some table" and "0 \<le> we_kevent W"
    and "response_event e2 fd (sv_tnext s) (wire 404 (page_headers (not_found_text u) ''text/plain'' ''keep-alive'') (not_found_text u))"
  shows "\<exists>s'. conversation c0 W e1 e2 s = Some (Inr s')
     \<and> sv_out s' = (sv_out s)(fd := sv_out s fd
          @ wire 404 (page_headers (not_found_text u) ''text/plain'' ''keep-alive'') (not_found_text u))
     \<and> set (sv_conns s') = set (sv_conns s) - {fd} \<and> sv_tasks s' = sv_tasks s \<and> sv_pool s' = sv_pool s"
  using conversation_ends [OF reach_ok [OF assms(1)] assms(2-4,9) responds_missing [OF assms(5-8)] assms(10)] by blast

text \<open>The environment of a worker whose parser reports a request of method \<open>m\<close> for \<open>u\<close>, with an empty \<^verbatim>\<open>./www\<close>
  and the home page behind every function pointer.\<close>

definition worker0 :: "char list \<Rightarrow> char list \<Rightarrow> ((key \<times> nat route_handler_t) list, nat, unit) worker_env" where
  "worker0 m u = \<lparr>we_khash = assoc_khash,
     we_llhttp = \<lparr>lh_init = (), lh_execute = (\<lambda>_ _. (request_events m u [(''Host'', ''h'')] [EvMessageComplete], 0, ()))\<rparr>,
     we_files = files0, we_run = (\<lambda>_. home_page), we_junk = (\<lambda>_. CHR ''?''), we_ext = replicate 10 (CHR ''?''),
     we_handler = \<lparr>func = 9\<rparr>, we_kevent = 0\<rparr>"

definition read5 :: "unit kevent_t" where
  "read5 = (event0 5 EVFILT_READ (NodeData (Some 0)))\<lparr>ke_recvs := [RData ''GET'', RAgain]\<rparr>"

definition write5 :: "nat \<Rightarrow> unit kevent_t" where
  "write5 n = (event0 5 EVFILT_WRITE (TaskData 0))\<lparr>ke_sends := [Sent 10, Sent n]\<rparr>"

lemma read5_event: "request_event read5 5 ''GET'' server5"
  unfolding request_event_def
  by (auto simp: read5_def event0_def server5_def server0_def listener0_def task_in0_def INT_MAX_def drained_def
      received_def cstr_def NUL_def intro!: exI [of _ "[''GET'']"] exI [of _ "[RAgain]"])

lemma write5_event: "10 < length t \<Longrightarrow> length t \<le> n \<Longrightarrow> response_event (write5 n) 5 0 t"
proof -
  assume l: "10 < length t" "length t \<le> n"
  obtain a r where t: "t = a # r" using l(1) by (cases t) auto
  obtain y ys where y: "drop 10 (a # r) = y # ys" using l(1) t by (cases "drop 10 (a # r)") auto
  have "drop n (y # ys) = []" using l t unfolding y [symmetric] by simp
  then have "send_loop [Sent 10, Sent n] t = (take 10 (a # r) @ take n (y # ys), SDone)"
    using t y l by (simp del: drop_Suc_Cons take_Suc_Cons)
  then show ?thesis by (simp add: response_event_def write5_def event0_def)
qed

lemma asks_worker0:
  assumes "pct_decode u = Some d" and "CHR ''?'' \<notin> set d" and "no_nul u" and "length u < 256"
    and "no_nul m" and "length m < 8"
  shows "asks (we_llhttp (worker0 m u)) q m u d"
  using assms by (force simp: asks_def worker0_def HPE_OK_def request_fits_def ignored_def NUL_def)

theorem serve_not_found_witness:
  "\<exists>s'. conversation (client_n 0) (worker0 ''GET'' ''/x'') read5 (write5 1000) server5 = Some (Inr s')
     \<and> sv_out s' 5 = wire 404 (page_headers (not_found_text ''/x'') ''text/plain'' ''keep-alive'') (not_found_text ''/x'')
     \<and> sv_conns s' = [] \<and> sv_tasks s' = Map.empty"
proof -
  let ?t = "wire 404 (page_headers (not_found_text ''/x'') ''text/plain'' ''keep-alive'') (not_found_text ''/x'')"
  have d: "pct_decode ''/x'' = Some ''/x''" "path_part ''/x'' = ''/x''" "get_mothod_type ''GET'' = GET" "10 < length ?t \<and> length ?t \<le> 1000"
    by code_simp+
  have n: "no_nul ''/x''" by (simp add: NUL_def)
  have a: "asks (we_llhttp (worker0 ''GET'' ''/x'')) ''GET'' ''GET'' ''/x'' ''/x''" by (rule asks_worker0 [OF d(1) _ n]) (simp_all add: NUL_def)
  have r: "fst (route_lookup (we_khash (worker0 ''GET'' ''/x'')) (we_handler (worker0 ''GET'' ''/x'')) [((0, ''/''), \<lparr>func = 1\<rparr>)] (path_part ''/x'')) = False"
    "f_stat (we_files (worker0 ''GET'' ''/x'')) (''./www'' @ path_part ''/x'') = None"
    "sv_route server5 = Some [((0, ''/''), \<lparr>func = 1\<rparr>)]"
    unfolding d(2) by (simp_all add: worker0_def server5_def server0_def route_lookup_def assoc_khash_def files0_def)
  have e: "response_event (write5 1000) 5 (sv_tnext server5) ?t"
    using write5_event [of ?t 1000] d(4) by (simp add: server5_def server0_def)
  have h: "ready (sv_heap server5)" using ready_heap0 by (simp add: server5_def server0_def)
  have k: "0 \<le> we_kevent (worker0 ''GET'' ''/x'')" by (simp add: worker0_def)
  have s: "set (sv_conns server5) - {5} = {}" "sv_out server5 5 = []" "sv_tasks server5 = Map.empty"
    by (simp_all add: server5_def server0_def)
  show ?thesis
    using serve_not_found [OF reach_server5 h read5_event a d(3) r k e, of "client_n 0"] unfolding s by auto
qed

text \<open>C19: A registered page, from the socket and back: a \<open>GET\<close> request for a path that is registered for
  the home page of the application makes the three steps send exactly its response, status 200 and the
  body \<open>Path=\<close> with the raw target.\<close>

theorem serve_home_page:
  assumes "reach E s" and "ready (sv_heap s)" and "request_event e1 fd q s" and "asks (we_llhttp W) q m u d"
    and "get_mothod_type m = GET"
    and "route_lookup (we_khash W) (we_handler W) table (path_part d) = (True, \<lparr>func = f\<rparr>)" and "we_run W f = home_page"
    and "sv_route s = Some table"
    and "0 \<le> we_kevent W"
    and "response_event e2 fd (sv_tnext s) (wire 200 (home_headers (show_nat (length u + 5))) (''Path='' @ u))"
  shows "\<exists>s'. conversation c0 W e1 e2 s = Some (Inr s')
     \<and> sv_out s' = (sv_out s)(fd := sv_out s fd @ wire 200 (home_headers (show_nat (length u + 5))) (''Path='' @ u))
     \<and> set (sv_conns s') = set (sv_conns s) - {fd} \<and> sv_tasks s' = sv_tasks s \<and> sv_pool s' = sv_pool s"
  using conversation_ends [OF reach_ok [OF assms(1)] assms(2-4,9) home.responds_page [OF assms(5-8)]
      assms(10) [folded path_headers_def path_body_def]]
  unfolding path_headers_def path_body_def by blast

theorem serve_home_page_witness:
  "\<exists>s'. conversation (client_n 0) (worker0 ''GET'' ''/'') read5 (write5 1000) server5 = Some (Inr s')
     \<and> sv_out s' 5 = wire 200 (home_headers (show_nat 6)) ''Path=/'' \<and> sv_conns s' = [] \<and> sv_tasks s' = Map.empty"
proof -
  let ?W = "worker0 ''GET'' ''/''" and ?t = "wire 200 (home_headers (show_nat (length ''/'' + 5))) (''Path='' @ ''/'')"
  have d: "pct_decode ''/'' = Some ''/''" "path_part ''/'' = ''/''" "get_mothod_type ''GET'' = GET" "10 < length ?t \<and> length ?t \<le> 1000"
    by code_simp+
  have a: "asks (we_llhttp ?W) ''GET'' ''GET'' ''/'' ''/''" by (rule asks_worker0 [OF d(1)]) (simp_all add: NUL_def)
  have r: "route_lookup (we_khash ?W) (we_handler ?W) [((0, ''/''), \<lparr>func = 1\<rparr>)] (path_part ''/'') = (True, \<lparr>func = 1\<rparr>)"
    "we_run ?W 1 = home_page" "sv_route server5 = Some [((0, ''/''), \<lparr>func = 1\<rparr>)]"
    unfolding d(2) by (simp_all add: worker0_def server5_def server0_def route_lookup_def assoc_khash_def)
  have e: "response_event (write5 1000) 5 (sv_tnext server5) ?t"
    using write5_event [of ?t 1000] d(4) by (simp add: server5_def server0_def)
  have h: "ready (sv_heap server5)" using ready_heap0 by (simp add: server5_def server0_def)
  have k: "0 \<le> we_kevent ?W" by (simp add: worker0_def)
  have s: "set (sv_conns server5) - {5} = {}" "sv_out server5 5 = []" "sv_tasks server5 = Map.empty"
    by (simp_all add: server5_def server0_def)
  show ?thesis
    using serve_home_page [OF reach_server5 h read5_event a d(3) r k e, of "client_n 0"] unfolding s by auto
qed

text \<open>A request with another method than \<open>GET\<close>, such as \<open>POST\<close> or \<open>HEAD\<close>, is answered with the cleared
  response: the status line \<open>HTTP/1.1 0 Internal Server Error\<close> and an empty line.\<close>

theorem serve_other_method:
  assumes "reach E s" and "ready (sv_heap s)" and "request_event e1 fd q s" and "asks (we_llhttp W) q m u d"
    and "get_mothod_type m \<noteq> GET" and "0 \<le> we_kevent W"
    and "response_event e2 fd (sv_tnext s) (''HTTP/1.1 0 Internal Server Error'' @ CRLF @ CRLF)"
  shows "\<exists>s'. conversation c0 W e1 e2 s = Some (Inr s')
     \<and> sv_out s' = (sv_out s)(fd := sv_out s fd @ ''HTTP/1.1 0 Internal Server Error'' @ CRLF @ CRLF)
     \<and> set (sv_conns s') = set (sv_conns s) - {fd}"
  using conversation_ends [OF reach_ok [OF assms(1)] assms(2-4,6) responds_other [OF assms(5)] assms(7) [folded wire_cleared]]
  unfolding wire_cleared by blast

theorem serve_other_method_witness:
  "\<exists>s'. conversation (client_n 0) (worker0 ''POST'' ''/'') read5 (write5 1000) server5 = Some (Inr s')
     \<and> sv_out s' 5 = ''HTTP/1.1 0 Internal Server Error'' @ CRLF @ CRLF"
proof -
  let ?W = "worker0 ''POST'' ''/''" and ?t = "''HTTP/1.1 0 Internal Server Error'' @ CRLF @ CRLF"
  have d: "pct_decode ''/'' = Some ''/''" "get_mothod_type ''POST'' \<noteq> GET" "10 < length ?t \<and> length ?t \<le> 1000"
    by code_simp+
  have a: "asks (we_llhttp ?W) ''GET'' ''POST'' ''/'' ''/''" by (rule asks_worker0 [OF d(1)]) (simp_all add: NUL_def)
  have e: "response_event (write5 1000) 5 (sv_tnext server5) ?t"
    using write5_event [of ?t 1000] d(3) by (simp add: server5_def server0_def)
  have h: "ready (sv_heap server5)" using ready_heap0 by (simp add: server5_def server0_def)
  have k: "0 \<le> we_kevent ?W" by (simp add: worker0_def)
  have s: "sv_out server5 5 = []" by (simp add: server5_def server0_def)
  show ?thesis
    using serve_other_method [OF reach_server5 h read5_event a d(2) k e, of "client_n 0"] unfolding s by auto
qed

text \<open>C32: A response that does not go out at once is sent again from its first byte: when the socket takes
  \<open>k\<close> bytes and then would block, the handler registers the task again without keeping \<open>k\<close>, and the next
  event, on a socket that takes everything, sends the whole response after the part already sent.\<close>

theorem partial_write_resends:
  assumes "reach E s" and "(fd, EVFILT_WRITE, TaskData i) \<in> set (sv_kq s)" and "sv_tasks s i = Some tn"
    and "str_is (sv_heap s) (complete_resp (t_resp tn)) bytes" and "str_is (sv_heap s) (t_buffer tn) q"
    and "ke_ident e1 = fd" and "ke_filter e1 = EVFILT_WRITE" and "ke_udata e1 = TaskData i"
    and "send_loop (ke_sends e1) bytes = (take k bytes, SWait)" and "response_event e2 fd i bytes"
  shows "\<exists>s1 s2. handle_event c0 e1 s = Some (Inr s1) \<and> (fd, EVFILT_WRITE, TaskData i) \<in> set (sv_kq s1)
     \<and> handle_event c0 e2 s1 = Some (Inr s2) \<and> sv_out s2 = (sv_out s)(fd := sv_out s fd @ take k bytes @ bytes)"
proof -
  note ok = reach_ok [OF assms(1)]
  have fd: "cl_fd (t_client tn) = fd" using ok assms(2,3) by (fastforce simp: server_inv_def reg_inv_def task_for_def)
  let ?s1 = "s\<lparr>sv_kq := ev_add fd EVFILT_WRITE (TaskData i) (ev_delete fd EVFILT_WRITE (sv_kq s)),
       sv_out := (sv_out s)(fd := sv_out s fd @ take k bytes)\<rparr>"
  have 1: "handle_event c0 e1 s = Some (Inr ?s1)"
    using assms(3,6-9) load_str [OF assms(4)] fd by (simp add: handle_event_def write_to_client_def Let_def)
  have d: "server_ok (s\<lparr>sv_kq := ev_delete fd EVFILT_WRITE (sv_kq s)\<rparr>)" by (rule server_ok_delete [OF ok])
  have "reg_ok s (fd, EVFILT_WRITE, TaskData i)" using ok assms(2) by (auto simp: server_inv_def)
  then have "reg_ok (s\<lparr>sv_kq := ev_delete fd EVFILT_WRITE (sv_kq s)\<rparr>) (fd, EVFILT_WRITE, TaskData i)"
    by (elim reg_inv_mono) auto
  from server_ok_add [OF d this] have ok1: "server_ok ?s1"
    by (rule server_inv_cong [THEN iffD2, rotated -1]) simp_all
  obtain b where b: "sdata (t_buffer tn) = Some b" using assms(5) by (auto elim: str_isE)
  have r: "(fd, EVFILT_WRITE, TaskData i) \<in> set (sv_kq ?s1)" by (simp add: set_ev_add)
  from response_written [OF ok1 r assms(10), of tn q b c0] assms(3-5) b obtain s2 where
    "handle_event c0 e2 ?s1 = Some (Inr s2)" "sv_out s2 = (sv_out s)(fd := sv_out s fd @ take k bytes @ bytes)" by auto
  with 1 r show ?thesis by blast
qed

text \<open>The state in which the client has sent a request and the response is waiting to be written; it is
  reachable.\<close>

lemma waiting5:
  obtains s tn where "reach_in x {worker0 ''POST'' ''/''} s" "(5, EVFILT_READ, NodeData (Some 0)) \<in> set (sv_kq s)"
    "(5, EVFILT_WRITE, TaskData 0) \<in> set (sv_kq s)" "sv_tasks s 0 = Some tn" "sv_ln s = listener0" "sv_out s 5 = []"
    "str_is (sv_heap s) (complete_resp (t_resp tn)) (''HTTP/1.1 0 Internal Server Error'' @ CRLF @ CRLF)"
    "str_is (sv_heap s) (t_buffer tn) ''GET''" "ready (sv_heap s)" "cl_fd (t_client tn) = 5"
    "sv_tnext s = 1"
proof -
  let ?W = "worker0 ''POST'' ''/''"
  note r = reach_server5 [of x "{?W}"]
  have d: "pct_decode ''/'' = Some ''/''" "get_mothod_type ''POST'' \<noteq> GET" by code_simp+
  have a: "asks (we_llhttp ?W) ''GET'' ''POST'' ''/'' ''/''" by (rule asks_worker0 [OF d(1)]) (simp_all add: NUL_def)
  have h: "ready (sv_heap server5)" using ready_heap0 by (simp add: server5_def server0_def)
  have k: "0 \<le> we_kevent ?W" by (simp add: worker0_def)
  have f: "sv_tnext server5 = 0" "sv_kq server5 = [(5, EVFILT_READ, NodeData (Some 0))]" "sv_ln server5 = listener0"
    "sv_out server5 5 = []" by (simp_all add: server5_def server0_def)
  obtain s1 s2 tn where
    2: "handle_event (client_n 0) read5 server5 = Some (Inr s1)" "last (sv_pool s1) = 0" "0 \<in> set (sv_pool s1)"
    "kernel_ok ?W 0 s1" "handle_conn ?W 0 (take_task 0 s1) = Inr s2" "server_ok s2"
    "sv_tasks s2 = (sv_tasks server5)(0 \<mapsto> tn)" "str_is (sv_heap s2) (complete_resp (t_resp tn)) (wire 0 [] [])"
    "str_is (sv_heap s2) (t_buffer tn) ''GET''" "sv_out s2 = sv_out server5" "sv_conns s2 = sv_conns server5"
    "sv_pool s2 = sv_pool server5" "sv_ln s2 = sv_ln server5"
    "sv_kq s2 = ev_add 5 EVFILT_WRITE (TaskData 0) (sv_kq server5)" "ready (sv_heap s2)" "sv_tnext s2 = Suc (sv_tnext server5)"
    by (rule request_answered [OF server_inv_weaken [OF reach_ok [OF r]] h read5_event a k responds_other [OF d(2)]]) (simp only: f(1))
  have "reported read5 server5" "answers_in x (client_n 0) (ke_conns read5) server5"
    by (simp_all add: reported_def read5_def event0_def f(2))
  with 2(1) have "step_in x {?W} server5 s1" by (blast intro: step_in.event)
  then have "reach_in x {?W} s1" using r by (blast intro: reach_in.step)
  moreover have "step_in x {?W} s1 s2" using 2(3-5) by (blast intro: step_in.worker)
  ultimately have "reach_in x {?W} s2" by (blast intro: reach_in.step)
  moreover have "reg_ok s2 (5, EVFILT_WRITE, TaskData 0)" using 2(6,14) by (auto simp: server_inv_def set_ev_add)
  then have "cl_fd (t_client tn) = 5" using 2(7) by (simp add: reg_inv_def task_for_def)
  ultimately show thesis using that [of s2 tn] 2(7-10,13-16) f unfolding wire_cleared by (simp add: set_ev_add reg_key_def)
qed

theorem partial_write_resends_witness:
  "\<exists>(s :: ((key \<times> nat route_handler_t) list, unit) server_t) s1 s2.
     handle_event (client_n 0) ((event0 5 EVFILT_WRITE (TaskData 0))\<lparr>ke_sends := [Sent 8, SAgain]\<rparr>) s = Some (Inr s1)
     \<and> handle_event (client_n 0) (write5 1000) s1 = Some (Inr s2)
     \<and> sv_out s2 5 = ''HTTP/1.1HTTP/1.1 0 Internal Server Error'' @ CRLF @ CRLF"
proof -
  let ?t = "''HTTP/1.1 0 Internal Server Error'' @ CRLF @ CRLF"
  let ?e = "(event0 5 EVFILT_WRITE (TaskData 0))\<lparr>ke_sends := [Sent 8, SAgain]\<rparr>"
  obtain s tn where s: "reach {worker0 ''POST'' ''/''} s" "(5, EVFILT_WRITE, TaskData 0) \<in> set (sv_kq s)"
    "sv_tasks s 0 = Some tn" "sv_out s 5 = []" "str_is (sv_heap s) (complete_resp (t_resp tn)) ?t"
    "str_is (sv_heap s) (t_buffer tn) ''GET''"
    by (rule waiting5) blast
  have e: "ke_ident ?e = 5" "ke_filter ?e = EVFILT_WRITE" "ke_udata ?e = TaskData 0" "ke_sends ?e = [Sent 8, SAgain]"
    by (simp_all add: event0_def)
  have l: "send_loop [Sent 8, SAgain] ?t = (take 8 ?t, SWait)" "take 8 ?t = ''HTTP/1.1''" by code_simp+
  have w: "response_event (write5 1000) 5 0 ?t" by (rule write5_event) (simp_all add: CRLF_def)
  from partial_write_resends [OF s(1-3,5,6) e(1-3) _ w, of 8 "client_n 0"] e(4) l s(4) show ?thesis by fastforce
qed

text \<open>C25: Use after free inside one batch: \<open>kevent\<close> reports up to 128 events at once, and they are handled one
  after the other with the pointers they carry.  When the batch holds the WRITE event of a client whose
  response goes out completely, followed by the READ event of the same client (it has sent more), the
  first handler frees the client's node and the second reads it.  Handled one at a time this cannot
  happen, since the READ event is no longer reported.\<close>

theorem batch_write_read_uaf:
  assumes "calm_reach E s" and "(fd, EVFILT_READ, u) \<in> set (sv_kq s)" and "(fd, EVFILT_WRITE, TaskData i) \<in> set (sv_kq s)"
    and "sv_tasks s i = Some tn" and "str_is (sv_heap s) (complete_resp (t_resp tn)) bytes"
    and "str_is (sv_heap s) (t_buffer tn) q" and "response_event e1 fd i bytes"
    and "ke_ident e2 = fd" and "ke_filter e2 = EVFILT_READ" and "ke_udata e2 = u" and "\<not> ke_eof e2"
    and "fd \<noteq> ln_fd (sv_ln s)"
  shows "handle_events c0 [e1, e2] s = Some (Inl UseAfterFree)
     \<and> (\<exists>s1. handle_event c0 e1 s = Some (Inr s1) \<and> (\<forall>v. (fd, EVFILT_READ, v) \<notin> set (sv_kq s1)))"
proof -
  note ok = reach_ok [OF assms(1)]
  have "reg_inv True s (fd, EVFILT_READ, u)" using ok assms(2) by (auto simp: server_inv_def)
  then obtain p c where p: "u = NodeData p" "list_client p (sv_clients s) = Inr c" "list_look fd (sv_clients s) = Some (Inr p)"
    by (auto simp: reg_inv_def node_for_def)
  obtain a where a: "p = Some a" using p(2) by (cases p) (auto simp: list_client_def node_at_def)
  obtain b where b: "sdata (t_buffer tn) = Some b" using assms(6) by (auto elim: str_isE)
  from response_written [OF server_inv_weaken [OF ok] assms(3,7,4-6) b, of c0] obtain s1 where
    1: "handle_event c0 e1 s = Some (Inr s1)" "\<forall>r \<in> set (sv_kq s1). fst r \<noteq> fd" "sv_ln s1 = sv_ln s"
    "list_client (Some a) (sv_clients s1) = Inl UseAfterFree"
    using p(3) a by auto
  have "handle_event c0 e2 s1 = Some (Inl UseAfterFree)"
    using assms(8-12) 1(3,4) p(1) a by (simp add: handle_event_def)
  with 1 show ?thesis by fastforce
qed

theorem batch_write_read_uaf_witness:
  "\<exists>s. reach {worker0 ''POST'' ''/''} s
     \<and> handle_events (client_n 0) [write5 1000, event0 5 EVFILT_READ (NodeData (Some 0))] s = Some (Inl UseAfterFree)"
proof -
  let ?t = "''HTTP/1.1 0 Internal Server Error'' @ CRLF @ CRLF" and ?e = "event0 5 EVFILT_READ (NodeData (Some 0))"
  obtain s tn where s: "calm_reach {worker0 ''POST'' ''/''} s" "(5, EVFILT_READ, NodeData (Some 0)) \<in> set (sv_kq s)"
    "(5, EVFILT_WRITE, TaskData 0) \<in> set (sv_kq s)" "sv_tasks s 0 = Some tn"
    "str_is (sv_heap s) (complete_resp (t_resp tn)) ?t" "str_is (sv_heap s) (t_buffer tn) ''GET''" "sv_ln s = listener0"
    by (rule waiting5) blast
  have w: "response_event (write5 1000) 5 0 ?t" by (rule write5_event) (simp_all add: CRLF_def)
  have "handle_events (client_n 0) [write5 1000, ?e] s = Some (Inl UseAfterFree)"
    using batch_write_read_uaf [OF s(1-6) w, of ?e "client_n 0"] s(7) by (simp add: event0_def listener0_def)
  with reach_weaken [OF s(1)] show ?thesis by blast
qed

end
