(* ===== verification/Orphans.thy ===== *)
theory Orphans
  imports Conversation
begin

text \<open>
  Tasks that nothing refers to any more.  Only the writing handler frees a task, and it reaches tasks
  through their WRITE registration; so a task that is neither registered nor in the pool stays
  allocated whatever the server does from then on.  A rejected request leaves such a task.
\<close>

section \<open>Orphaned tasks\<close>

definition orphan :: "nat \<Rightarrow> ('m, 'p) server_t \<Rightarrow> bool" where
  "orphan i s \<longleftrightarrow> sv_tasks s i \<noteq> None \<and> i \<notin> set (sv_pool s) \<and> (\<forall>r \<in> set (sv_kq s). snd (snd r) \<noteq> TaskData i)"

lemma orphan_mono:
  assumes "orphan i s" and "sv_tasks s' i \<noteq> None" and "i \<notin> set (sv_pool s')"
    and "\<And>fd f. (fd, f, TaskData i) \<in> set (sv_kq s') \<Longrightarrow> (fd, f, TaskData i) \<in> set (sv_kq s)"
  shows "orphan i s'"
  using assms by (force simp: orphan_def)

lemma remove_client_orphan:
  assumes "server_ok s" and "orphan i s" and "remove_client s fd = Some (Inr s')"
  shows "orphan i s'"
proof -
  have "sv_tasks s' = sv_tasks s" "sv_pool s' = sv_pool s" "sv_kq s' = filter (\<lambda>(fd', _). fd' \<noteq> fd) (sv_kq s)"
    using remove_client_ok [OF assms(1), of fd] assms(3) by auto
  then show ?thesis using assms(2) by (intro orphan_mono [OF assms(2)]) (auto simp: orphan_def)
qed

lemma enrol_client_orphan:
  assumes "orphan i s" and "enrol_client ci c s = Inr s'"
  shows "orphan i s'"
proof -
  have "sv_tasks s' = sv_tasks s \<and> sv_pool s' = sv_pool s
    \<and> (\<forall>fd f. (fd, f, TaskData i) \<in> set (sv_kq s') \<longrightarrow> (fd, f, TaskData i) \<in> set (sv_kq s))"
    using assms(2) by (auto simp: enrol_client_def close_client_def Let_def rbind_eq_Inr set_ev_add split: if_splits)
  then show ?thesis using assms(1) by (intro orphan_mono [OF assms(1)]) (auto simp: orphan_def)
qed

lemma accept_client_orphan: "orphan i s \<Longrightarrow> accept_client c0 cis s = Inr s' \<Longrightarrow> orphan i s'"
proof (induction cis arbitrary: s)
  case (Cons ci cis)
  have l: "orphan i (s\<lparr>sv_conns := t\<rparr>)" "orphan i (close_client c s)" for t c
    using Cons.prems(1) by (auto simp: close_client_def orphan_def)
  define conn where "conn = s_accept c0 (ci_fd ci, ci_addr ci)"
  note step = Cons.prems(2) [simplified Let_def accept_client.simps, folded conn_def]
  show ?case
  proof (cases "cl_fd conn = -1 \<or> cl_err conn \<noteq> 0")
    case True
    then show ?thesis using step Cons.prems(1) Cons.IH [OF l(2)] by (auto split: if_splits)
  next
    case False
    then obtain c t s2 where "enrol_client ci c (s\<lparr>sv_conns := t\<rparr>) = Inr s2" "accept_client c0 cis s2 = Inr s'"
      using step by (auto simp: rbind_eq_Inr)
    then show ?thesis using Cons.IH [OF enrol_client_orphan [OF l(1)]] by blast
  qed
qed simp

lemma read_from_client_orphan:
  assumes "server_ok s" and "orphan i s" and "read_from_client rs ti c s = Some (Inr s')"
  shows "orphan i s'"
  using assms(3)
proof (cases rule: read_from_client_cases)
  case (memory h)
  then show ?thesis using assms(2) by (simp add: orphan_def)
next
  case (gone h)
  have "orphan i (s\<lparr>sv_heap := h\<rparr>)" "server_ok (s\<lparr>sv_heap := h\<rparr>)" using assms(1,2) by (simp_all add: orphan_def)
  then show ?thesis using remove_client_orphan gone by blast
next
  case (task tn h)
  have "i < sv_tnext s" using assms(1,2) by (auto simp: server_inv_def tasks_ok_def orphan_def)
  then show ?thesis using assms(2) by (auto simp: orphan_def task)
qed

lemma write_to_client_orphan:
  assumes "server_ok s" and "orphan i s" and "i \<noteq> j" and "write_to_client sends j s = Some (Inr s')"
  shows "orphan i s'"
proof -
  obtain tn where tn: "sv_tasks s j = Some tn" using assms(4) by (auto simp: write_to_client_def split: option.splits)
  let ?fd = "cl_fd (t_client tn)"
  obtain out e f bytes where
    load: "load (sdata (complete_resp (t_resp tn))) (nat (slen (complete_resp (t_resp tn)))) (sv_heap s) = Inr bytes"
    "send_loop sends bytes = (out, e)" "f = (sv_out s)(?fd := sv_out s ?fd @ out)"
    using assms(4) tn by (auto simp: write_to_client_def Let_def split: sum.splits prod.splits)
  let ?s = "s\<lparr>sv_out := f\<rparr>"
  have o: "orphan i ?s" "server_ok ?s" using assms(1,2) by (simp_all add: orphan_def)
  show ?thesis
  proof (cases e)
    case SWait
    then have "s' = ?s\<lparr>sv_kq := ev_add ?fd EVFILT_WRITE (TaskData j) (sv_kq ?s)\<rparr>"
      using assms(4) tn load by (simp add: write_to_client_def Let_def)
    then show ?thesis using o(1) assms(3) by (intro orphan_mono [OF o(1)]) (auto simp: set_ev_add orphan_def)
  next
    case SLost
    then have "s' = ?s" using assms(4) tn load by (simp add: write_to_client_def Let_def)
    then show ?thesis using o(1) by simp
  next
    case SFail
    then show ?thesis using assms(4) tn load remove_client_orphan [OF o(2,1)] by (simp add: write_to_client_def Let_def)
  next
    case SDone
    then obtain s2 h where s2: "remove_client ?s ?fd = Some (Inr s2)" "s' = s2\<lparr>sv_heap := h, sv_tasks := (sv_tasks s2)(j := None)\<rparr>"
      using assms(4) tn load by (auto simp: write_to_client_def Let_def rbind_eq_Inr)
    show ?thesis using remove_client_orphan [OF o(2,1) s2(1)] assms(3) by (simp add: s2(2) orphan_def)
  qed
qed

lemma handle_event_orphan:
  assumes "server_ok s" and "orphan i s" and "reported e s" and "handle_event c0 e s = Some (Inr s')"
  shows "orphan i s'"
proof (cases "ke_filter e")
  case EVFILT_READ
  consider "ke_eof e" | "\<not> ke_eof e" "ke_ident e = ln_fd (sv_ln s)"
    | "\<not> ke_eof e" "ke_ident e \<noteq> ln_fd (sv_ln s)" by blast
  then show ?thesis
  proof cases
    case 1
    then have "remove_client s (ke_ident e) = Some (Inr s')" using assms(4) EVFILT_READ by (simp add: handle_event_def)
    then show ?thesis by (rule remove_client_orphan [OF assms(1,2)])
  next
    case 2
    then have "accept_client c0 (ke_conns e) s = Inr s'" using assms(4) EVFILT_READ by (simp add: handle_event_def)
    then show ?thesis by (rule accept_client_orphan [OF assms(2)])
  next
    case 3
    then obtain c where "read_from_client (ke_recvs e) (ke_task e) c s = Some (Inr s')"
      using assms(4) EVFILT_READ by (auto simp: handle_event_def split: udata.splits sum.splits)
    then show ?thesis by (rule read_from_client_orphan [OF assms(1,2)])
  qed
next
  case EVFILT_WRITE
  then obtain j where j: "ke_udata e = TaskData j" "(ke_ident e, EVFILT_WRITE, TaskData j) \<in> set (sv_kq s)"
    "write_to_client (ke_sends e) j (s\<lparr>sv_kq := ev_delete (ke_ident e) EVFILT_WRITE (sv_kq s)\<rparr>) = Some (Inr s')"
    using assms(3,4) by (auto simp: handle_event_def reported_def split: udata.splits)
  have "i \<noteq> j" using assms(2) j(2) by (force simp: orphan_def)
  moreover have "orphan i (s\<lparr>sv_kq := ev_delete (ke_ident e) EVFILT_WRITE (sv_kq s)\<rparr>)"
    using assms(2) by (intro orphan_mono [OF assms(2)]) (auto simp: orphan_def set_ev_delete)
  ultimately show ?thesis using write_to_client_orphan [OF server_ok_delete [OF assms(1)] _ _ j(3)] by blast
next
  case EVFILT_TIMER
  then show ?thesis using assms(2,4) by (simp add: handle_event_def)
qed

lemma handle_conn_orphan:
  assumes "orphan i s" and "j \<in> set (sv_pool s)" and "handle_conn W j (take_task j s) = Inr s'"
  shows "orphan i s'"
proof -
  have n: "i \<noteq> j" using assms(1,2) by (auto simp: orphan_def)
  have "sv_tasks s' i = sv_tasks s i \<and> sv_pool s' = remove1 j (sv_pool s)
    \<and> (\<forall>fd f. (fd, f, TaskData i) \<in> set (sv_kq s') \<longrightarrow> (fd, f, TaskData i) \<in> set (sv_kq s))"
    using assms(3) n
    by (auto simp: handle_conn_eq take_task_def rbind_eq_Inr Let_def set_ev_add split: option.splits if_split_asm)
  then show ?thesis using assms(1) by (intro orphan_mono [OF assms(1)]) (auto simp: orphan_def dest: notin_set_remove1)
qed

lemma server_step_orphan:
  assumes "server_step E s s'" and "server_ok s" and "orphan i s"
  shows "orphan i s'"
  using assms(1)
proof (cases rule: step_inE)
  case (event e c0)
  then show ?thesis by (intro handle_event_orphan [OF assms(2,3)])
next
  case (worker j W)
  then show ?thesis by (intro handle_conn_orphan [OF assms(3)])
qed

lemma steps_orphan:
  assumes "(server_step E)\<^sup>*\<^sup>* s s'" and "server_ok s" and "orphan i s"
  shows "orphan i s'"
  using assms(1)
proof (induction rule: rtranclp_induct)
  case base
  show ?case by (rule assms(3))
next
  case (step t u)
  have "server_ok t" using step.hyps(1)
    by (induction rule: rtranclp_induct) (use assms(2) server_step_ok in auto)
  then show ?case using server_step_orphan [OF step.hyps(2)] step.IH by blast
qed

section \<open>Properties\<close>

text \<open>C20: A request that is rejected is never answered and its task is never freed: when the parser returns 1
  (the code calls it a bad request) the worker registers nothing and sends nothing; from then on,
  whatever events and tasks the server handles, the task stays allocated and no registration leads
  to it.\<close>

theorem rejected_request_unanswered:
  assumes "reach E s" and "i \<in> set (sv_pool s)" and "sv_tasks s i = Some tn" and "sdata (t_buffer tn) = Some a"
    and "hmem (sv_heap s) a = Some b"
    and "parse_http_request (we_llhttp W) (we_junk W) (init_req_ctx (we_llhttp W) (t_req tn)) b (slen (t_buffer tn)) = Inr (1, rctx)"
  shows "\<exists>s1. handle_conn W i (take_task i s) = Inr s1 \<and> sv_kq s1 = sv_kq s \<and> sv_out s1 = sv_out s
     \<and> (\<forall>s2. (server_step E)\<^sup>*\<^sup>* s1 s2 \<longrightarrow> sv_tasks s2 i \<noteq> None \<and> (\<forall>fd f. (fd, f, TaskData i) \<notin> set (sv_kq s2)))"
proof -
  note ok = reach_ok [OF assms(1)]
  let ?t = "take_task i s"
  let ?s1 = "?t\<lparr>sv_tasks := (sv_tasks s)(i \<mapsto> tn\<lparr>t_req := rctx, t_resp := init_resp_ctx\<rparr>)\<rparr>"
  have run: "handle_conn W i ?t = Inr ?s1"
    using assms(3-6) by (simp add: handle_conn_eq take_task_def block_def Let_def)
  have "server_ok ?s1" using server_ok_update_task [OF server_ok_take [OF ok], of i i tn] assms(3) by (simp add: take_task_def)
  moreover have "snd (snd r) \<noteq> TaskData i" if "r \<in> set (sv_kq s)" for r
  proof -
    obtain fd f u where r: "r = (fd, f, u)" by (cases r)
    with ok that have "reg_ok s (fd, f, u)" by (auto simp: server_inv_def)
    then show ?thesis using assms(2) r by (cases f) (auto simp: reg_inv_def node_for_def task_for_def)
  qed
  then have "orphan i ?s1" using ok by (auto simp: orphan_def take_task_def server_inv_def tasks_ok_def)
  ultimately have "orphan i s2" if "(server_step E)\<^sup>*\<^sup>* ?s1 s2" for s2 using steps_orphan that by blast
  then have "sv_tasks s2 i \<noteq> None \<and> (\<forall>fd f. (fd, f, TaskData i) \<notin> set (sv_kq s2))" if "(server_step E)\<^sup>*\<^sup>* ?s1 s2" for s2
    using that by (fastforce simp: orphan_def)
  moreover have "sv_kq ?s1 = sv_kq s" "sv_out ?s1 = sv_out s" by (simp_all add: take_task_def)
  ultimately show ?thesis using run by blast
qed

text \<open>A worker whose parser reports an error.\<close>

definition worker_bad :: "((key \<times> nat route_handler_t) list, nat, unit) worker_env" where
  "worker_bad = (worker0 ''GET'' ''/'')\<lparr>we_llhttp := \<lparr>lh_init = (), lh_execute = (\<lambda>_ _. ([], 1, ()))\<rparr>\<rparr>"

theorem rejected_request_unanswered_witness:
  "\<exists>s s1. reach {worker_bad} s \<and> handle_conn worker_bad 0 (take_task 0 s) = Inr s1 \<and> sv_out s1 5 = []
     \<and> (\<forall>s2. (server_step {worker_bad})\<^sup>*\<^sup>* s1 s2 \<longrightarrow> sv_tasks s2 0 \<noteq> None)"
proof -
  note r = reach_server5 [of False "{worker_bad}"]
  have h: "ready (sv_heap server5)" using ready_heap0 by (simp add: server5_def server0_def)
  obtain s tn where
    s: "handle_event (client_n 0) read5 server5 = Some (Inr s)" "str_is (sv_heap s) (t_buffer tn) ''GET''"
    and e: "s = server5\<lparr>sv_tasks := (sv_tasks server5)(sv_tnext server5 \<mapsto> tn), sv_tnext := Suc (sv_tnext server5),
       sv_pool := sv_pool server5 @ [sv_tnext server5], sv_heap := sv_heap s\<rparr>"
    by (rule request_read [OF reach_ok [OF r] h read5_event]) blast
  have "reported read5 server5" "answers_ok (client_n 0) (ke_conns read5) server5"
    by (simp_all add: reported_def read5_def event0_def server5_def)
  with s(1) have "server_step {worker_bad} server5 s" by (blast intro: step_in.event)
  with r have reach: "reach {worker_bad} s" by (blast intro: reach_in.step)
  obtain H where H: "sv_heap s = H" by blast
  have f: "sv_tasks s 0 = Some tn" "0 \<in> set (sv_pool s)" "sv_out s 5 = []"
    using e unfolding H by (simp_all add: server5_def server0_def)
  obtain a x where a: "sdata (t_buffer tn) = Some a" "hmem (sv_heap s) a = Some (''GET'' @ NUL # x)" "slen (t_buffer tn) = 3"
    using s(2) by (auto elim!: str_isE)
  have "parse_http_request (we_llhttp worker_bad) (we_junk worker_bad) (init_req_ctx (we_llhttp worker_bad) (t_req tn))
      (''GET'' @ NUL # x) (slen (t_buffer tn))
    = Inr (1, (init_req_ctx (we_llhttp worker_bad) (t_req tn))\<lparr>req := http_request_t_init, lparser := ()\<rparr>)"
    by (simp add: parse_http_request_def a(3) worker_bad_def HPE_OK_def init_req_ctx_def reset_req_ctx_def Let_def)
  from rejected_request_unanswered [OF reach f(2,1) a(1,2) this] reach f(3) show ?thesis by auto
qed

end
