(* ===== verification/Isolation.thy ===== *)
theory Isolation
  imports Orphans
begin

text \<open>
  What the handlers leave alone: an event for one connection changes nothing that another connection
  can observe, a worker's task changes no connection but its own, and tasks that a worker holds are not
  touched by the loop.
\<close>

section \<open>The view of one connection\<close>

definition same_view :: "int \<Rightarrow> ('m, 'p) server_t \<Rightarrow> ('m, 'p) server_t \<Rightarrow> bool" where
  "same_view fd s s' \<longleftrightarrow> (fd \<in> set (sv_conns s) \<longrightarrow> fd \<in> set (sv_conns s')) \<and> sv_out s' fd = sv_out s fd
     \<and> (\<forall>p. list_look fd (sv_clients s) = Some (Inr (Some p)) \<longrightarrow>
           list_look fd (sv_clients s') = Some (Inr (Some p))
           \<and> (\<forall>c. list_client (Some p) (sv_clients s) = Inr c \<longrightarrow> cl_fd c = fd \<longrightarrow> list_client (Some p) (sv_clients s') = Inr c))
     \<and> (\<forall>i tn. sv_tasks s i = Some tn \<longrightarrow> cl_fd (t_client tn) = fd \<longrightarrow> sv_tasks s' i = Some tn)
     \<and> (\<forall>f u. (fd, f, u) \<in> set (sv_kq s') \<longleftrightarrow> (fd, f, u) \<in> set (sv_kq s))"

lemma same_view_refl: "same_view fd s s"
  by (simp add: same_view_def)

lemma same_view_trans: "same_view fd s s1 \<Longrightarrow> same_view fd s1 s2 \<Longrightarrow> same_view fd s s2"
  by (auto simp: same_view_def)

lemma same_view_cong:
  assumes "sv_conns s' = sv_conns s" and "sv_out s' fd = sv_out s fd" and "sv_clients s' = sv_clients s"
    and "\<And>i tn. sv_tasks s i = Some tn \<Longrightarrow> cl_fd (t_client tn) = fd \<Longrightarrow> sv_tasks s' i = Some tn"
    and "\<And>f u. (fd, f, u) \<in> set (sv_kq s') \<longleftrightarrow> (fd, f, u) \<in> set (sv_kq s)"
  shows "same_view fd s s'"
  using assms by (simp add: same_view_def)

lemma remove_client_view:
  assumes "server_ok s" and "remove_client s fd' = Some (Inr s')" and "fd \<noteq> fd'"
  shows "same_view fd s s'"
  using assms(1)
proof (cases rule: remove_client_cases [where fd = fd'])
  case absent
  then show ?thesis using assms(2) by (simp add: same_view_refl)
next
  case (found p c cl)
  have s': "s' = s\<lparr>sv_kq := filter (\<lambda>(fd, _). fd \<noteq> fd') (sv_kq s), sv_conns := close_fd fd' (sv_conns s), sv_clients := cl\<rparr>"
    using found(1) assms(2) by simp
  show ?thesis using found(6,8) assms(3) unfolding s' by (auto simp: same_view_def close_fd_def)
qed

lemma enrol_client_view:
  assumes ok: "server_ok s" and c: "cl_fd c \<notin> set (sv_conns s)" and fd: "fd \<in> set (sv_conns s)"
    and e: "enrol_client ci c (s\<lparr>sv_conns := cl_fd c # sv_conns s\<rparr>) = Inr s'"
  shows "same_view fd s s'"
proof -
  obtain cs where cs: "holds (sv_clients s) cs" using ok by (auto simp: server_inv_def tracks_def)
  have k: "False \<longrightarrow> 0 \<le> ci_kevent ci" by simp
  from ok c k e show ?thesis
  proof (cases rule: enrol_client_cases)
    case (refused node cl)
    have "node \<noteq> None" using server_ok_new_client [OF ok c refused(1)] by simp
    then obtain p where "list_add c (sv_clients s) = Inr (Some p, cl)" using refused(1) by auto
    from nodes.look_add [OF cs this, of fd "Some _"] nodes.add_frame [OF cs this] show ?thesis
      by (auto simp: refused(3) same_view_def)
  next
    case (enrolled p cl)
    then show ?thesis
      using nodes.look_add [OF cs enrolled(1), of fd "Some _"] nodes.add_frame [OF cs enrolled(1)] c fd
      by (auto simp: same_view_def set_ev_add reg_key_def)
  qed (simp_all add: same_view_refl)
qed

lemma accept_client_view:
  "server_ok s \<Longrightarrow> answers_ok c0 cis s \<Longrightarrow> accept_client c0 cis s = Inr s' \<Longrightarrow> fd \<in> set (sv_conns s) \<Longrightarrow> same_view fd s s'"
proof (induction cis arbitrary: s)
  case Nil
  then show ?case by (simp add: same_view_refl)
next
  case (Cons ci cis)
  show ?case
  proof (cases "ci_fd ci = -1")
    case True
    then show ?thesis using Cons.prems by (simp add: s_accept_def same_view_refl)
  next
    case False
    with Cons.prems(3) obtain s1 where 1: "accept_client c0 [ci] s = Inr s1" "accept_client c0 cis s1 = Inr s'"
      unfolding accept_rounds [of c0 ci cis] by (auto simp: rbind_eq_Inr)
    have a: "answer_ok ci s" "answers_ok c0 cis s1" using Cons.prems(2) 1(1) by (simp_all del: accept_client.simps)
    then have n: "0 \<le> ci_fd ci" "ci_fd ci \<notin> set (sv_conns s)" using False by (auto simp: answer_in_def)
    obtain c where c: "enrol_client ci c (s\<lparr>sv_conns := ci_fd ci # sv_conns s\<rparr>) = Inr s1" "cl_fd c = ci_fd ci"
      using 1(1) n(1) False by (auto simp: s_accept_def Let_def rbind_eq_Inr)
    note c' = c(1) [folded c(2)] n(2) [folded c(2)]
    have v: "same_view fd s s1" by (rule enrol_client_view [OF Cons.prems(1) c'(2) Cons.prems(4) c'(1)])
    have ok: "server_ok s1" using accept_round_ok [OF Cons.prems(1) a(1) 1(1)] by simp
    have "fd \<in> set (sv_conns s1)" using v Cons.prems(4) by (simp add: same_view_def)
    from Cons.IH [OF ok a(2) 1(2) this] v show ?thesis by (rule same_view_trans [rotated])
  qed
qed

lemma read_from_client_view:
  assumes "server_ok s" and "read_from_client rs ti c s = Some (Inr s')" and "fd \<noteq> cl_fd c"
  shows "same_view fd s s'"
  using assms(2)
proof (cases rule: read_from_client_cases)
  case (memory h)
  then show ?thesis by (intro same_view_cong) simp_all
next
  case (gone h)
  have "same_view fd s (s\<lparr>sv_heap := h\<rparr>)" by (intro same_view_cong) simp_all
  moreover have ok: "server_ok (s\<lparr>sv_heap := h\<rparr>)" using assms(1) by simp
  have "same_view fd (s\<lparr>sv_heap := h\<rparr>) s'" by (rule remove_client_view [OF ok gone assms(3)])
  ultimately show ?thesis by (rule same_view_trans)
next
  case (task tn h)
  have "sv_tasks s (sv_tnext s) = None" using assms(1) by (auto simp: server_inv_def tasks_ok_def)
  then show ?thesis unfolding task by (intro same_view_cong) auto
qed

lemma write_to_client_view:
  assumes "server_ok s" and "sv_tasks s i = Some tn" and "cl_fd (t_client tn) \<noteq> fd"
    and "write_to_client sends i s = Some (Inr s')"
  shows "same_view fd s s'"
proof -
  let ?fd = "cl_fd (t_client tn)"
  obtain out e f bytes where
    load: "load (sdata (complete_resp (t_resp tn))) (nat (slen (complete_resp (t_resp tn)))) (sv_heap s) = Inr bytes"
    "send_loop sends bytes = (out, e)" "f = (sv_out s)(?fd := sv_out s ?fd @ out)"
    using assms(2,4) by (auto simp: write_to_client_def Let_def split: sum.splits prod.splits)
  let ?s = "s\<lparr>sv_out := f\<rparr>"
  have v: "same_view fd s ?s" using load(3) assms(3) by (intro same_view_cong) auto
  have ok: "server_ok ?s" using assms(1) by simp
  show ?thesis
  proof (cases e)
    case SWait
    then have "s' = ?s\<lparr>sv_kq := ev_add ?fd EVFILT_WRITE (TaskData i) (sv_kq ?s)\<rparr>"
      using assms(2,4) load by (simp add: write_to_client_def Let_def)
    then show ?thesis using load(3) assms(3) by (intro same_view_cong) (auto simp: set_ev_add reg_key_def)
  next
    case SLost
    then have "s' = ?s" using assms(2,4) load by (simp add: write_to_client_def Let_def)
    then show ?thesis using v by simp
  next
    case SFail
    then have "remove_client ?s ?fd = Some (Inr s')" using assms(2,4) load by (simp add: write_to_client_def Let_def)
    from same_view_trans [OF v remove_client_view [OF ok this]] assms(3) show ?thesis by simp
  next
    case SDone
    then obtain s2 h where s2: "remove_client ?s ?fd = Some (Inr s2)" "s' = s2\<lparr>sv_heap := h, sv_tasks := (sv_tasks s2)(i := None)\<rparr>"
      using assms(2,4) load by (auto simp: write_to_client_def Let_def rbind_eq_Inr)
    have v2: "same_view fd s s2" using same_view_trans [OF v remove_client_view [OF ok s2(1)]] assms(3) by simp
    have "sv_tasks s2 i = Some tn" using remove_client_ok [OF ok, of ?fd] s2(1) assms(2) by auto
    then have "same_view fd s2 s'" using assms(3) unfolding s2(2) by (intro same_view_cong) auto
    with v2 show ?thesis by (rule same_view_trans)
  qed
qed

lemma handle_event_view:
  assumes "server_ok s" and "reported e s" and "answers_ok c0 (ke_conns e) s"
    and "handle_event c0 e s = Some (Inr s')" and "fd \<in> set (sv_conns s)" and "fd \<noteq> ke_ident e"
  shows "same_view fd s s'"
proof (cases "ke_filter e")
  case EVFILT_READ
  consider "ke_eof e" | "\<not> ke_eof e" "ke_ident e = ln_fd (sv_ln s)"
    | "\<not> ke_eof e" "ke_ident e \<noteq> ln_fd (sv_ln s)" by blast
  then show ?thesis
  proof cases
    case 1
    then have "remove_client s (ke_ident e) = Some (Inr s')" using assms(4) EVFILT_READ by (simp add: handle_event_def)
    then show ?thesis using remove_client_view [OF assms(1)] assms(6) by blast
  next
    case 2
    then have "accept_client c0 (ke_conns e) s = Inr s'" using assms(4) EVFILT_READ by (simp add: handle_event_def)
    then show ?thesis using accept_client_view [OF assms(1,3)] assms(5) by blast
  next
    case 3
    then have "(ke_ident e, EVFILT_READ, ke_udata e) \<in> set (sv_kq s)" using assms(2) EVFILT_READ by (auto simp: reported_def)
    then have "reg_ok s (ke_ident e, EVFILT_READ, ke_udata e)" using assms(1) by (auto simp: server_inv_def)
    then obtain p c where c: "ke_udata e = NodeData p" "list_client p (sv_clients s) = Inr c" "cl_fd c = ke_ident e"
      by (auto simp: reg_inv_def node_for_def)
    then have "read_from_client (ke_recvs e) (ke_task e) c s = Some (Inr s')"
      using assms(4) EVFILT_READ 3 by (simp add: handle_event_def)
    then show ?thesis using read_from_client_view [OF assms(1)] c(3) assms(6) by simp
  qed
next
  case EVFILT_WRITE
  then obtain i where i: "ke_udata e = TaskData i" "(ke_ident e, EVFILT_WRITE, TaskData i) \<in> set (sv_kq s)"
    "write_to_client (ke_sends e) i (s\<lparr>sv_kq := ev_delete (ke_ident e) EVFILT_WRITE (sv_kq s)\<rparr>) = Some (Inr s')"
    using assms(2,4) by (auto simp: handle_event_def reported_def split: udata.splits)
  let ?s = "s\<lparr>sv_kq := ev_delete (ke_ident e) EVFILT_WRITE (sv_kq s)\<rparr>"
  have "reg_ok s (ke_ident e, EVFILT_WRITE, TaskData i)" using assms(1) i(2) by (auto simp: server_inv_def)
  then obtain tn where tn: "sv_tasks ?s i = Some tn" "cl_fd (t_client tn) = ke_ident e"
    by (auto simp: reg_inv_def task_for_def)
  have "same_view fd s ?s" using assms(6) by (intro same_view_cong) (auto simp: set_ev_delete reg_key_def)
  moreover have "same_view fd ?s s'"
    using write_to_client_view [OF server_ok_delete [OF assms(1)] tn(1) _ i(3)] tn(2) assms(6) by simp
  ultimately show ?thesis by (rule same_view_trans)
next
  case EVFILT_TIMER
  then show ?thesis using assms(4) by (simp add: handle_event_def same_view_refl)
qed

lemma handle_conn_view:
  assumes "sv_tasks s i = Some tn" and "fd \<noteq> cl_fd (t_client tn)" and "handle_conn W i (take_task i s) = Inr s'"
  shows "same_view fd s s'"
  using assms
  by (auto simp: handle_conn_eq rbind_eq_Inr Let_def take_task_def set_ev_add reg_key_def
      intro!: same_view_cong split: if_split_asm)

section \<open>Tasks in the hands of the pool\<close>

text \<open>What the loop does to the tasks: it may add one at the end of the pool's list, and it keeps those that
  are there.\<close>

lemma remove_client_tasks:
  assumes "server_ok s" and "remove_client s fd = Some (Inr s')"
  shows "sv_tasks s' = sv_tasks s" and "sv_tnext s' = sv_tnext s" and "sv_pool s' = sv_pool s"
  using remove_client_ok [OF assms(1), of fd] assms(2) by auto

lemma accept_client_tasks:
  "accept_client c0 cis s = Inr s' \<Longrightarrow> sv_tasks s' = sv_tasks s \<and> sv_tnext s' = sv_tnext s \<and> sv_pool s' = sv_pool s"
proof (induction cis arbitrary: s)
  case (Cons ci cis)
  have e: "sv_tasks s2 = sv_tasks s1 \<and> sv_tnext s2 = sv_tnext s1 \<and> sv_pool s2 = sv_pool s1"
    if "enrol_client ci c s1 = Inr s2" for c s1 s2
    using that by (auto simp: enrol_client_def close_client_def Let_def rbind_eq_Inr split: if_splits)
  define conn where "conn = s_accept c0 (ci_fd ci, ci_addr ci)"
  note step = Cons.prems [simplified Let_def accept_client.simps, folded conn_def]
  show ?case
  proof (cases "cl_fd conn = -1 \<or> cl_err conn \<noteq> 0")
    case True
    then show ?thesis using step Cons.IH [of "close_client conn s"] by (auto simp: close_client_def split: if_splits)
  next
    case False
    then obtain c t s2 where "enrol_client ci c (s\<lparr>sv_conns := t\<rparr>) = Inr s2" "accept_client c0 cis s2 = Inr s'"
      using step by (auto simp: rbind_eq_Inr)
    then show ?thesis using Cons.IH e by fastforce
  qed
qed simp

lemma handle_event_tasks:
  assumes "server_ok s" and "reported e s" and "handle_event c0 e s = Some (Inr s')"
  shows "(sv_tnext s' = sv_tnext s \<and> sv_pool s' = sv_pool s
        \<or> sv_tnext s' = Suc (sv_tnext s) \<and> sv_pool s' = (if ti_pushed (ke_task e) then sv_pool s @ [sv_tnext s] else sv_pool s))
     \<and> (\<forall>i \<in> set (sv_pool s). sv_tasks s' i = sv_tasks s i)"
proof (cases "ke_filter e")
  case EVFILT_READ
  consider "ke_eof e" | "\<not> ke_eof e" "ke_ident e = ln_fd (sv_ln s)"
    | "\<not> ke_eof e" "ke_ident e \<noteq> ln_fd (sv_ln s)" by blast
  then show ?thesis
  proof cases
    case 1
    then have "remove_client s (ke_ident e) = Some (Inr s')" using assms(3) EVFILT_READ by (simp add: handle_event_def)
    then show ?thesis using remove_client_tasks [OF assms(1)] by simp
  next
    case 2
    then have "accept_client c0 (ke_conns e) s = Inr s'" using assms(3) EVFILT_READ by (simp add: handle_event_def)
    from accept_client_tasks [OF this] show ?thesis by simp
  next
    case 3
    then obtain c where "read_from_client (ke_recvs e) (ke_task e) c s = Some (Inr s')"
      using assms(3) EVFILT_READ by (auto simp: handle_event_def split: udata.splits sum.splits)
    then show ?thesis
    proof (cases rule: read_from_client_cases)
      case (gone h)
      then show ?thesis using remove_client_tasks [OF _ gone] assms(1) by simp
    next
      case (task tn h)
      have "sv_tnext s \<notin> set (sv_pool s)" using assms(1) by (auto simp: server_inv_def tasks_ok_def)
      then show ?thesis by (auto simp: task)
    qed simp
  qed
next
  case EVFILT_WRITE
  let ?s = "s\<lparr>sv_kq := ev_delete (ke_ident e) EVFILT_WRITE (sv_kq s)\<rparr>"
  from EVFILT_WRITE obtain i where i: "(ke_ident e, EVFILT_WRITE, TaskData i) \<in> set (sv_kq s)"
    "write_to_client (ke_sends e) i ?s = Some (Inr s')"
    using assms(2,3) by (auto simp: handle_event_def reported_def split: udata.splits)
  have "reg_ok s (ke_ident e, EVFILT_WRITE, TaskData i)" using assms(1) i(1) by (auto simp: server_inv_def)
  then obtain tn where tn: "sv_tasks s i = Some tn" "i \<notin> set (sv_pool s)" by (auto simp: reg_inv_def task_for_def)
  have r: "sv_tasks s2 = sv_tasks s \<and> sv_tnext s2 = sv_tnext s \<and> sv_pool s2 = sv_pool s"
    if "remove_client (?s\<lparr>sv_out := f\<rparr>) fd = Some (Inr s2)" for f fd s2
  proof -
    have ok: "server_ok (?s\<lparr>sv_out := f\<rparr>)" using server_ok_delete [OF assms(1)] by (simp only: server_inv_frame)
    show ?thesis using remove_client_tasks [OF ok that] by simp
  qed
  show ?thesis using i(2) tn
    by (auto simp: write_to_client_def Let_def rbind_eq_Inr dest!: r split: sum.splits prod.splits send_end.splits)
next
  case EVFILT_TIMER
  then show ?thesis using assms(3) by (simp add: handle_event_def)
qed

section \<open>Properties\<close>

text \<open>C10: Connections do not disturb each other: in every reachable state, handling an event of one descriptor
  (also a batch of new connections) leaves every other open connection as it was: it stays open, it is sent
  nothing, its client record and its registrations do not change, and its tasks are kept.\<close>

theorem connections_isolated:
  assumes "reach E s" and "reported e s" and "answers_ok c0 (ke_conns e) s"
    and "handle_event c0 e s = Some (Inr s')" and "fd \<in> set (sv_conns s)" and "fd \<noteq> ke_ident e"
  shows "fd \<in> set (sv_conns s') \<and> sv_out s' fd = sv_out s fd
     \<and> (\<exists>p c. list_look fd (sv_clients s) = Some (Inr (Some p)) \<and> list_client (Some p) (sv_clients s) = Inr c
          \<and> list_look fd (sv_clients s') = Some (Inr (Some p)) \<and> list_client (Some p) (sv_clients s') = Inr c)
     \<and> (\<forall>i tn. sv_tasks s i = Some tn \<longrightarrow> cl_fd (t_client tn) = fd \<longrightarrow> sv_tasks s' i = Some tn)
     \<and> (\<forall>f u. (fd, f, u) \<in> set (sv_kq s') \<longleftrightarrow> (fd, f, u) \<in> set (sv_kq s))"
proof -
  note ok = reach_ok [OF assms(1)]
  have v: "same_view fd s s'" by (rule handle_event_view [OF ok assms(2-6)])
  obtain p c where "list_look fd (sv_clients s) = Some (Inr (Some p))" "list_client (Some p) (sv_clients s) = Inr c" "cl_fd c = fd"
    by (rule remove_client_present [OF ok assms(5)]) blast
  then show ?thesis using v assms(5) by (auto simp: same_view_def)
qed

text \<open>A second client connects while the first is connected.\<close>

definition accept6 :: "unit kevent_t" where
  "accept6 = (event0 8 EVFILT_READ NoData)\<lparr>ke_conns := [conn5\<lparr>ci_fd := 6\<rparr>]\<rparr>"

lemma accept6_event: "\<exists>s'. handle_event (client_n 0) accept6 server5 = Some (Inr s') \<and> 6 \<in> set (sv_conns s')"
  by (simp add: handle_event_def accept6_def event0_def server0_def server5_def listener0_def s_accept_def
      conn5_def client_n_def addr0_def arr_write_def arr_put_def overwrite_def INET_ADDRSTRLEN_def
      enrol_client_def list_add_def insert_client_def set_next_def node_at_def nheap0_def Let_def numeral_eq_Suc)

theorem connections_isolated_witness:
  "\<exists>s' p c. handle_event (client_n 0) accept6 server5 = Some (Inr s') \<and> {5, 6} \<subseteq> set (sv_conns s')
     \<and> list_look 5 (sv_clients s') = Some (Inr (Some p)) \<and> list_client (Some p) (sv_clients s') = Inr c"
proof -
  obtain s' where s: "handle_event (client_n 0) accept6 server5 = Some (Inr s')" "6 \<in> set (sv_conns s')"
    using accept6_event by blast
  have r: "reported accept6 server5" by (simp add: reported_def accept6_def event0_def server5_def server0_def listener0_def)
  have "ke_conns accept6 = [conn5\<lparr>ci_fd := 6\<rparr>]" by (simp add: accept6_def)
  moreover have "answer_ok (conn5\<lparr>ci_fd := 6\<rparr>) server5" by (simp add: answer_in_def conn5_def server5_def server0_def listener0_def)
  ultimately have a: "answers_ok (client_n 0) (ke_conns accept6) server5" by (simp split: sum.split del: accept_client.simps)
  have f: "5 \<in> set (sv_conns server5)" "5 \<noteq> ke_ident accept6" by (simp_all add: server5_def accept6_def event0_def)
  from connections_isolated [OF reach_server5 [of False "{}"] r a s(1) f] s show ?thesis by blast
qed

end
