(* ===== verification/Races.thy ===== *)
theory Races
  imports Isolation
begin

text \<open>
  Orders of steps that the code does not expect: a connection that is closed, and whose descriptor is
  given to somebody else, while its request is still in the pool; a second request on a connection
  whose first response is waiting; and a pool that refuses a task.
\<close>

lemma rbind_Inr_right: "rbind x Inr = x"
  by (cases x) simp_all

lemma accept_nil: "accept_client c0 [] = Inr"
  by (simp add: fun_eq_iff)

lemma reach_event:
  "reach_in x E s \<Longrightarrow> reported e s \<Longrightarrow> answers_in x c0 (ke_conns e) s \<Longrightarrow> handle_event c0 e s = Some (Inr s') \<Longrightarrow> reach_in x E s'"
  by (blast intro: reach_in.step step_in.event)

lemma reach_worker:
  "reach_in x E s \<Longrightarrow> i \<in> set (sv_pool s) \<Longrightarrow> W \<in> E \<Longrightarrow> kernel_ok W i s \<Longrightarrow> handle_conn W i (take_task i s) = Inr s' \<Longrightarrow> reach_in x E s'"
  by (blast intro: reach_in.step step_in.worker)

text \<open>One round of the accepting loop, up to the registration.\<close>

lemma accept_one:
  assumes "0 \<le> ci_fd ci" and "length (ci_host ci) \<le> 15" and "length (a_host (c_addr c0)) = HOST_SIZE"
  shows "\<exists>c. accept_client c0 [ci] s = enrol_client ci c (s\<lparr>sv_conns := ci_fd ci # sv_conns s\<rparr>)
     \<and> cl_fd c = ci_fd ci \<and> cl_addr c = ci_addr ci"
proof -
  let ?h = "overwrite (a_host (c_addr c0)) 0 (ci_host ci @ [NUL])"
  have "length ?h = 24" using assms(2,3) by (simp add: overwrite_def HOST_SIZE_def)
  then show ?thesis
    using assms
    by (intro exI [of _ "c0\<lparr>cl_err := 0, cl_fd := ci_fd ci, cl_addr := ci_addr ci,
        c_addr := \<lparr>a_port = uint (ntohs (sin_port (ci_addr ci))), a_host = ?h[INET_ADDRSTRLEN := NUL]\<rparr>\<rparr>"])
      (simp add: accept_nil s_accept_def Let_def arr_write_def arr_put_def HOST_SIZE_def INET_ADDRSTRLEN_def rbind_Inr_right)
qed

text \<open>A connection that is accepted and registered.\<close>

lemma accept_enrolled:
  assumes ok: "server_inv True s" and "ci_fd ci \<notin> set (sv_conns s)" and "0 \<le> ci_fd ci" and "length (ci_host ci) \<le> 15"
    and "length (a_host (c_addr c0)) = HOST_SIZE" and "ci_nonblock ci \<noteq> -1" and "0 \<le> ci_kevent ci" and "list_room (sv_clients s)"
  obtains c p cl where "accept_client c0 [ci] s = Inr (s\<lparr>sv_conns := ci_fd ci # sv_conns s, sv_clients := cl,
       sv_kq := ev_add (ci_fd ci) EVFILT_READ (NodeData (Some p)) (sv_kq s)\<rparr>)"
    "list_look (ci_fd ci) cl = Some (Inr (Some p))" "list_client (Some p) cl = Inr c" "cl_addr c = ci_addr ci"
proof -
  have t: "tracks True holds (sv_clients s) (sv_conns s)" using ok by (simp add: server_inv_def)
  obtain c where c: "accept_client c0 [ci] s = enrol_client ci c (s\<lparr>sv_conns := ci_fd ci # sv_conns s\<rparr>)"
    "cl_fd c = ci_fd ci" "cl_addr c = ci_addr ci"
    using accept_one [OF assms(3-5)] by blast
  have n: "cl_fd c \<notin> set (sv_conns s)" using c(2) assms(2) by simp
  obtain p cl where a: "list_add c (sv_clients s) = Inr (Some p, cl)" "list_client (Some p) cl = Inr c"
    using clients.add_tracks [OF t assms(8) n] by auto
  obtain cs where cs: "holds (sv_clients s) cs" using t by (auto simp: tracks_def)
  have "list_look (ci_fd ci) (sv_clients s) = Some (Inr None)"
    using clients.gone_tracks [OF t assms(2)] by simp
  from nodes.look_add [OF cs a(1) this] have "list_look (ci_fd ci) cl = Some (Inr (Some p))" using c(2) by simp
  moreover have "accept_client c0 [ci] s = Inr (s\<lparr>sv_conns := ci_fd ci # sv_conns s, sv_clients := cl,
       sv_kq := ev_add (ci_fd ci) EVFILT_READ (NodeData (Some p)) (sv_kq s)\<rparr>)"
    using assms(6,7) c(1,2) a(1) by (simp add: enrol_client_def)
  ultimately show thesis using that a(2) c(3) by blast
qed

text \<open>Removing a client uses no memory.\<close>

lemma set_link_room:
  "set_next p q h = Inr h' \<Longrightarrow> nfail h' = nfail h \<and> nnext h' = nnext h"
  "set_prev p q h = Inr h' \<Longrightarrow> nfail h' = nfail h \<and> nnext h' = nnext h"
  "free_node p h = Inr h' \<Longrightarrow> nfail h' = nfail h \<and> nnext h' = nnext h"
  by (auto simp: set_next_def set_prev_def free_node_def rbind_eq_Inr split: option.splits if_splits)

lemma list_del_alloc:
  assumes "list_del p cl = Inr (n, cl')"
  shows "nfail (snd cl') = nfail (snd cl) \<and> nnext (snd cl') = nnext (snd cl)"
proof -
  have "nfail h' = nfail h \<and> nnext h' = nnext h" if "unlink_node list node h = Inr (n, list', h')" for list node h list' h'
    using that by (fastforce simp: unlink_node_def rbind_eq_Inr dest: set_link_room split: if_splits)
  then show ?thesis
    using assms by (cases cl'; cases cl) (fastforce simp: list_del_def remove_client_node_def split: if_splits)
qed

lemma list_del_room: "list_del p cl = Inr (n, cl') \<Longrightarrow> list_room cl' = list_room cl"
  using list_del_alloc by (simp add: list_room_def)

lemma remove_client_room:
  assumes "remove_client s fd = Some (Inr s')"
  shows "list_room (sv_clients s') = list_room (sv_clients s)"
proof -
  have "sv_clients s' = sv_clients s \<or> (\<exists>p n. list_del p (sv_clients s) = Inr (n, sv_clients s'))"
    using assms by (auto simp: remove_client_def rbind_eq_Inr close_client_def Let_def split: if_splits)
  then show ?thesis using list_del_room by metis
qed

text \<open>A refusal changes nothing but the queue.\<close>

lemma read_from_client_refused:
  assumes ok: "server_ok s" and r: "read_from_client rs (ti\<lparr>ti_pushed := True\<rparr>) c s = Some (Inr s')" and n: "sv_tnext s' = Suc (sv_tnext s)"
  shows "read_from_client rs (ti\<lparr>ti_pushed := False\<rparr>) c s = Some (Inr (s'\<lparr>sv_pool := sv_pool s\<rparr>))"
proof -
  obtain e h where e: "rbind (new_string (Some []) (sv_heap s)) (\<lambda>(BUF, h). recv_loop rs BUF h) = Inr (e, h)"
    using r by (auto simp: read_from_client_def split: sum.splits)
  note d = read_from_client_def [unfolded Let_def]
  show ?thesis
  proof (cases e)
    case (Got BUF)
    note r1 = r [unfolded d e Got, simplified]
    have 1: "ti_tnode ti" by (rule ccontr) (use r1 n in \<open>auto simp: rbind_eq_Inr\<close>)
    obtain b h1 where 2: "copy_string BUF h = Inr (b, h1)" using r1 1 by (cases "copy_string BUF h") auto
    have "sdata b \<noteq> None" by (rule notI) (use r1 n 1 2 in \<open>auto simp: rbind_eq_Inr\<close>)
    then obtain x where 3: "sdata b = Some x" by blast
    have 4: "ti_req ti" "ti_resp ti" by (rule ccontr, use r1 n 1 2 3 in \<open>auto simp: rbind_eq_Inr\<close>)+
    have "read_from_client rs (ti\<lparr>ti_pushed := False\<rparr>) c s
        = Some (rbind (free_string BUF h1) (\<lambda>h2. Inr (s\<lparr>sv_tasks := (sv_tasks s)(sv_tnext s \<mapsto> \<lparr>t_client = c, t_buffer = b,
            t_req = ti_req0 ti, t_resp = ti_resp0 ti\<rparr>), sv_tnext := Suc (sv_tnext s), sv_heap := h2\<rparr>)))"
      unfolding d e Got using 1 2 3 4 by simp
    with r1 1 2 3 4 show ?thesis by (auto simp: rbind_eq_Inr)
  next
    case Gone
    have h: "server_ok (s\<lparr>sv_heap := h\<rparr>)" using ok by simp
    have "remove_client (s\<lparr>sv_heap := h\<rparr>) (cl_fd c) = Some (Inr s')" using r e Gone by (simp add: d)
    from remove_client_tasks(2) [OF h this] n show ?thesis by simp
  next
    case Lost
    then show ?thesis using r e n by (auto simp: d)
  qed
qed

lemma handle_event_refused:
  assumes "server_ok s" and "\<not> ti_pushed (ke_task e)" and "ke_filter e = EVFILT_READ" and "\<not> ke_eof e" and "ke_ident e \<noteq> ln_fd (sv_ln s)"
    and "handle_event c0 (e\<lparr>ke_task := (ke_task e)\<lparr>ti_pushed := True\<rparr>\<rparr>) s = Some (Inr s')" and "sv_tnext s' = Suc (sv_tnext s)"
  shows "handle_event c0 e s = Some (Inr (s'\<lparr>sv_pool := sv_pool s\<rparr>))"
proof -
  have t: "(ke_task e)\<lparr>ti_pushed := False\<rparr> = ke_task e" using assms(2) by simp
  obtain p c where c: "ke_udata e = NodeData p" "list_client p (sv_clients s) = Inr c"
    "read_from_client (ke_recvs e) ((ke_task e)\<lparr>ti_pushed := True\<rparr>) c s = Some (Inr s')"
    using assms(3-6) by (auto simp: handle_event_def split: udata.splits sum.splits)
  from read_from_client_refused [OF assms(1) c(3) assms(7)] show ?thesis
    using c(1,2) assms(3-5) unfolding t by (simp add: handle_event_def)
qed

text \<open>A client leaves and the next one gets its descriptor; tasks, memory and bytes sent stay as they were.\<close>

lemma descriptor_reused:
  assumes "calm_reach E s" and "reported e1 s" and "ke_ident e1 = fd" and "ke_filter e1 = EVFILT_READ" and "ke_eof e1" and "ke_conns e1 = []"
    and "handle_event c0 e1 s = Some (Inr s1)"
    and "ke_ident e2 = ln_fd (sv_ln s)" and "ke_filter e2 = EVFILT_READ" and "ke_udata e2 = NoData" and "\<not> ke_eof e2"
    and "ke_conns e2 = [ci]" and "ci_fd ci = fd" and "0 \<le> fd" and "fd \<noteq> ln_fd (sv_ln s)" and "ci_nonblock ci \<noteq> -1"
    and "0 \<le> ci_kevent ci" and "length (ci_host ci) \<le> 15" and "length (a_host (c_addr c0)) = HOST_SIZE" and "list_room (sv_clients s)"
  obtains s2 p c where "handle_event c0 e2 s1 = Some (Inr s2)" "calm_reach E s2" "fd \<in> set (sv_conns s2)"
    "list_look fd (sv_clients s2) = Some (Inr (Some p))" "list_client (Some p) (sv_clients s2) = Inr c" "cl_addr c = ci_addr ci"
    "sv_tasks s2 = sv_tasks s" "sv_pool s2 = sv_pool s" "sv_heap s2 = sv_heap s" "sv_route s2 = sv_route s"
    "sv_files s2 = sv_files s" "sv_out s2 = sv_out s"
proof -
  note ok = reach_ok [OF assms(1)]
  have rm: "remove_client s fd = Some (Inr s1)" using assms(3-5,7) by (simp add: handle_event_def)
  have "(fd, EVFILT_READ, ke_udata e1) \<in> set (sv_kq s)" using assms(2-4,15) by (auto simp: reported_def)
  then have fd: "fd \<in> set (sv_conns s)" using ok by (auto simp: server_inv_def reg_inv_def)
  obtain cl1 where s1: "s1 = s\<lparr>sv_kq := filter (\<lambda>(fd', _). fd' \<noteq> fd) (sv_kq s), sv_conns := close_fd fd (sv_conns s), sv_clients := cl1\<rparr>"
    by (rule remove_client_present [OF ok fd]) (use rm in auto)
  have r1: "calm_reach E s1" by (rule reach_event [OF assms(1,2) _ assms(7)]) (simp add: assms(6))
  have n: "ci_fd ci \<notin> set (sv_conns s1)" using assms(13) by (simp add: s1 close_fd_def)
  have ci: "0 \<le> ci_fd ci" using assms(13,14) by simp
  obtain c p cl where acc: "accept_client c0 [ci] s1 = Inr (s1\<lparr>sv_conns := ci_fd ci # sv_conns s1, sv_clients := cl,
       sv_kq := ev_add (ci_fd ci) EVFILT_READ (NodeData (Some p)) (sv_kq s1)\<rparr>)"
    and c: "list_look (ci_fd ci) cl = Some (Inr (Some p))" "list_client (Some p) cl = Inr c" "cl_addr c = ci_addr ci"
    by (rule accept_enrolled [OF reach_ok [OF r1] n ci assms(18,19,16,17)]) (use remove_client_room [OF rm] assms(20) in blast)
  let ?s2 = "s1\<lparr>sv_conns := ci_fd ci # sv_conns s1, sv_clients := cl,
       sv_kq := ev_add (ci_fd ci) EVFILT_READ (NodeData (Some p)) (sv_kq s1)\<rparr>"
  have e2: "handle_event c0 e2 s1 = Some (Inr ?s2)" using assms(8,9,11,12) acc by (simp add: handle_event_def s1)
  have "answer_in True ci s1" using n ci assms(13,15,17) by (simp add: answer_in_def s1)
  then have "answers_in True c0 (ke_conns e2) s1" using assms(12) acc by (simp del: accept_client.simps)
  moreover have "reported e2 s1" using assms(8-10) by (simp add: reported_def s1)
  ultimately have "calm_reach E ?s2" using reach_event [OF r1] e2 by blast
  then show thesis using that [OF e2, of p c] c assms(13) by (simp add: s1)
qed

section \<open>Properties\<close>

text \<open>C17: A response can reach the wrong client: a task remembers the number of its connection's descriptor only.
  When the client closes the connection while its request is in the pool, and the next client that is
  accepted is given the same descriptor, the worker registers the response for the new connection, and it is
  sent there, in full.  Every step is a reachable one.\<close>

theorem misdirected_response:
  assumes "calm_reach E s" and "W \<in> E" and "i \<in> set (sv_pool s)" and "sv_tasks s i = Some tn" and "cl_fd (t_client tn) = fd"
    and "str_is (sv_heap s) (t_buffer tn) q" and "ready (sv_heap s)" and "asks (we_llhttp W) q m u d"
    and "responds W (sv_route s) (sv_files s) m u (path_part d) code hs b" and "0 \<le> we_kevent W"
    and "reported e1 s" and "ke_ident e1 = fd" and "ke_filter e1 = EVFILT_READ" and "ke_eof e1" and "ke_conns e1 = []"
    and "handle_event c0 e1 s = Some (Inr s1)"
    and "ke_ident e2 = ln_fd (sv_ln s)" and "ke_filter e2 = EVFILT_READ" and "ke_udata e2 = NoData" and "\<not> ke_eof e2"
    and "ke_conns e2 = [ci]" and "ci_fd ci = fd" and "0 \<le> fd" and "fd \<noteq> ln_fd (sv_ln s)" and "ci_nonblock ci \<noteq> -1"
    and "0 \<le> ci_kevent ci" and "length (ci_host ci) \<le> 15" and "length (a_host (c_addr c0)) = HOST_SIZE" and "list_room (sv_clients s)"
    and "response_event e3 fd i (wire code hs b)" and "ke_conns e3 = []"
  shows "\<exists>s2 s3 s4 p c. handle_event c0 e2 s1 = Some (Inr s2) \<and> sv_out s2 fd = sv_out s fd
     \<and> list_look fd (sv_clients s2) = Some (Inr (Some p)) \<and> list_client (Some p) (sv_clients s2) = Inr c \<and> cl_addr c = ci_addr ci
     \<and> handle_conn W i (take_task i s2) = Inr s3 \<and> handle_event c0 e3 s3 = Some (Inr s4)
     \<and> sv_out s4 fd = sv_out s2 fd @ wire code hs b \<and> calm_reach E s4"
proof -
  obtain s2 p c where e2: "handle_event c0 e2 s1 = Some (Inr s2)" "calm_reach E s2" "fd \<in> set (sv_conns s2)"
    and c: "list_look fd (sv_clients s2) = Some (Inr (Some p))" "list_client (Some p) (sv_clients s2) = Inr c" "cl_addr c = ci_addr ci"
    and f: "sv_tasks s2 = sv_tasks s" "sv_pool s2 = sv_pool s" "sv_heap s2 = sv_heap s" "sv_route s2 = sv_route s"
      "sv_files s2 = sv_files s" "sv_out s2 = sv_out s"
    by (rule descriptor_reused [OF assms(1,11-29)])
  let ?t = "take_task i s2"
  have t: "sv_tasks ?t i = Some tn" "sv_heap ?t = sv_heap s" "sv_route ?t = sv_route s" "sv_files ?t = sv_files s" "sv_out ?t = sv_out s"
    using assms(4) f by (simp_all add: take_task_def)
  obtain s3 where 3: "handle_conn W i ?t = Inr s3" "answered i (wire code hs b) ?t s3"
    using handle_conn_answered [OF assms(8) t(1), of code hs b] assms(6,7,9,10) unfolding t(2-4) responds_def by blast
  have "kernel_ok W i s2" "i \<in> set (sv_pool s2)" using assms(3-5) e2(3) f(1,2) by (simp_all add: kernel_ok_def)
  then have r3: "calm_reach E s3" using reach_worker [OF e2(2) _ assms(2) _ 3(1)] by blast
  obtain tn' where tn': "t_client tn' = t_client tn" "t_buffer tn' = t_buffer tn"
    "str_is (sv_heap s3) (complete_resp (t_resp tn')) (wire code hs b)" "kept (sv_heap ?t) (sv_heap s3)"
    "s3 = ?t\<lparr>sv_heap := sv_heap s3, sv_files := sv_files s3, sv_tasks := (sv_tasks ?t)(i \<mapsto> tn'),
           sv_kq := ev_add fd EVFILT_WRITE (TaskData i) (sv_kq ?t)\<rparr>"
    using 3(2) t(1) assms(5) by (auto simp: answered_def)
  obtain H F where H: "sv_heap s3 = H" "sv_files s3 = F" by blast
  have f3: "sv_tasks s3 i = Some tn'" "(fd, EVFILT_WRITE, TaskData i) \<in> set (sv_kq s3)" "sv_out s3 = sv_out s"
    using tn'(5) t(5) unfolding H by (simp_all add: set_ev_add)
  have buf: "str_is (sv_heap s3) (t_buffer tn') q" using kept_str [OF _ tn'(4)] assms(6) tn'(2) t(2) by simp
  then obtain z where z: "sdata (t_buffer tn') = Some z" by (auto elim: str_isE)
  from response_written [OF server_inv_weaken [OF reach_ok [OF r3]] f3(2) assms(30) f3(1) tn'(3) buf z, of c0] obtain s4 where
    4: "handle_event c0 e3 s3 = Some (Inr s4)" "sv_out s4 = (sv_out s3)(fd := sv_out s3 fd @ wire code hs b)" by blast
  have "reported e3 s3" using assms(30) f3(2) by (simp add: reported_def response_event_def)
  then have r4: "calm_reach E s4" by (rule reach_event [OF r3 _ _ 4(1)]) (simp add: assms(31))
  have "sv_out s2 fd = sv_out s fd" "sv_out s4 fd = sv_out s2 fd @ wire code hs b" using 4(2) f(6) f3(3) by simp_all
  then show ?thesis using e2(1) c 3(1) 4(1) r4 by blast
qed

text \<open>The first client's request is in the pool.\<close>

lemma pooled5:
  fixes E :: "((key \<times> nat route_handler_t) list, nat, unit) worker_env set"
  obtains s tn where "reach_in x E s" "sv_pool s = [0]" "sv_tasks s 0 = Some tn" "cl_fd (t_client tn) = 5" "ready (sv_heap s)"
    "str_is (sv_heap s) (t_buffer tn) ''GET''" "sv_kq s = sv_kq server5" "sv_ln s = listener0"
    "sv_clients s = sv_clients server5" "sv_out s 5 = []" "sv_tnext s = 1"
proof -
  note r = reach_server5 [of x E]
  have h: "ready (sv_heap server5)" using ready_heap0 by (simp add: server5_def server0_def)
  obtain s tn where
    s: "handle_event (client_n 0) read5 server5 = Some (Inr s)" "str_is (sv_heap s) (t_buffer tn) ''GET''"
      "cl_fd (t_client tn) = 5" "only_new (sv_heap server5) (sv_heap s) (t_buffer tn)"
    and e: "s = server5\<lparr>sv_tasks := (sv_tasks server5)(sv_tnext server5 \<mapsto> tn), sv_tnext := Suc (sv_tnext server5),
       sv_pool := sv_pool server5 @ [sv_tnext server5], sv_heap := sv_heap s\<rparr>"
    by (rule request_read [OF server_inv_weaken [OF reach_ok [OF r]] h read5_event]) blast
  have "reported read5 server5" "answers_in x (client_n 0) (ke_conns read5) server5"
    by (simp_all add: reported_def read5_def event0_def server5_def)
  then have "reach_in x E s" by (rule reach_event [OF r _ _ s(1)])
  moreover obtain H where H: "sv_heap s = H" by blast
  have "sv_pool s = [0]" "sv_tasks s 0 = Some tn" "sv_kq s = sv_kq server5" "sv_ln s = listener0"
    "sv_clients s = sv_clients server5" "sv_out s 5 = []" "sv_tnext s = 1"
    using e unfolding H by (simp_all add: server5_def server0_def)
  moreover have "ready (sv_heap s)" using s(4) by (simp add: only_new_def)
  ultimately show thesis using s(2,3) that by blast
qed

definition eof5 :: "unit kevent_t" where
  "eof5 = (event0 5 EVFILT_READ (NodeData (Some 0)))\<lparr>ke_eof := True\<rparr>"

text \<open>Another client connects and gets descriptor 5.\<close>

definition other5 :: conn_in where
  "other5 = conn5\<lparr>ci_addr := \<lparr>sin_port = 0, sin_addr = 2\<rparr>\<rparr>"

theorem misdirected_response_witness:
  "\<exists>s2 s3 s4 p c. sv_out s2 5 = [] \<and> list_client (Some p) (sv_clients s2) = Inr c \<and> cl_addr c = \<lparr>sin_port = 0, sin_addr = 2\<rparr>
     \<and> handle_conn (worker0 ''POST'' ''/'') 0 (take_task 0 s2) = Inr s3 \<and> handle_event (client_n 0) (write5 1000) s3 = Some (Inr s4)
     \<and> sv_out s4 5 = ''HTTP/1.1 0 Internal Server Error'' @ CRLF @ CRLF"
proof -
  let ?W = "worker0 ''POST'' ''/''" and ?t = "''HTTP/1.1 0 Internal Server Error'' @ CRLF @ CRLF"
  obtain s tn where s: "calm_reach {?W} s" "sv_pool s = [0]" "sv_tasks s 0 = Some tn" "cl_fd (t_client tn) = 5" "ready (sv_heap s)"
    "str_is (sv_heap s) (t_buffer tn) ''GET''" "sv_kq s = sv_kq server5" "sv_ln s = listener0"
    "sv_clients s = sv_clients server5" "sv_out s 5 = []"
    by (rule pooled5)
  have d: "pct_decode ''/'' = Some ''/''" "get_mothod_type ''POST'' \<noteq> GET" by code_simp+
  have a: "asks (we_llhttp ?W) ''GET'' ''POST'' ''/'' ''/''" by (rule asks_worker0 [OF d(1)]) (simp_all add: NUL_def)
  have k: "0 \<le> we_kevent ?W" by (simp add: worker0_def)
  have e1: "reported eof5 s" "ke_ident eof5 = 5" "ke_filter eof5 = EVFILT_READ" "ke_eof eof5" "ke_conns eof5 = []"
    using s(7) by (simp_all add: reported_def eof5_def event0_def server5_def)
  obtain s1 where s1: "handle_event (client_n 0) eof5 s = Some (Inr s1)"
    using remove_client_ok [OF reach_ok [OF s(1)], of 5] e1(2-4) by (auto simp: handle_event_def)
  let ?e2 = "accept5\<lparr>ke_conns := [other5]\<rparr>"
  have e2: "ke_ident ?e2 = ln_fd (sv_ln s)" "ke_filter ?e2 = EVFILT_READ" "ke_udata ?e2 = NoData" "\<not> ke_eof ?e2" "ke_conns ?e2 = [other5]"
    using s(8) by (simp_all add: accept5_def event0_def listener0_def)
  have o: "ci_fd other5 = 5" "ci_nonblock other5 \<noteq> -1" "0 \<le> ci_kevent other5" "length (ci_host other5) \<le> 15"
    "length (a_host (c_addr (client_n 0))) = HOST_SIZE" "list_room (sv_clients s)" "5 \<noteq> ln_fd (sv_ln s)"
    using s(8,9) by (simp_all add: other5_def conn5_def client_n_def addr0_def HOST_SIZE_def list_room_def server5_def nheap0_def listener0_def)
  have w: "response_event (write5 1000) 5 0 (wire 0 [] [])" "ke_conns (write5 1000) = []"
    unfolding wire_cleared by (rule write5_event, simp_all add: CRLF_def write5_def event0_def)
  from misdirected_response [OF s(1) _ _ s(3,4,6,5) a responds_other [OF d(2)] k e1 s1 e2 o(1) _ o(7,2-6) w] s(2,10)
  obtain s2 s3 s4 p c where "sv_out s2 5 = []" "list_client (Some p) (sv_clients s2) = Inr c" "cl_addr c = ci_addr other5"
    "handle_conn ?W 0 (take_task 0 s2) = Inr s3" "handle_event (client_n 0) (write5 1000) s3 = Some (Inr s4)" "sv_out s4 5 = sv_out s2 5 @ wire 0 [] []"
    by auto
  moreover have "ci_addr other5 = \<lparr>sin_port = 0, sin_addr = 2\<rparr>" by (simp add: other5_def)
  ultimately show ?thesis unfolding wire_cleared by (intro exI conjI) (assumption | simp)+
qed

text \<open>C18: A client that sends a second request before it has the answer to the first loses the first: when the
  worker registers the second response the kqueue replaces the first, since it holds one registration per
  descriptor and filter.  From then on, whatever the server does, no registration leads to the first task:
  it is never written, and its memory is never freed.\<close>

theorem pipelined_request_lost:
  assumes "reach E s" and "(fd, EVFILT_WRITE, TaskData i) \<in> set (sv_kq s)"
    and "j \<in> set (sv_pool s)" and "handle_conn W j (take_task j s) = Inr s1" and "kernel_ok W j s"
    and "(fd, EVFILT_WRITE, TaskData j) \<in> set (sv_kq s1)" and "(server_step E)\<^sup>*\<^sup>* s1 s2"
  shows "sv_tasks s2 i \<noteq> None \<and> i \<notin> set (sv_pool s2) \<and> (\<forall>fd f. (fd, f, TaskData i) \<notin> set (sv_kq s2))"
proof -
  note ok = reach_ok [OF assms(1)]
  have ok1: "server_ok s1" using handle_conn_ok [OF ok assms(3,5,4)] by simp
  have r: "reg_ok s (fd, EVFILT_WRITE, TaskData i)" using ok assms(2) by (auto simp: server_inv_def)
  then obtain tn where tn: "sv_tasks s i = Some tn" "cl_fd (t_client tn) = fd" "i \<notin> set (sv_pool s)"
    by (auto simp: reg_inv_def task_for_def)
  with assms(3) have n: "i \<noteq> j" by auto
  have f: "sv_tasks s1 i = sv_tasks s i \<and> sv_pool s1 = remove1 j (sv_pool s)"
    using assms(4) n by (auto simp: handle_conn_eq take_task_def rbind_eq_Inr Let_def split: option.splits if_split_asm)
  have "(fd', f', TaskData i) \<notin> set (sv_kq s1)" for fd' f'
  proof
    assume a: "(fd', f', TaskData i) \<in> set (sv_kq s1)"
    then have "reg_ok s1 (fd', f', TaskData i)" using ok1 by (auto simp: server_inv_def)
    then have "fd' = fd" "f' = EVFILT_WRITE" using f tn
      by (auto simp: reg_inv_def task_for_def node_for_def split: filter_t.splits)
    then have "(fd, EVFILT_WRITE, TaskData i) \<in> set (sv_kq s1)" using a by simp
    moreover have "inj_on reg_key (set (sv_kq s1))" using ok1 by (simp add: server_inv_def distinct_map)
    ultimately have "(fd, EVFILT_WRITE, TaskData i) = (fd, EVFILT_WRITE, TaskData j)"
      using assms(6) by (elim inj_onD) (simp_all add: reg_key_def)
    then show False using n by simp
  qed
  then have "orphan i s1" using f tn by (fastforce simp: orphan_def dest: notin_set_remove1)
  from steps_orphan [OF assms(7) ok1 this] show ?thesis by (fastforce simp: orphan_def)
qed

theorem pipelined_request_lost_witness:
  "\<exists>s s1. reach {worker0 ''POST'' ''/''} s \<and> (5, EVFILT_WRITE, TaskData 0) \<in> set (sv_kq s)
     \<and> handle_conn (worker0 ''POST'' ''/'') 1 (take_task 1 s) = Inr s1
     \<and> (\<forall>s2. (server_step {worker0 ''POST'' ''/''})\<^sup>*\<^sup>* s1 s2 \<longrightarrow> sv_tasks s2 0 \<noteq> None \<and> (\<forall>fd f. (fd, f, TaskData 0) \<notin> set (sv_kq s2)))"
proof -
  let ?W = "worker0 ''POST'' ''/''"
  obtain s tn where s: "reach {?W} s" "(5, EVFILT_READ, NodeData (Some 0)) \<in> set (sv_kq s)"
    "(5, EVFILT_WRITE, TaskData 0) \<in> set (sv_kq s)" "sv_ln s = listener0" "ready (sv_heap s)" "sv_tnext s = 1"
    by (rule waiting5) blast
  have d: "pct_decode ''/'' = Some ''/''" "get_mothod_type ''POST'' \<noteq> GET" by code_simp+
  have a: "asks (we_llhttp ?W) ''GET'' ''POST'' ''/'' ''/''" by (rule asks_worker0 [OF d(1)]) (simp_all add: NUL_def)
  have k: "0 \<le> we_kevent ?W" by (simp add: worker0_def)
  have e: "request_event read5 5 ''GET'' s"
    using read5_event s(2,4) by (simp add: request_event_def read5_def event0_def server5_def server0_def)
  obtain s1 s2 where
    1: "handle_event (client_n 0) read5 s = Some (Inr s1)" "sv_tnext s \<in> set (sv_pool s1)" "kernel_ok ?W (sv_tnext s) s1"
    "handle_conn ?W (sv_tnext s) (take_task (sv_tnext s) s1) = Inr s2"
    "sv_kq s2 = ev_add 5 EVFILT_WRITE (TaskData (sv_tnext s)) (sv_kq s)"
    by (rule request_answered [OF reach_ok [OF s(1)] s(5) e a k responds_other [OF d(2)]])
  have "reported read5 s" "answers_ok (client_n 0) (ke_conns read5) s"
    using s(2) by (simp_all add: reported_def read5_def event0_def)
  then have r1: "reach {?W} s1" by (rule reach_event [OF s(1) _ _ 1(1)])
  obtain tn H where "s1 = s\<lparr>sv_tasks := (sv_tasks s)(sv_tnext s \<mapsto> tn), sv_tnext := Suc (sv_tnext s),
       sv_pool := sv_pool s @ [sv_tnext s], sv_heap := H\<rparr>"
    by (rule request_read [OF reach_ok [OF s(1)] s(5) e, of "client_n 0"]) (use 1(1) in auto)
  then have "(5, EVFILT_WRITE, TaskData 0) \<in> set (sv_kq s1)" using s(3) by simp
  moreover have "(5, EVFILT_WRITE, TaskData 1) \<in> set (sv_kq s2)" unfolding 1(5) by (simp add: set_ev_add s(6))
  ultimately show ?thesis
    using pipelined_request_lost [OF r1 _ _ _ _, of 5 0 1 ?W s2] 1(2-4) r1 unfolding s(6) by blast
qed

text \<open>C26: A request that the pool refuses is lost in silence: the result of \<open>push_task\<close> is not looked at.  The
  client's bytes have been read and the task is set up, but it is not queued, nothing is registered or
  sent, and from then on, whatever the server does, nobody runs the task and its memory is never freed.\<close>

theorem refused_request_leaks:
  assumes "reach E s" and "ready (sv_heap s)" and "\<not> ti_pushed (ke_task e)"
    and "request_event (e\<lparr>ke_task := (ke_task e)\<lparr>ti_pushed := True\<rparr>\<rparr>) fd q s" and "answers_ok c0 (ke_conns e) s"
  shows "\<exists>s1 tn. handle_event c0 e s = Some (Inr s1) \<and> sv_tasks s1 (sv_tnext s) = Some tn \<and> str_is (sv_heap s1) (t_buffer tn) q
     \<and> cl_fd (t_client tn) = fd \<and> sv_pool s1 = sv_pool s \<and> sv_kq s1 = sv_kq s \<and> sv_out s1 = sv_out s
     \<and> (\<forall>s2. (server_step E)\<^sup>*\<^sup>* s1 s2 \<longrightarrow> sv_tasks s2 (sv_tnext s) \<noteq> None \<and> sv_tnext s \<notin> set (sv_pool s2)
           \<and> (\<forall>fd f. (fd, f, TaskData (sv_tnext s)) \<notin> set (sv_kq s2)))"
proof -
  let ?e = "e\<lparr>ke_task := (ke_task e)\<lparr>ti_pushed := True\<rparr>\<rparr>" and ?i = "sv_tnext s"
  note ok = reach_ok [OF assms(1)]
  obtain s' tn where s': "handle_event c0 ?e s = Some (Inr s')" "cl_fd (t_client tn) = fd" "str_is (sv_heap s') (t_buffer tn) q"
    and e: "s' = s\<lparr>sv_tasks := (sv_tasks s)(?i \<mapsto> tn), sv_tnext := Suc ?i, sv_pool := sv_pool s @ [?i], sv_heap := sv_heap s'\<rparr>"
    by (rule request_read [OF ok assms(2,4)]) blast
  obtain H where H: "sv_heap s' = H" by blast
  let ?s1 = "s'\<lparr>sv_pool := sv_pool s\<rparr>"
  have n: "sv_tnext s' = Suc ?i" using e unfolding H by simp
  have run: "handle_event c0 e s = Some (Inr ?s1)" 
    by (rule handle_event_refused [OF ok assms(3) _ _ _ s'(1) n]) (use assms(4) in \<open>simp_all add: request_event_def\<close>)
  have f: "sv_tasks ?s1 ?i = Some tn" "sv_pool ?s1 = sv_pool s" "sv_kq ?s1 = sv_kq s" "sv_out ?s1 = sv_out s" "sv_heap ?s1 = sv_heap s'"
    using e unfolding H by simp_all
  have "reported e s" using assms(4) by (auto simp: request_event_def reported_def)
  from handle_event_ok [OF ok this assms(5) run] have ok1: "server_ok ?s1" by blast
  have "sv_tasks s ?i = None" "?i \<notin> set (sv_pool s)" using ok by (auto simp: server_inv_def tasks_ok_def)
  moreover have "reg_ok s r" if "r \<in> set (sv_kq s)" for r using ok that by (simp add: server_inv_def)
  ultimately have "(fd, f, TaskData ?i) \<notin> set (sv_kq s)" "?i \<notin> set (sv_pool s)" for fd f
    by (fastforce simp: reg_inv_def node_for_def task_for_def split: filter_t.splits)+
  then have "orphan ?i ?s1" using f(1-3) by (fastforce simp: orphan_def)
  then have "orphan ?i s2" if "(server_step E)\<^sup>*\<^sup>* ?s1 s2" for s2 using steps_orphan [OF that ok1] by blast
  then have "sv_tasks s2 ?i \<noteq> None \<and> ?i \<notin> set (sv_pool s2) \<and> (\<forall>fd f. (fd, f, TaskData ?i) \<notin> set (sv_kq s2))"
    if "(server_step E)\<^sup>*\<^sup>* ?s1 s2" for s2
    using that by (fastforce simp: orphan_def)
  with run f s'(2,3) show ?thesis by (intro exI [of _ ?s1] exI [of _ tn]) simp
qed

text \<open>The pool refuses the request of \<open>read5\<close>.\<close>

definition refused5 :: "unit kevent_t" where
  "refused5 = read5\<lparr>ke_task := task_in0\<lparr>ti_pushed := False\<rparr>\<rparr>"

theorem refused_request_leaks_witness:
  "\<exists>s1. handle_event (client_n 0) refused5 server5 = Some (Inr s1) \<and> sv_pool s1 = []
     \<and> (\<forall>s2. (server_step {})\<^sup>*\<^sup>* s1 s2 \<longrightarrow> sv_tasks s2 0 \<noteq> None)"
proof -
  have h: "ready (sv_heap server5)" "sv_tnext server5 = 0" "sv_pool server5 = []"
    using ready_heap0 by (simp_all add: server5_def server0_def)
  have "refused5\<lparr>ke_task := (ke_task refused5)\<lparr>ti_pushed := True\<rparr>\<rparr> = read5"
    by (simp add: refused5_def read5_def event0_def task_in0_def)
  moreover have "\<not> ti_pushed (ke_task refused5)" "answers_ok (client_n 0) (ke_conns refused5) server5"
    by (simp_all add: refused5_def read5_def event0_def)
  ultimately show ?thesis
    using refused_request_leaks [OF reach_server5 [of False "{}"] h(1), of refused5 5 "''GET''" "client_n 0"] read5_event
    unfolding h(2,3) by auto
qed

end
