(* ===== verification/Queue.thy ===== *)
theory Queue
  imports Prelude
begin

text \<open>
  The task queue of \<^verbatim>\<open>src/ds/queue.c\<close> and \<^verbatim>\<open>queue.h\<close>: a circular array that doubles when it is
  full.  The record keeps the array and the four integers of the C struct; an element of the
  array is \<open>None\<close> while its memory is indeterminate.  The theory defines every operation of the
  file, the abstraction \<open>q_list\<close> to the list of waiting tasks, the invariant \<open>q_inv\<close>, and shows
  that \<open>push\<close> and \<open>pop\<close> implement a first-in first-out queue (the interface \<open>fifo\<close>).
\<close>

section \<open>Data\<close>

text \<open>\<open>task_node_t\<close>: a function pointer and its argument, both as addresses; \<open>None\<close> is NULL.\<close>

record task_node_t =
  tfunc :: "nat option"
  targs :: "nat option"

type_synonym cells = "task_node_t option list"

text \<open>The member \<open>q->q\<close>: not yet assigned, freed, or an allocation with its cells.\<close>

datatype qptr = Indet | Freed | Block cells

record queue_t =
  q_buf :: qptr
  cap :: nat
  len :: nat
  readAt :: nat
  insertAt :: nat

section \<open>Operations\<close>

text \<open>A pointer argument \<open>queue_t *q\<close> is a \<open>queue_t option\<close>, \<open>None\<close> being NULL.  The
  argument \<open>ok\<close> says whether the \<open>malloc\<close> the call may make succeeds.\<close>

definition init_queue :: "bool \<Rightarrow> queue_t option \<Rightarrow> int \<Rightarrow> bool \<times> queue_t option" where
  "init_queue ok qp c =
     (case qp of None \<Rightarrow> (False, None)
      | Some q \<Rightarrow>
          let c' = (if c \<le> 0 \<or> c > 1000000 then 1 else c);
              q' = q\<lparr>cap := nat c', len := 0, readAt := 0, insertAt := 0\<rparr>
          in if \<not> ok then (False, Some q')
             else (True, Some (q'\<lparr>q_buf := Block (replicate (nat c') None)\<rparr>)))"

definition is_full :: "queue_t option \<Rightarrow> bool" where
  "is_full qp = (case qp of None \<Rightarrow> False | Some q \<Rightarrow> len q = cap q)"

definition is_empty :: "queue_t option \<Rightarrow> bool" where
  "is_empty qp = (case qp of None \<Rightarrow> False | Some q \<Rightarrow> len q = 0)"

definition q_cells :: "queue_t \<Rightarrow> cells res" where
  "q_cells q = (case q_buf q of Indet \<Rightarrow> Inl Uninit | Freed \<Rightarrow> Inl UseAfterFree | Block cs \<Rightarrow> Inr cs)"

text \<open>The copy loop of \<open>resize\<close>: \<open>newQ[i] = q->q[(q->readAt + i) % q->cap]\<close> for \<open>i < len\<close>.\<close>

function copy_cells :: "queue_t \<Rightarrow> cells \<Rightarrow> nat \<Rightarrow> cells \<Rightarrow> cells res" where
  "copy_cells q old i newQ =
     (if i < len q
      then rbind (arr_get old ((readAt q + i) mod cap q)) (\<lambda>c.
           rbind (arr_put newQ i c) (\<lambda>newQ'. copy_cells q old (Suc i) newQ'))
      else Inr newQ)"
  by pat_completeness auto
termination
  by (relation "measure (\<lambda>(q, old, i, newQ). len q - i)") auto

declare copy_cells.simps [simp del]

definition resize :: "bool \<Rightarrow> queue_t option \<Rightarrow> (bool \<times> queue_t option) res" where
  "resize ok qp =
     (case qp of None \<Rightarrow> Inr (False, None)
      | Some q \<Rightarrow>
          if \<not> is_full (Some q) then Inr (False, Some q)
          else let newCap = 2 * cap q in
            if newCap \<ge> 10000000 then Inr (False, Some q)
            else if \<not> ok then Inr (False, Some q)
            else rbind (q_cells q) (\<lambda>old.
                 rbind (copy_cells q old 0 (replicate newCap None)) (\<lambda>newQ.
                 Inr (True, Some (q\<lparr>q_buf := Block newQ, cap := newCap,
                                    insertAt := len q, readAt := 0\<rparr>)))))"

text \<open>The tail of \<open>push\<close>, after the room has been made.\<close>

definition push_store :: "queue_t \<Rightarrow> task_node_t \<Rightarrow> (bool \<times> queue_t option) res" where
  "push_store q v =
     rbind (q_cells q) (\<lambda>cs.
     rbind (arr_put cs (insertAt q) (Some v)) (\<lambda>cs'.
     Inr (True, Some (q\<lparr>q_buf := Block cs', insertAt := (insertAt q + 1) mod cap q,
                        len := len q + 1\<rparr>))))"

definition push :: "bool \<Rightarrow> queue_t option \<Rightarrow> task_node_t \<Rightarrow> (bool \<times> queue_t option) res" where
  "push ok qp v =
     (case qp of None \<Rightarrow> Inr (False, None)
      | Some q \<Rightarrow>
          if is_full (Some q)
          then rbind (resize ok (Some q)) (\<lambda>(r, qp').
               if \<not> r then Inr (r, qp')
               else (case qp' of None \<Rightarrow> Inl NullDeref | Some q' \<Rightarrow> push_store q' v))
          else push_store q v)"

text \<open>\<open>pop\<close>; \<open>want\<close> says whether the caller passed a non-null \<open>val\<close>, in which case the popped
  task is returned.  Handing out a cell that was never written is a fault.\<close>

definition pop :: "queue_t option \<Rightarrow> bool \<Rightarrow> (bool \<times> task_node_t option \<times> queue_t option) res" where
  "pop qp want =
     (case qp of None \<Rightarrow> Inr (False, None, None)
      | Some q \<Rightarrow>
          if is_empty (Some q) then Inr (False, None, Some q)
          else rbind (if want
                      then rbind (q_cells q) (\<lambda>cs.
                           rbind (arr_get cs (readAt q)) (\<lambda>c.
                           case c of None \<Rightarrow> Inl Uninit | Some t \<Rightarrow> Inr (Some t)))
                      else Inr None) (\<lambda>v.
               Inr (True, v, Some (q\<lparr>readAt := (readAt q + 1) mod cap q, len := len q - 1\<rparr>))))"

text \<open>\<open>free_queue\<close>: releases the array; the pointer keeps its value, so a second call is a
  double free.  \<open>free(q->q)\<close> of a pointer that was never assigned uses an indeterminate value.\<close>

definition free_queue :: "queue_t option \<Rightarrow> queue_t option res" where
  "free_queue qp =
     (case qp of None \<Rightarrow> Inr None
      | Some q \<Rightarrow>
          (case q_buf q of
             Indet \<Rightarrow> Inl Uninit
           | Freed \<Rightarrow> Inl BadFree
           | Block cs \<Rightarrow> Inr (Some (q\<lparr>q_buf := Freed\<rparr>))))"

text \<open>\<open>free_queue_heap\<close> also frees the struct; \<open>None\<close> is the released struct.\<close>

definition free_queue_heap :: "queue_t option \<Rightarrow> queue_t option res" where
  "free_queue_heap qp = rbind (free_queue qp) (\<lambda>_. Inr None)"

section \<open>Abstraction and invariant\<close>

definition q_at :: "queue_t \<Rightarrow> cells \<Rightarrow> nat \<Rightarrow> task_node_t option" where
  "q_at q cs i = cs ! ((readAt q + i) mod cap q)"

definition q_list :: "queue_t \<Rightarrow> task_node_t list" where
  "q_list q = (case q_buf q of Block cs \<Rightarrow> map (\<lambda>i. the (q_at q cs i)) [0..<len q] | _ \<Rightarrow> [])"

definition q_inv :: "queue_t \<Rightarrow> bool" where
  "q_inv q = (case q_buf q of
       Block cs \<Rightarrow> length cs = cap q \<and> 0 < cap q \<and> cap q < 10000000 \<and> len q \<le> cap q
                  \<and> readAt q < cap q \<and> insertAt q = (readAt q + len q) mod cap q
                  \<and> (\<forall>i < len q. q_at q cs i \<noteq> None)
     | _ \<Rightarrow> False)"

text \<open>Two offsets below the capacity name different cells.\<close>

lemma ring_index_inj:
  fixes r :: nat
  assumes "i < c" and "j < c" and "(r + i) mod c = (r + j) mod c"
  shows "i = j"
proof -
  have *: "a = b" if "a \<le> b" "a < c" "b < c" "(r + a) mod c = (r + b) mod c" for a b :: nat
  proof -
    from that(4) have "c dvd (r + b) - (r + a)"
      by (metis mod_eq_dvd_iff_nat nat_add_left_cancel_le that(1))
    then have "c dvd b - a" by simp
    with that show ?thesis using nat_dvd_not_less [of "b - a" c] by fastforce
  qed
  show ?thesis using * [of i j] * [of j i] assms by (cases "i \<le> j") auto
qed

lemma ring_index_Suc: "((r + 1) mod c + i) mod c = (r + Suc i) mod (c::nat)"
  by (simp add: mod_add_left_eq [of "Suc r" c i, symmetric] del: mod_add_left_eq)
     (simp add: mod_simps)

lemma q_invE:
  assumes "q_inv q"
  obtains cs where "q_buf q = Block cs" "length cs = cap q" "0 < cap q" "cap q < 10000000"
    "len q \<le> cap q" "readAt q < cap q" "insertAt q = (readAt q + len q) mod cap q"
    "\<And>i. i < len q \<Longrightarrow> q_at q cs i \<noteq> None"
  using assms by (auto simp: q_inv_def split: qptr.splits)

lemma length_q_list: "q_inv q \<Longrightarrow> length (q_list q) = len q"
  by (erule q_invE) (simp add: q_list_def)

lemma q_list_empty: "q_inv q \<Longrightarrow> q_list q = [] \<longleftrightarrow> len q = 0"
  using length_q_list [of q] by auto

lemma is_empty_q_list: "q_inv q \<Longrightarrow> is_empty (Some q) \<longleftrightarrow> q_list q = []"
  by (simp add: is_empty_def q_list_empty)

section \<open>The operations against the abstraction\<close>

lemma init_queue_inv:
  "init_queue True (Some q) c = (True, Some q') \<Longrightarrow>
     q_inv q' \<and> q_list q' = [] \<and> cap q' = (if c \<le> 0 \<or> c > 1000000 then 1 else nat c)"
  by (auto simp: init_queue_def q_inv_def q_list_def Let_def split: if_splits)

lemma copy_cells_spec:
  assumes "length old = cap q" and "0 < cap q" and "len q \<le> length newQ" and "i \<le> len q"
  shows "\<exists>res. copy_cells q old i newQ = Inr res \<and> length res = length newQ
           \<and> (\<forall>j < length newQ. res ! j = (if i \<le> j \<and> j < len q then q_at q old j else newQ ! j))"
  using assms
proof (induction q old i newQ rule: copy_cells.induct)
  case (1 q old i newQ)
  show ?case
  proof (cases "i < len q")
    case False
    with 1 show ?thesis by (subst copy_cells.simps) auto
  next
    case True
    let ?k = "(readAt q + i) mod cap q"
    have k: "?k < length old" using 1 by simp
    have *: "copy_cells q old i newQ = copy_cells q old (Suc i) (newQ[i := old ! ?k])"
      using True k 1 by (subst copy_cells.simps) simp
    obtain res where res: "copy_cells q old (Suc i) (newQ[i := old ! ?k]) = Inr res"
      "length res = length newQ"
      "\<forall>j < length newQ. res ! j =
         (if Suc i \<le> j \<and> j < len q then q_at q old j else newQ[i := old ! ?k] ! j)"
      using "1.IH" [of "old ! ?k" "newQ[i := old ! ?k]"] True k 1(2-) by auto
    have "res ! j = (if i \<le> j \<and> j < len q then q_at q old j else newQ ! j)"
      if "j < length newQ" for j
      using res(3) that True by (cases "j = i") (simp_all add: q_at_def)
    with * res(1,2) show ?thesis by auto
  qed
qed

lemma push_store_spec:
  assumes inv: "q_inv q" and room: "len q < cap q"
  shows "\<exists>q'. push_store q v = Inr (True, Some q') \<and> q_inv q' \<and> q_list q' = q_list q @ [v]
           \<and> cap q' = cap q"
proof -
  from inv obtain cs where cs: "q_buf q = Block cs" "length cs = cap q" "0 < cap q"
    "cap q < 10000000" "readAt q < cap q" "insertAt q = (readAt q + len q) mod cap q"
    "\<And>i. i < len q \<Longrightarrow> q_at q cs i \<noteq> None"
    by (meson q_invE)
  let ?cs = "cs[insertAt q := Some v]"
  let ?q = "q\<lparr>q_buf := Block ?cs, insertAt := (insertAt q + 1) mod cap q, len := len q + 1\<rparr>"
  have ins: "insertAt q < length cs" using cs by simp
  have old: "q_at ?q ?cs i = q_at q cs i" if "i < len q" for i
  proof -
    have "insertAt q \<noteq> (readAt q + i) mod cap q"
      using ring_index_inj [of i "cap q" "len q" "readAt q"] that room cs by auto
    then show ?thesis by (simp add: q_at_def)
  qed
  have new: "q_at ?q ?cs (len q) = Some v"
    using ins by (simp add: q_at_def cs(6) [symmetric])
  have eq: "push_store q v = Inr (True, Some ?q)"
    using cs ins by (simp add: push_store_def q_cells_def)
  have "q_inv ?q"
    using cs room old new by (auto simp: q_inv_def less_Suc_eq mod_Suc_eq)
  moreover have "q_list ?q = q_list q @ [v]"
    using cs(1) old new by (simp add: q_list_def)
  ultimately show ?thesis using eq by auto
qed

lemma resize_spec:
  assumes inv: "q_inv q" and full: "len q = cap q" and cap: "2 * cap q < 10000000"
  shows "\<exists>q'. resize True (Some q) = Inr (True, Some q') \<and> q_inv q' \<and> q_list q' = q_list q
           \<and> cap q' = 2 * cap q \<and> len q' = len q"
proof -
  from inv obtain cs where cs: "q_buf q = Block cs" "length cs = cap q" "0 < cap q"
    "\<And>i. i < len q \<Longrightarrow> q_at q cs i \<noteq> None"
    by (meson q_invE)
  obtain res where res: "copy_cells q cs 0 (replicate (2 * cap q) None) = Inr res"
    "length res = 2 * cap q" "\<And>j. j < len q \<Longrightarrow> res ! j = q_at q cs j"
    using copy_cells_spec [of cs q "replicate (2 * cap q) None" 0] cs full by auto
  let ?q = "q\<lparr>q_buf := Block res, cap := 2 * cap q, insertAt := len q, readAt := 0\<rparr>"
  have at: "q_at ?q res j = q_at q cs j" if "j < len q" for j
    using res(3) [OF that] that full by (simp add: q_at_def)
  have "resize True (Some q) = Inr (True, Some ?q)"
    using cs full cap res(1) by (simp add: resize_def is_full_def q_cells_def Let_def)
  moreover have "q_inv ?q" using cs res at full cap by (auto simp: q_inv_def)
  moreover have "q_list ?q = q_list q" using cs(1) at by (simp add: q_list_def)
  ultimately show ?thesis by auto
qed

text \<open>The three outcomes of \<open>push\<close>.\<close>

definition push_accepts :: "bool \<Rightarrow> queue_t \<Rightarrow> bool" where
  "push_accepts ok q \<longleftrightarrow> len q < cap q \<or> (2 * cap q < 10000000 \<and> ok)"

lemma push_refused:
  "q_inv q \<Longrightarrow> \<not> push_accepts ok q \<Longrightarrow> push ok (Some q) v = Inr (False, Some q)"
  by (erule q_invE) (auto simp: push_def push_accepts_def is_full_def resize_def Let_def)

lemma push_accepted:
  assumes inv: "q_inv q" and acc: "push_accepts ok q"
  shows "\<exists>q'. push ok (Some q) v = Inr (True, Some q') \<and> q_inv q' \<and> q_list q' = q_list q @ [v]
           \<and> cap q' = (if len q = cap q then 2 * cap q else cap q)"
proof (cases "len q = cap q")
  case False
  then have "len q < cap q" using inv by (auto elim: q_invE)
  with push_store_spec [OF inv this, of v] False show ?thesis
    by (auto simp: push_def is_full_def)
next
  case True
  with acc have ok: "ok" "2 * cap q < 10000000" by (auto simp: push_accepts_def)
  obtain q1 where q1: "resize True (Some q) = Inr (True, Some q1)" "q_inv q1"
    "q_list q1 = q_list q" "cap q1 = 2 * cap q" "len q1 = len q"
    using resize_spec [OF inv True ok(2)] by blast
  have "len q1 < cap q1" using q1 True inv by (auto elim: q_invE)
  with push_store_spec [OF q1(2) this, of v] q1 True ok show ?thesis
    by (auto simp: push_def is_full_def)
qed

lemma pop_empty: "q_inv q \<Longrightarrow> q_list q = [] \<Longrightarrow> pop (Some q) want = Inr (False, None, Some q)"
  by (simp add: pop_def is_empty_q_list)

lemma pop_nonempty:
  assumes inv: "q_inv q" and ne: "q_list q \<noteq> []"
  shows "\<exists>q'. pop (Some q) want = Inr (True, (if want then Some (hd (q_list q)) else None), Some q')
           \<and> q_inv q' \<and> q_list q' = tl (q_list q) \<and> cap q' = cap q"
proof -
  from inv obtain cs where cs: "q_buf q = Block cs" "length cs = cap q" "0 < cap q"
    "cap q < 10000000" "len q \<le> cap q" "readAt q < cap q"
    "insertAt q = (readAt q + len q) mod cap q" "\<And>i. i < len q \<Longrightarrow> q_at q cs i \<noteq> None"
    by (erule q_invE)
  let ?q = "q\<lparr>readAt := (readAt q + 1) mod cap q, len := len q - 1\<rparr>"
  have pos: "0 < len q" using ne inv by (simp add: q_list_empty)
  then have up: "[0..<len q] = 0 # map Suc [0..<len q - 1]"
    by (metis One_nat_def Suc_diff_1 map_Suc_upt upt_conv_Cons)
  have at: "q_at ?q cs i = q_at q cs (Suc i)" for i
    using ring_index_Suc [of "readAt q" "cap q" i] by (simp add: q_at_def)
  obtain t where t: "cs ! readAt q = Some t"
    using cs(8) [OF pos] cs(6) by (auto simp: q_at_def)
  have lst: "q_list q = t # q_list ?q"
    using cs(1,6) t at by (simp add: q_list_def up q_at_def)
  have "insertAt ?q = (readAt ?q + len ?q) mod cap ?q"
    using cs(7) pos ring_index_Suc [of "readAt q" "cap q" "len q - 1"] by simp
  then have "q_inv ?q" using cs pos at by (auto simp: q_inv_def)
  moreover have "pop (Some q) want = Inr (True, (if want then Some t else None), Some ?q)"
    using cs pos t by (simp add: pop_def is_empty_def q_cells_def)
  ultimately show ?thesis using lst by auto
qed

section \<open>The first-in first-out interface\<close>

text \<open>What the clients of the queue rely on.  \<open>enq\<close> may refuse (a full queue that cannot grow),
  depending on its environment argument; \<open>deq\<close> yields nothing exactly on an empty queue.\<close>

locale fifo =
  fixes enq :: "'e \<Rightarrow> 'a \<Rightarrow> 'q \<Rightarrow> 'q option"
    and deq :: "'q \<Rightarrow> ('a \<times> 'q) option"
    and items :: "'q \<Rightarrow> 'a list"
    and valid :: "'q \<Rightarrow> bool"
  assumes enq_items: "valid q \<Longrightarrow> enq e x q = Some q' \<Longrightarrow> items q' = items q @ [x]"
    and enq_valid: "valid q \<Longrightarrow> enq e x q = Some q' \<Longrightarrow> valid q'"
    and deq_None: "valid q \<Longrightarrow> deq q = None \<longleftrightarrow> items q = []"
    and deq_items: "valid q \<Longrightarrow> deq q = Some (x, q') \<Longrightarrow> items q = x # items q'"
    and deq_valid: "valid q \<Longrightarrow> deq q = Some (x, q') \<Longrightarrow> valid q'"

text \<open>A run of interleaved operations: the tasks accepted, the tasks handed out, the final
  queue.\<close>

datatype ('e, 'a) qop = Enq 'e 'a | Deq

fun run_ops ::
  "('e \<Rightarrow> 'a \<Rightarrow> 'q \<Rightarrow> 'q option) \<Rightarrow> ('q \<Rightarrow> ('a \<times> 'q) option) \<Rightarrow> ('e, 'a) qop list \<Rightarrow> 'q
     \<Rightarrow> 'a list \<times> 'a list \<times> 'q" where
  "run_ops enq deq [] q = ([], [], q)"
| "run_ops enq deq (Enq e x # ops) q =
     (case enq e x q of None \<Rightarrow> run_ops enq deq ops q
      | Some q' \<Rightarrow> (let (acc, out, r) = run_ops enq deq ops q' in (x # acc, out, r)))"
| "run_ops enq deq (Deq # ops) q =
     (case deq q of None \<Rightarrow> run_ops enq deq ops q
      | Some (x, q') \<Rightarrow> (let (acc, out, r) = run_ops enq deq ops q' in (acc, x # out, r)))"

context fifo begin

lemma run_valid_items:
  "valid q \<Longrightarrow> run_ops enq deq ops q = (acc, out, r)
     \<Longrightarrow> valid r \<and> items q @ acc = out @ items r"
proof (induction ops arbitrary: q acc out r)
  case Nil
  then show ?case by simp
next
  case (Cons op ops)
  show ?case
  proof (cases op)
    case (Enq e x)
    show ?thesis
    proof (cases "enq e x q")
      case None
      with Cons Enq show ?thesis by simp
    next
      case (Some q')
      with Cons.prems Enq obtain acc' where
        acc: "run_ops enq deq ops q' = (acc', out, r)" "acc = x # acc'"
        by (auto split: prod.splits)
      have "valid r \<and> items q' @ acc' = out @ items r"
        by (rule Cons.IH [OF enq_valid [OF Cons.prems(1) Some] acc(1)])
      with acc(2) enq_items [OF Cons.prems(1) Some] show ?thesis by simp
    qed
  next
    case Deq
    show ?thesis
    proof (cases "deq q")
      case None
      with Cons Deq show ?thesis by simp
    next
      case (Some p)
      obtain x q' where p: "deq q = Some (x, q')" using Some by (cases p) auto
      with Cons.prems Deq obtain out' where
        out: "run_ops enq deq ops q' = (acc, out', r)" "out = x # out'"
        by (auto split: prod.splits)
      have "valid r \<and> items q' @ acc = out' @ items r"
        by (rule Cons.IH [OF deq_valid [OF Cons.prems(1) p] out(1)])
      with out(2) deq_items [OF Cons.prems(1) p] show ?thesis by simp
    qed
  qed
qed

lemma run_from_empty:
  "valid q \<Longrightarrow> items q = [] \<Longrightarrow> run_ops enq deq ops q = (acc, out, r) \<Longrightarrow> acc = out @ items r"
  using run_valid_items by fastforce

end

text \<open>The operations of the file in the shape of the interface.\<close>

definition q_enq :: "bool \<Rightarrow> task_node_t \<Rightarrow> queue_t \<Rightarrow> queue_t option" where
  "q_enq ok v q = (case push ok (Some q) v of Inr (True, Some q') \<Rightarrow> Some q' | _ \<Rightarrow> None)"

definition q_deq :: "queue_t \<Rightarrow> (task_node_t \<times> queue_t) option" where
  "q_deq q = (case pop (Some q) True of Inr (True, Some v, Some q') \<Rightarrow> Some (v, q') | _ \<Rightarrow> None)"

lemma q_enq_cases:
  assumes "q_inv q"
  shows "(push_accepts ok q \<and> (\<exists>q'. q_enq ok v q = Some q' \<and> push ok (Some q) v = Inr (True, Some q')
            \<and> q_inv q' \<and> q_list q' = q_list q @ [v]))
       \<or> (\<not> push_accepts ok q \<and> q_enq ok v q = None \<and> push ok (Some q) v = Inr (False, Some q))"
  using push_accepted [OF assms, of ok v] push_refused [OF assms, of ok v]
  by (cases "push_accepts ok q") (auto simp: q_enq_def)

lemma q_deq_cases:
  assumes "q_inv q"
  shows "(q_list q = [] \<and> q_deq q = None \<and> pop (Some q) True = Inr (False, None, Some q))
       \<or> (\<exists>v q'. q_deq q = Some (v, q') \<and> pop (Some q) True = Inr (True, Some v, Some q')
            \<and> q_inv q' \<and> q_list q = v # q_list q')"
  using pop_empty [OF assms, of True] pop_nonempty [OF assms, of True]
  by (cases "q_list q = []") (auto simp: q_deq_def)

interpretation ring: fifo q_enq q_deq q_list q_inv
proof unfold_locales
  fix q v q' ok
  assume "q_inv q" and "q_enq ok v q = Some q'"
  then show "q_list q' = q_list q @ [v]" and "q_inv q'"
    using q_enq_cases [of q ok v] by auto
next
  fix q
  assume "q_inv q"
  then show "q_deq q = None \<longleftrightarrow> q_list q = []"
    using q_deq_cases [of q] by auto
next
  fix q v q'
  assume "q_inv q" and "q_deq q = Some (v, q')"
  then show "q_list q = v # q_list q'" and "q_inv q'"
    using q_deq_cases [of q] by auto
qed

section \<open>Properties\<close>

text \<open>A queue with room for one task, and a full queue with two tasks, wrapped around; used to
  instantiate the properties.\<close>

definition sample_task :: "nat \<Rightarrow> task_node_t" where
  "sample_task n = \<lparr>tfunc = Some 1, targs = Some n\<rparr>"

definition sample_full :: queue_t where
  "sample_full = \<lparr>q_buf = Block [Some (sample_task 8), Some (sample_task 7)],
                  cap = 2, len = 2, readAt = 1, insertAt = 1\<rparr>"

lemma sample_full_inv: "q_inv sample_full"
  by (simp add: sample_full_def q_inv_def q_at_def less_Suc_eq numeral_2_eq_2 mod_Suc)

lemma sample_full_list: "q_list sample_full = [sample_task 7, sample_task 8]"
  by (simp add: sample_full_def q_list_def q_at_def numeral_2_eq_2 upt_rec)

lemma sample_cap: "cap sample_full = 2" "len sample_full = 2"
  by (simp_all add: sample_full_def)

text \<open>C14: On a valid queue \<open>push\<close> never faults and either appends the task at the back, keeping
  the waiting tasks in order and doubling the capacity exactly when the ring was full, or
  returns \<open>false\<close> and leaves the queue untouched; it refuses exactly when the ring is full and
  either doubling would reach ten million cells or \<open>malloc\<close> fails.\<close>

theorem push_refines:
  assumes "q_inv q"
  shows "(push_accepts ok q \<and> (\<exists>q'. push ok (Some q) v = Inr (True, Some q') \<and> q_inv q'
            \<and> q_list q' = q_list q @ [v] \<and> cap q' = (if len q = cap q then 2 * cap q else cap q)))
       \<or> (\<not> push_accepts ok q \<and> push ok (Some q) v = Inr (False, Some q))"
  by (cases "push_accepts ok q") (use push_accepted [OF assms] push_refused [OF assms] in blast)+

theorem push_refines_witness:
  "\<exists>q'. push True (Some sample_full) (sample_task 9) = Inr (True, Some q')
      \<and> q_list q' = [sample_task 7, sample_task 8, sample_task 9] \<and> cap q' = 4"
proof -
  have "push_accepts True sample_full" by (simp add: push_accepts_def sample_full_def)
  then show ?thesis
    using push_refines [OF sample_full_inv, of True "sample_task 9"]
    by (auto simp: sample_full_list sample_cap)
qed

text \<open>On a valid queue \<open>pop\<close> never faults: it removes and hands out the oldest waiting task
  (whatever cell of the ring it is in), and returns \<open>false\<close> and changes nothing exactly when no
  task waits.\<close>

theorem pop_refines:
  assumes "q_inv q"
  shows "(q_list q = [] \<and> pop (Some q) want = Inr (False, None, Some q))
       \<or> (\<exists>v q'. pop (Some q) want = Inr (True, (if want then Some v else None), Some q')
            \<and> q_inv q' \<and> q_list q = v # q_list q' \<and> cap q' = cap q)"
  using pop_empty [OF assms, of want] pop_nonempty [OF assms, of want]
  by (cases "q_list q") auto

theorem pop_refines_witness:
  "\<exists>q'. pop (Some sample_full) True = Inr (True, Some (sample_task 7), Some q')
      \<and> q_list q' = [sample_task 8]"
  using pop_refines [OF sample_full_inv, of True] by (auto simp: sample_full_list)

text \<open>First in, first out over any run: from a freshly initialised queue, whatever pushes and
  pops follow and whichever of them are refused, the tasks accepted are, in order, the tasks
  handed out followed by the tasks still waiting.  Growing the ring loses, duplicates and
  reorders nothing.\<close>

theorem queue_run_fifo:
  assumes "init_queue True (Some q0) c = (True, Some q)"
    and "run_ops q_enq q_deq ops q = (accepted, out, r)"
  shows "accepted = out @ q_list r \<and> q_inv r"
  using ring.run_valid_items [of q ops accepted out r] assms init_queue_inv by fastforce

definition raw_queue :: queue_t where
  "raw_queue = \<lparr>q_buf = Indet, cap = 0, len = 0, readAt = 0, insertAt = 0\<rparr>"

theorem queue_run_fifo_witness:
  "\<exists>q accepted out r. init_queue True (Some raw_queue) 1 = (True, Some q)
     \<and> run_ops q_enq q_deq [Enq True (sample_task 1), Enq True (sample_task 2), Deq] q
         = (accepted, out, r)
     \<and> accepted = out @ q_list r"
proof -
  obtain q where q: "init_queue True (Some raw_queue) 1 = (True, Some q)"
    by (simp add: init_queue_def Let_def)
  obtain accepted out r where r:
    "run_ops q_enq q_deq [Enq True (sample_task 1), Enq True (sample_task 2), Deq] q = (accepted, out, r)"
    using prod_cases3 by blast
  from queue_run_fifo [OF q r] q r show ?thesis by blast
qed

text \<open>The documented limit of a million cells is not enforced by growth: a full, valid queue of
  a million cells accepts another task and then has two million.  The limit the code does
  enforce is that the capacity stays below ten million.\<close>

theorem push_exceeds_documented_cap:
  assumes "q_inv q" and "len q = cap q" and "cap q = 1000000"
  shows "\<exists>q'. push True (Some q) v = Inr (True, Some q') \<and> cap q' = 2000000 \<and> cap q' < 10000000"
  using push_refines [OF assms(1), of True v] assms by (auto simp: push_accepts_def)

definition million_queue :: queue_t where
  "million_queue = \<lparr>q_buf = Block (replicate 1000000 (Some (sample_task 0))),
                    cap = 1000000, len = 1000000, readAt = 0, insertAt = 0\<rparr>"

theorem push_exceeds_documented_cap_witness:
  "q_inv million_queue
   \<and> (\<exists>q'. push True (Some million_queue) (sample_task 1) = Inr (True, Some q') \<and> cap q' = 2000000)"
proof -
  have inv: "q_inv million_queue"
    by (simp add: million_queue_def q_inv_def q_at_def)
  moreover have "len million_queue = cap million_queue" "cap million_queue = 1000000"
    by (simp_all add: million_queue_def)
  ultimately show ?thesis
    using push_exceeds_documented_cap [of million_queue "sample_task 1"] by auto
qed

end
