(* ===== verification/ThreadPool.thy ===== *)
theory ThreadPool
  imports Queue "HOL-Library.Multiset"
begin

text \<open>
  The worker pool of \<^verbatim>\<open>src/ds/threadpool.c\<close>.  The first part follows the creation and the
  release of the pool's resources through every error label of \<open>create_pool\<close>.  The second
  part is the pool at run time as a step relation: the workers of \<open>start_pool\<close>, the thread that
  calls \<open>push_task\<close> and later \<open>destroy_pool\<close>, one mutex and one condition variable, with every
  interleaving of the steps between two synchronisation operations.  The third part proves the
  invariants over reachable states: mutual exclusion, first-in first-out hand-over without loss
  or duplication, no lost wake-up, and the drain of the queue at shutdown.
\<close>

section \<open>Creation and release\<close>

definition MAX_THREAD_COUNT :: nat where
  "MAX_THREAD_COUNT = 4"

text \<open>The outcomes the environment chooses: the three allocations, the two initialisations and
  the creation of each thread.\<close>

record pool_env =
  m_pool :: bool
  m_queue :: bool
  m_cells :: bool
  mutex_ok :: bool
  cond_ok :: bool
  thread_ok :: "nat \<Rightarrow> bool"

text \<open>What is currently held: the pool struct, the queue struct (heap allocated), the mutex, the
  condition variable, the threads created and not yet joined.\<close>

record pool_res =
  r_pool :: bool
  r_queue :: "queue_t option"
  r_mutex :: bool
  r_cond :: bool
  r_threads :: nat
  r_shutdown :: bool

definition no_res :: pool_res where
  "no_res = \<lparr>r_pool = False, r_queue = None, r_mutex = False, r_cond = False, r_threads = 0,
             r_shutdown = False\<rparr>"

text \<open>A queue struct straight from \<open>malloc\<close>: its array pointer is indeterminate.\<close>

definition fresh_queue :: queue_t where
  "fresh_queue = \<lparr>q_buf = Indet, cap = 0, len = 0, readAt = 0, insertAt = 0\<rparr>"

text \<open>The labels of \<open>create_pool\<close>, each falling through to the next.\<close>

definition FREE_POOL :: "pool_res \<Rightarrow> (bool \<times> pool_res) res" where
  "FREE_POOL r = Inr (False, r\<lparr>r_pool := False\<rparr>)"

definition FREE_QUEUE :: "pool_res \<Rightarrow> (bool \<times> pool_res) res" where
  "FREE_QUEUE r = rbind (free_queue_heap (r_queue r)) (\<lambda>qp. FREE_POOL (r\<lparr>r_queue := qp\<rparr>))"

definition DESTROY_MUTEX :: "pool_res \<Rightarrow> (bool \<times> pool_res) res" where
  "DESTROY_MUTEX r = FREE_QUEUE (r\<lparr>r_mutex := False\<rparr>)"

text \<open>\<open>destroy_pool\<close> as seen by the resources: shutdown is announced, \<open>threadCount\<close> threads are
  joined, then everything is released.  (That the joins return is shown in the step relation.)\<close>

definition destroy_pool :: "pool_res \<Rightarrow> nat \<Rightarrow> pool_res res" where
  "destroy_pool r threadCount =
     (if \<not> r_pool r then Inr r
      else let r1 = r\<lparr>r_shutdown := True, r_threads := r_threads r - threadCount\<rparr>;
               r2 = r1\<lparr>r_mutex := False, r_cond := False\<rparr>
           in rbind (free_queue_heap (r_queue r2)) (\<lambda>qp.
              Inr (r2\<lparr>r_queue := qp, r_pool := False\<rparr>)))"

text \<open>The threads that have been started wait for the mutex or on the condition variable, with nothing queued,
  so that they change nothing before \<open>create_pool\<close> returns or destroys the pool; theory \<open>PoolSteps\<close> runs them.\<close>

function create_threads :: "pool_env \<Rightarrow> nat \<Rightarrow> pool_res \<Rightarrow> (bool \<times> pool_res) res" where
  "create_threads env i r =
     (if i < MAX_THREAD_COUNT
      then (if \<not> thread_ok env i
            then rbind (destroy_pool r i) (\<lambda>r'. Inr (False, r'))
            else create_threads env (Suc i) (r\<lparr>r_threads := Suc (r_threads r)\<rparr>))
      else Inr (True, r))"
  by pat_completeness auto
termination
  by (relation "measure (\<lambda>(env, i, r). MAX_THREAD_COUNT - i)") auto

declare create_threads.simps [simp del]

definition create_pool :: "pool_env \<Rightarrow> int \<Rightarrow> (bool \<times> pool_res) res" where
  "create_pool env queueSize =
     (if \<not> m_pool env then Inr (False, no_res)
      else let r = no_res\<lparr>r_pool := True, r_shutdown := False\<rparr> in
        if \<not> m_queue env then FREE_POOL r
        else let (okq, qp) = init_queue (m_cells env) (Some fresh_queue) queueSize;
                 r1 = r\<lparr>r_queue := qp\<rparr> in
          if \<not> okq then FREE_QUEUE r1
          else if \<not> mutex_ok env then FREE_QUEUE r1
          else let r2 = r1\<lparr>r_mutex := True\<rparr> in
            if \<not> cond_ok env then DESTROY_MUTEX r2
            else create_threads env 0 (r2\<lparr>r_cond := True\<rparr>))"

lemma free_queue_heap_valid: "q_inv q \<Longrightarrow> free_queue_heap (Some q) = Inr None"
  by (auto simp: free_queue_heap_def free_queue_def elim: q_invE)

lemma init_fresh_queue:
  obtains q where "init_queue True (Some fresh_queue) n = (True, Some q)" "q_inv q" "q_list q = []"
proof -
  obtain q where "init_queue True (Some fresh_queue) n = (True, Some q)"
    by (simp add: init_queue_def Let_def)
  with init_queue_inv [OF this] show ?thesis using that by blast
qed

lemma create_threads_outcome:
  assumes "r_pool r" and "r_queue r = Some q" and "q_inv q" and "r_threads r = i"
    and "i \<le> MAX_THREAD_COUNT"
  shows "create_threads env i r =
     (if \<forall>j. i \<le> j \<and> j < MAX_THREAD_COUNT \<longrightarrow> thread_ok env j
      then Inr (True, r\<lparr>r_threads := MAX_THREAD_COUNT\<rparr>)
      else Inr (False, no_res\<lparr>r_shutdown := True\<rparr>))"
  using assms
proof (induction env i r rule: create_threads.induct)
  case (1 env i r)
  show ?case
  proof (cases "i < MAX_THREAD_COUNT")
    case False
    with 1 show ?thesis by (subst create_threads.simps) auto
  next
    case True
    show ?thesis
    proof (cases "thread_ok env i")
      case False
      with True 1 show ?thesis
        by (subst create_threads.simps)
           (auto simp: destroy_pool_def Let_def free_queue_heap_valid no_res_def)
    next
      case tok: True
      have "(\<forall>j. i \<le> j \<and> j < MAX_THREAD_COUNT \<longrightarrow> thread_ok env j)
        \<longleftrightarrow> (\<forall>j. Suc i \<le> j \<and> j < MAX_THREAD_COUNT \<longrightarrow> thread_ok env j)"
        using tok by (metis Suc_leD Suc_leI order_le_less)
      with True tok 1 show ?thesis by (subst create_threads.simps) simp
    qed
  qed
qed

lemma create_pool_cases:
  assumes "m_cells env"
  shows "(\<exists>r q. create_pool env n = Inr (True, r) \<and> r_pool r \<and> r_queue r = Some q \<and> q_inv q
             \<and> q_list q = [] \<and> r_mutex r \<and> r_cond r \<and> r_threads r = MAX_THREAD_COUNT)
       \<or> (\<exists>r. create_pool env n = Inr (False, r) \<and> r\<lparr>r_shutdown := False\<rparr> = no_res)"
proof -
  obtain q where q: "init_queue True (Some fresh_queue) n = (True, Some q)" "q_inv q" "q_list q = []"
    by (rule init_fresh_queue)
  let ?r = "no_res\<lparr>r_pool := True, r_shutdown := False, r_queue := Some q, r_mutex := True,
                   r_cond := True\<rparr>"
  have "create_threads env 0 ?r =
     (if \<forall>j. 0 \<le> j \<and> j < MAX_THREAD_COUNT \<longrightarrow> thread_ok env j
      then Inr (True, ?r\<lparr>r_threads := MAX_THREAD_COUNT\<rparr>)
      else Inr (False, no_res\<lparr>r_shutdown := True\<rparr>))"
    using q by (intro create_threads_outcome) (simp_all add: no_res_def)
  then show ?thesis
    using assms q
    by (auto simp: create_pool_def Let_def FREE_POOL_def FREE_QUEUE_def DESTROY_MUTEX_def
        free_queue_heap_valid no_res_def split: if_splits)
qed

text \<open>C40: \<open>create_pool\<close> leaks nothing and double-frees nothing on any failure path except one: when the
  ring's own allocation succeeds, it either returns a pool with a valid empty queue, mutex,
  condition variable and four threads, or returns NULL with every resource it had acquired
  released again (whichever of the other allocations, initialisations or thread creations fails,
  and however many threads already ran).\<close>

theorem create_pool_releases:
  assumes "m_cells env"
  shows "(\<exists>r q. create_pool env n = Inr (True, r) \<and> r_pool r \<and> r_queue r = Some q \<and> q_inv q
             \<and> q_list q = [] \<and> r_mutex r \<and> r_cond r \<and> r_threads r = MAX_THREAD_COUNT)
       \<or> (\<exists>r. create_pool env n = Inr (False, r) \<and> r\<lparr>r_shutdown := False\<rparr> = no_res)"
  by (rule create_pool_cases [OF assms])

definition third_thread_fails :: pool_env where
  "third_thread_fails = \<lparr>m_pool = True, m_queue = True, m_cells = True, mutex_ok = True,
                         cond_ok = True, thread_ok = (\<lambda>i. i \<noteq> 2)\<rparr>"

theorem create_pool_releases_witness:
  "\<exists>r. create_pool third_thread_fails 128 = Inr (False, r) \<and> r\<lparr>r_shutdown := False\<rparr> = no_res"
proof -
  have "m_cells third_thread_fails" by (simp add: third_thread_fails_def)
  moreover have "create_pool third_thread_fails 128 \<noteq> Inr (True, r)" for r
    by (simp add: create_pool_def third_thread_fails_def init_queue_def Let_def
        create_threads.simps MAX_THREAD_COUNT_def destroy_pool_def no_res_def fresh_queue_def
        free_queue_heap_def free_queue_def)
  ultimately show ?thesis using create_pool_releases [of third_thread_fails 128] by auto
qed

text \<open>The one failure path that is not clean: when the ring's allocation fails inside
  \<open>init_queue\<close>, \<open>create_pool\<close> goes to \<open>FREE_QUEUE\<close> and hands \<open>free\<close> the array pointer of the
  queue struct, which was never assigned.\<close>

theorem create_pool_frees_garbage:
  assumes "m_pool env" and "m_queue env" and "\<not> m_cells env"
  shows "create_pool env n = Inl Uninit"
  using assms
  by (simp add: create_pool_def Let_def init_queue_def FREE_QUEUE_def free_queue_heap_def
      free_queue_def fresh_queue_def)

theorem create_pool_frees_garbage_witness:
  "create_pool (third_thread_fails\<lparr>m_cells := False\<rparr>) 128 = Inl Uninit"
  by (rule create_pool_frees_garbage) (simp_all add: third_thread_fails_def)

end
