(* ===== verification/PoolSteps.thy ===== *)
theory PoolSteps
  imports ThreadPool
begin

text \<open>
  The pool of \<^verbatim>\<open>src/ds/threadpool.c\<close> at run time, as a step relation.  The threads are the
  workers \<open>0 .. nthreads - 1\<close>, each running \<open>start_pool\<close>, and the one thread that calls
  \<open>push_task\<close> and finally \<open>destroy_pool\<close> (in the server both are called by the event-loop
  thread).  A step is what a thread does up to its next synchronisation operation;
  \<open>pthread_cond_wait\<close> releases the mutex and sleeps in one step, a sleeper may wake without a
  signal, and a woken worker has to take the mutex again.  The ghost lists \<open>accepted\<close>, \<open>taken\<close>
  and \<open>finished\<close> record the tasks pushed with success, popped, and executed to the end.
\<close>

section \<open>States\<close>

datatype tid = Worker nat | Main

text \<open>Where a worker is in the loop of \<open>start_pool\<close>.\<close>

datatype worker_pc =
    AtLock                           \<comment> \<open>before \<open>pthread_mutex_lock\<close> at the head of the loop\<close>
  | Checking                         \<comment> \<open>mutex held, at the guard of the inner \<open>while\<close>\<close>
  | Asleep                           \<comment> \<open>in \<open>pthread_cond_wait\<close>, not signalled\<close>
  | Woken                            \<comment> \<open>in \<open>pthread_cond_wait\<close>, signalled, mutex not yet taken back\<close>
  | Popped "task_node_t option"      \<comment> \<open>mutex held, after \<open>pop\<close>; \<open>None\<close> when it returned false\<close>
  | Running task_node_t              \<comment> \<open>executing the task, mutex released\<close>
  | Exited                           \<comment> \<open>after \<open>pthread_exit\<close>\<close>

text \<open>Where the calling thread is: between calls, in \<open>push_task\<close>, or in \<open>destroy_pool\<close>.\<close>

datatype main_pc =
    MIdle
  | MPush task_node_t                \<comment> \<open>mutex held, before the shutdown test\<close>
  | MSignal                          \<comment> \<open>mutex held, before \<open>pthread_cond_signal\<close>\<close>
  | MUnlock                          \<comment> \<open>mutex held, before the unlock that returns true\<close>
  | DLocked                          \<comment> \<open>mutex held in \<open>destroy_pool\<close>\<close>
  | DSet                             \<comment> \<open>shutdown set, before the broadcast\<close>
  | DBcast                           \<comment> \<open>before the unlock\<close>
  | DJoin nat                        \<comment> \<open>joining thread \<open>i\<close>\<close>
  | DDone                            \<comment> \<open>mutex, condition variable, queue and pool released\<close>

record pool_t =
  pq :: queue_t
  lock :: "tid option"
  shutdown :: bool
  nthreads :: nat
  wpc :: "nat \<Rightarrow> worker_pc"
  mpc :: main_pc
  mret :: "bool option"              \<comment> \<open>what the last \<open>push_task\<close> returned\<close>
  accepted :: "task_node_t list"
  taken :: "task_node_t list"
  finished :: "task_node_t list"

text \<open>The pool as \<open>create_pool\<close> returns it.\<close>

definition pool_init :: "queue_t \<Rightarrow> nat \<Rightarrow> pool_t" where
  "pool_init q n = \<lparr>pq = q, lock = None, shutdown = False, nthreads = n, wpc = (\<lambda>_. AtLock),
                    mpc = MIdle, mret = None, accepted = [], taken = [], finished = []\<rparr>"

definition wake :: "worker_pc \<Rightarrow> worker_pc" where
  "wake p = (if p = Asleep then Woken else p)"

section \<open>Steps\<close>

text \<open>The steps of worker \<open>i\<close> in \<open>start_pool\<close>.\<close>

inductive worker_step :: "nat \<Rightarrow> pool_t \<Rightarrow> pool_t \<Rightarrow> bool" where
  w_lock: "wpc s i = AtLock \<Longrightarrow> lock s = None \<Longrightarrow>
    worker_step i s (s\<lparr>lock := Some (Worker i), wpc := (wpc s)(i := Checking)\<rparr>)"
| w_wait: "wpc s i = Checking \<Longrightarrow> is_empty (Some (pq s)) \<and> \<not> shutdown s \<Longrightarrow>
    worker_step i s (s\<lparr>lock := None, wpc := (wpc s)(i := Asleep)\<rparr>)"
| w_spurious: "wpc s i = Asleep \<Longrightarrow> worker_step i s (s\<lparr>wpc := (wpc s)(i := Woken)\<rparr>)"
| w_relock: "wpc s i = Woken \<Longrightarrow> lock s = None \<Longrightarrow>
    worker_step i s (s\<lparr>lock := Some (Worker i), wpc := (wpc s)(i := Checking)\<rparr>)"
| w_exit: "wpc s i = Checking \<Longrightarrow> \<not> (is_empty (Some (pq s)) \<and> \<not> shutdown s) \<Longrightarrow>
    shutdown s \<and> is_empty (Some (pq s)) \<Longrightarrow>
    worker_step i s (s\<lparr>lock := None, wpc := (wpc s)(i := Exited)\<rparr>)"
| w_pop: "wpc s i = Checking \<Longrightarrow> \<not> (is_empty (Some (pq s)) \<and> \<not> shutdown s) \<Longrightarrow>
    \<not> (shutdown s \<and> is_empty (Some (pq s))) \<Longrightarrow>
    pop (Some (pq s)) True = Inr (True, Some t, Some q') \<Longrightarrow>
    worker_step i s (s\<lparr>pq := q', taken := taken s @ [t], wpc := (wpc s)(i := Popped (Some t))\<rparr>)"
| w_pop_fail: "wpc s i = Checking \<Longrightarrow> \<not> (is_empty (Some (pq s)) \<and> \<not> shutdown s) \<Longrightarrow>
    \<not> (shutdown s \<and> is_empty (Some (pq s))) \<Longrightarrow>
    pop (Some (pq s)) True = Inr (False, v, Some q') \<Longrightarrow>
    worker_step i s (s\<lparr>pq := q', wpc := (wpc s)(i := Popped None)\<rparr>)"
| w_run: "wpc s i = Popped (Some t) \<Longrightarrow>
    worker_step i s (s\<lparr>lock := None, wpc := (wpc s)(i := Running t)\<rparr>)"
| w_continue: "wpc s i = Popped None \<Longrightarrow>
    worker_step i s (s\<lparr>lock := None, wpc := (wpc s)(i := AtLock)\<rparr>)"
| w_done: "wpc s i = Running t \<Longrightarrow>
    worker_step i s (s\<lparr>finished := finished s @ [t], wpc := (wpc s)(i := AtLock)\<rparr>)"

text \<open>The steps of the calling thread in \<open>push_task\<close>; the function and the argument of the task
  must not be NULL.\<close>

inductive push_step :: "pool_t \<Rightarrow> pool_t \<Rightarrow> bool" where
  p_null: "mpc s = MIdle \<Longrightarrow> tfunc (t :: task_node_t) = None \<or> targs t = None \<Longrightarrow>
    push_step s (s\<lparr>mret := Some False\<rparr>)"
| p_lock: "mpc s = MIdle \<Longrightarrow> \<not> (tfunc t = None \<or> targs t = None) \<Longrightarrow> lock s = None \<Longrightarrow>
    push_step s (s\<lparr>mpc := MPush t, lock := Some Main\<rparr>)"
| p_shutdown: "mpc s = MPush t \<Longrightarrow> shutdown s \<Longrightarrow>
    push_step s (s\<lparr>mpc := MIdle, lock := None, mret := Some False\<rparr>)"
| p_refused: "mpc s = MPush t \<Longrightarrow> \<not> shutdown s \<Longrightarrow>
    push ok (Some (pq s)) t = Inr (False, Some q') \<Longrightarrow>
    push_step s (s\<lparr>pq := q', mpc := MIdle, lock := None, mret := Some False\<rparr>)"
| p_pushed: "mpc s = MPush t \<Longrightarrow> \<not> shutdown s \<Longrightarrow>
    push ok (Some (pq s)) t = Inr (True, Some q') \<Longrightarrow>
    push_step s (s\<lparr>pq := q', mpc := MSignal, accepted := accepted s @ [t]\<rparr>)"
| p_signal: "mpc s = MSignal \<Longrightarrow> i < nthreads s \<Longrightarrow> wpc s i = Asleep \<Longrightarrow>
    push_step s (s\<lparr>mpc := MUnlock, wpc := (wpc s)(i := Woken)\<rparr>)"
| p_signal_none: "mpc s = MSignal \<Longrightarrow> \<forall>i < nthreads s. wpc s i \<noteq> Asleep \<Longrightarrow>
    push_step s (s\<lparr>mpc := MUnlock\<rparr>)"
| p_unlock: "mpc s = MUnlock \<Longrightarrow>
    push_step s (s\<lparr>mpc := MIdle, lock := None, mret := Some True\<rparr>)"

text \<open>The steps of the calling thread in \<open>destroy_pool(pool, nthreads)\<close>.\<close>

inductive destroy_step :: "pool_t \<Rightarrow> pool_t \<Rightarrow> bool" where
  d_lock: "mpc s = MIdle \<Longrightarrow> lock s = None \<Longrightarrow>
    destroy_step s (s\<lparr>mpc := DLocked, lock := Some Main\<rparr>)"
| d_set: "mpc s = DLocked \<Longrightarrow> destroy_step s (s\<lparr>mpc := DSet, shutdown := True\<rparr>)"
| d_broadcast: "mpc s = DSet \<Longrightarrow> destroy_step s (s\<lparr>mpc := DBcast, wpc := wake \<circ> wpc s\<rparr>)"
| d_unlock: "mpc s = DBcast \<Longrightarrow> destroy_step s (s\<lparr>mpc := DJoin 0, lock := None\<rparr>)"
| d_join: "mpc s = DJoin i \<Longrightarrow> i < nthreads s \<Longrightarrow> wpc s i = Exited \<Longrightarrow>
    destroy_step s (s\<lparr>mpc := DJoin (Suc i)\<rparr>)"
| d_free: "mpc s = DJoin i \<Longrightarrow> \<not> i < nthreads s \<Longrightarrow> free_queue (Some (pq s)) = Inr (Some q') \<Longrightarrow>
    destroy_step s (s\<lparr>mpc := DDone, pq := q'\<rparr>)"

inductive pool_step :: "pool_t \<Rightarrow> pool_t \<Rightarrow> bool" where
  worker: "i < nthreads s \<Longrightarrow> worker_step i s t \<Longrightarrow> pool_step s t"
| pushing: "push_step s t \<Longrightarrow> pool_step s t"
| destroying: "destroy_step s t \<Longrightarrow> pool_step s t"

text \<open>The states a pool created with \<open>n\<close> workers can reach.\<close>

inductive reach :: "nat \<Rightarrow> pool_t \<Rightarrow> bool" where
  init: "q_inv q \<Longrightarrow> q_list q = [] \<Longrightarrow> reach n (pool_init q n)"
| step: "reach n s \<Longrightarrow> pool_step s t \<Longrightarrow> reach n t"

inductive_cases worker_stepE: "worker_step i s t"
inductive_cases push_stepE: "push_step s t"
inductive_cases destroy_stepE: "destroy_step s t"

section \<open>Invariants\<close>

text \<open>Who holds the mutex is what the program counters say.\<close>

fun holds_lock :: "worker_pc \<Rightarrow> bool" where
  "holds_lock Checking = True"
| "holds_lock (Popped v) = True"
| "holds_lock _ = False"

fun main_holds :: "main_pc \<Rightarrow> bool" where
  "main_holds MIdle = False"
| "main_holds (DJoin i) = False"
| "main_holds DDone = False"
| "main_holds _ = True"

definition lock_inv :: "pool_t \<Rightarrow> bool" where
  "lock_inv s \<longleftrightarrow> (\<forall>i < nthreads s. holds_lock (wpc s i) \<longleftrightarrow> lock s = Some (Worker i))
               \<and> (main_holds (mpc s) \<longleftrightarrow> lock s = Some Main)
               \<and> (\<forall>i. lock s = Some (Worker i) \<longrightarrow> i < nthreads s)"

lemma lock_inv_init: "lock_inv (pool_init q n)"
  by (simp add: lock_inv_def pool_init_def)

lemma holds_lock_wake [simp]: "holds_lock (wake p) = holds_lock p"
  by (simp add: wake_def)

lemma lock_inv_worker: "worker_step i s t \<Longrightarrow> i < nthreads s \<Longrightarrow> lock_inv s \<Longrightarrow> lock_inv t"
  by (erule worker_stepE; simp add: lock_inv_def; metis holds_lock.simps tid.inject tid.distinct option.inject)

lemma lock_inv_push: "push_step s t \<Longrightarrow> lock_inv s \<Longrightarrow> lock_inv t"
  by (erule push_stepE; auto simp: lock_inv_def)

lemma lock_inv_destroy: "destroy_step s t \<Longrightarrow> lock_inv s \<Longrightarrow> lock_inv t"
  by (erule destroy_stepE; auto simp: lock_inv_def)

lemma nthreads_step: "pool_step s t \<Longrightarrow> nthreads t = nthreads s"
  by (auto elim!: pool_step.cases worker_stepE push_stepE destroy_stepE)

lemma lock_inv_step: "pool_step s t \<Longrightarrow> lock_inv s \<Longrightarrow> lock_inv t"
  by (auto elim!: pool_step.cases intro: lock_inv_worker lock_inv_push lock_inv_destroy)

lemma reach_nthreads: "reach n s \<Longrightarrow> nthreads s = n"
  by (induction rule: reach.induct) (auto simp: pool_init_def nthreads_step)

lemma reach_lock_inv: "reach n s \<Longrightarrow> lock_inv s"
  by (induction rule: reach.induct) (auto intro: lock_inv_init lock_inv_step)

text \<open>The pool is a client of the queue through the interface \<open>fifo\<close>.\<close>

lemma pop_ring: "pop (Some q) True = Inr (True, Some t, Some q') \<Longrightarrow> q_deq q = Some (t, q')"
  by (simp add: q_deq_def)

lemma push_ring: "push ok (Some q) t = Inr (True, Some q') \<Longrightarrow> q_enq ok t q = Some q'"
  by (simp add: q_enq_def)

lemma push_ring_false: "push ok (Some q) t = Inr (False, Some q') \<Longrightarrow> q_inv q \<Longrightarrow> q' = q"
  using q_enq_cases [of q ok t] by auto

lemma pop_ring_false: "pop (Some q) True = Inr (False, v, Some q') \<Longrightarrow> q_inv q \<Longrightarrow> q' = q \<and> q_list q = []"
  using q_deq_cases [of q] by auto

lemma pop_ok:
  "pop (Some q) True = Inr (True, Some t, Some q') \<Longrightarrow> q_inv q \<Longrightarrow>
     q_inv q' \<and> q_list q = t # q_list q'"
  using ring.deq_items [OF _ pop_ring] ring.deq_valid [OF _ pop_ring] by blast

lemma push_ok:
  "push ok (Some q) t = Inr (True, Some q') \<Longrightarrow> q_inv q \<Longrightarrow>
     q_inv q' \<and> q_list q' = q_list q @ [t]"
  using ring.enq_items [OF _ push_ring] ring.enq_valid [OF _ push_ring] by blast

text \<open>The queue stays valid until it is released, and the tasks popped followed by the tasks
  waiting are the tasks accepted.\<close>

definition queue_inv :: "pool_t \<Rightarrow> bool" where
  "queue_inv s \<longleftrightarrow> (mpc s \<noteq> DDone \<longrightarrow> q_inv (pq s) \<and> accepted s = taken s @ q_list (pq s))"

lemma queue_inv_worker: "worker_step i s t \<Longrightarrow> queue_inv s \<Longrightarrow> queue_inv t"
  by (erule worker_stepE) (auto simp: queue_inv_def dest: pop_ok pop_ring_false)

lemma queue_inv_push: "push_step s t \<Longrightarrow> queue_inv s \<Longrightarrow> queue_inv t"
  by (erule push_stepE) (auto simp: queue_inv_def dest: push_ok push_ring_false)

lemma queue_inv_destroy: "destroy_step s t \<Longrightarrow> queue_inv s \<Longrightarrow> queue_inv t"
  by (erule destroy_stepE) (auto simp: queue_inv_def)

text \<open>The shutdown flag and the broadcast, by the position of the calling thread.\<close>

fun announced :: "main_pc \<Rightarrow> bool" where
  "announced DSet = True"
| "announced DBcast = True"
| "announced (DJoin i) = True"
| "announced DDone = True"
| "announced _ = False"

fun broadcast_done :: "main_pc \<Rightarrow> bool" where
  "broadcast_done DBcast = True"
| "broadcast_done (DJoin i) = True"
| "broadcast_done DDone = True"
| "broadcast_done _ = False"

text \<open>Shutdown is announced by the calling thread alone; a worker has left only after shutdown
  and with an empty queue; nobody sleeps once the broadcast is made; the threads already joined
  have left; and the pool is released only when all have left and all accepted tasks are taken.\<close>

definition exit_inv :: "pool_t \<Rightarrow> bool" where
  "exit_inv s \<longleftrightarrow>
     (shutdown s \<longleftrightarrow> announced (mpc s))
   \<and> (\<forall>i < nthreads s. wpc s i = Exited \<longrightarrow> shutdown s \<and> (mpc s \<noteq> DDone \<longrightarrow> q_list (pq s) = []))
   \<and> (broadcast_done (mpc s) \<longrightarrow> (\<forall>i < nthreads s. wpc s i \<noteq> Asleep))
   \<and> (\<forall>k. mpc s = DJoin k \<longrightarrow> k \<le> nthreads s \<and> (\<forall>i < k. wpc s i = Exited))
   \<and> (mpc s = DDone \<longrightarrow> (\<forall>i < nthreads s. wpc s i = Exited) \<and> accepted s = taken s)"

lemma exit_inv_move:
  assumes "exit_inv s" and "i < nthreads s" and "wpc s i \<noteq> Exited"
    and same: "mpc t = mpc s" "shutdown t = shutdown s" "nthreads t = nthreads s"
      "wpc t = (wpc s)(i := p)"
    and "p = Exited \<Longrightarrow> shutdown s \<and> q_list (pq t) = []"
    and "p = Asleep \<Longrightarrow> \<not> shutdown s"
    and "q_list (pq s) = [] \<Longrightarrow> q_list (pq t) = []"
  shows "exit_inv t"
proof -
  have nd: "mpc s \<noteq> DDone" using assms(1-3) by (auto simp: exit_inv_def)
  have "announced m" if "broadcast_done m" for m using that by (cases m) simp_all
  then show ?thesis
    using assms nd unfolding exit_inv_def by auto
qed

lemma exit_inv_worker:
  assumes step: "worker_step i s t" and "i < nthreads s" and "queue_inv s" and "exit_inv s"
  shows "exit_inv t"
proof -
  have nd: "q_inv (pq s)" if "wpc s i \<noteq> Exited"
    using assms that by (auto simp: exit_inv_def queue_inv_def)
  from step show ?thesis
    by (cases rule: worker_step.cases)
       (rule exit_inv_move [OF \<open>exit_inv s\<close> \<open>i < nthreads s\<close>, where p = "wpc t i"];
        use nd in \<open>force simp: is_empty_q_list dest: pop_ok pop_ring_false\<close>)+
qed

lemma exit_inv_push:
  assumes "push_step s t" and "queue_inv s" and "exit_inv s"
  shows "exit_inv t"
  using assms
  by (cases rule: push_step.cases)
     (auto simp: exit_inv_def queue_inv_def dest: push_ok push_ring_false)

lemma exit_inv_destroy:
  assumes "destroy_step s t" and "0 < nthreads s" and "queue_inv s" and "exit_inv s"
  shows "exit_inv t"
  using assms
  by (cases rule: destroy_step.cases)
     (auto simp: exit_inv_def queue_inv_def wake_def less_Suc_eq split: if_splits)

text \<open>No lost wake-up: while a task waits, some worker is neither asleep nor gone, or the
  signal for it is about to be sent.\<close>

definition wake_inv :: "pool_t \<Rightarrow> bool" where
  "wake_inv s \<longleftrightarrow> (mpc s \<noteq> DDone \<and> q_list (pq s) \<noteq> [] \<longrightarrow>
     mpc s = MSignal \<or> (\<exists>i < nthreads s. wpc s i \<noteq> Asleep \<and> wpc s i \<noteq> Exited))"

lemma wake_inv_worker:
  assumes "worker_step i s t" and "i < nthreads s" and "queue_inv s" and "wake_inv s"
  shows "wake_inv t"
  using assms
  by (cases rule: worker_step.cases)
     (auto simp: wake_inv_def queue_inv_def is_empty_q_list)

lemma wake_inv_push:
  assumes "push_step s t" and "0 < nthreads s" and "queue_inv s" and "exit_inv s" and "wake_inv s"
  shows "wake_inv t"
  using assms
  by (cases rule: push_step.cases)
     (auto simp: wake_inv_def queue_inv_def exit_inv_def dest: push_ok push_ring_false)

lemma wake_inv_destroy: "destroy_step s t \<Longrightarrow> wake_inv s \<Longrightarrow> wake_inv t"
  by (erule destroy_stepE) (auto simp: wake_inv_def wake_def)

text \<open>Every popped task is in exactly one place: executed to the end, or held by one worker.\<close>

fun in_flight :: "worker_pc \<Rightarrow> task_node_t multiset" where
  "in_flight (Popped (Some t)) = {#t#}"
| "in_flight (Running t) = {#t#}"
| "in_flight _ = {#}"

definition flights :: "pool_t \<Rightarrow> task_node_t multiset" where
  "flights s = (\<Sum>i < nthreads s. in_flight (wpc s i))"

definition flight_inv :: "pool_t \<Rightarrow> bool" where
  "flight_inv s \<longleftrightarrow> mset (taken s) = mset (finished s) + flights s"

lemma sum_pc_upd:
  fixes f :: "'p \<Rightarrow> 'a :: comm_monoid_add" and i n :: nat
  assumes "i < n"
  shows "(\<Sum>j < n. f ((w(i := p)) j)) + f (w i) = (\<Sum>j < n. f (w j)) + f p"
proof -
  have "(\<Sum>j < n. f (v j)) = f (v i) + (\<Sum>j \<in> {..<n} - {i}. f (v j))" for v :: "nat \<Rightarrow> 'p"
    using assms by (simp add: sum.remove)
  from this [of "w(i := p)"] this [of w] show ?thesis by (simp add: ac_simps)
qed

lemma flights_upd:
  "i < nthreads s \<Longrightarrow> in_flight p = in_flight (wpc s i) \<Longrightarrow>
     (\<Sum>j < nthreads s. in_flight (((wpc s)(i := p)) j)) = (\<Sum>j < nthreads s. in_flight (wpc s j))"
  using sum_pc_upd [of i "nthreads s" in_flight "wpc s" p] by simp

lemma flights_wake: "(\<Sum>j < n. in_flight ((wake \<circ> w) j)) = (\<Sum>j < n. in_flight (w j))"
  by (rule sum.cong) (auto simp: wake_def)

lemma flight_inv_worker:
  assumes "worker_step i s t" and "i < nthreads s" and "flight_inv s"
  shows "flight_inv t"
  using assms sum_pc_upd [of i "nthreads s" in_flight "wpc s" "wpc t i"]
  by (cases rule: worker_step.cases) (auto simp: flight_inv_def flights_def)

lemma flight_inv_push: "push_step s t \<Longrightarrow> flight_inv s \<Longrightarrow> flight_inv t"
  by (erule push_stepE)
     (simp_all add: flight_inv_def flights_upd flights_def del: fun_upd_apply)

lemma flight_inv_destroy: "destroy_step s t \<Longrightarrow> flight_inv s \<Longrightarrow> flight_inv t"
  by (erule destroy_stepE) (auto simp: flight_inv_def flights_def flights_wake [unfolded comp_def])

section \<open>Reachable states\<close>

definition pool_inv :: "pool_t \<Rightarrow> bool" where
  "pool_inv s \<longleftrightarrow> lock_inv s \<and> queue_inv s \<and> exit_inv s \<and> wake_inv s \<and> flight_inv s"

lemma pool_inv_init: "q_inv q \<Longrightarrow> q_list q = [] \<Longrightarrow> pool_inv (pool_init q n)"
  by (simp add: pool_inv_def lock_inv_init) (simp add: pool_init_def queue_inv_def exit_inv_def
      wake_inv_def flight_inv_def flights_def)

lemma pool_inv_step: "pool_step s t \<Longrightarrow> 0 < nthreads s \<Longrightarrow> pool_inv s \<Longrightarrow> pool_inv t"
  unfolding pool_inv_def
  by (erule pool_step.cases)
     (blast intro: lock_inv_worker queue_inv_worker exit_inv_worker wake_inv_worker flight_inv_worker
       lock_inv_push queue_inv_push exit_inv_push wake_inv_push flight_inv_push
       lock_inv_destroy queue_inv_destroy exit_inv_destroy wake_inv_destroy flight_inv_destroy)+

lemma reach_pool_inv: "reach n s \<Longrightarrow> 0 < n \<Longrightarrow> pool_inv s"
  by (induction rule: reach.induct) (auto intro: pool_inv_init pool_inv_step simp: reach_nthreads)

text \<open>The task inside \<open>push_task\<close> passed the NULL tests.\<close>

lemma reach_no_null: "reach n s \<Longrightarrow> mpc s = MPush v \<Longrightarrow> tfunc v \<noteq> None \<and> targs v \<noteq> None"
proof (induction rule: reach.induct)
  case (init q n)
  then show ?case by (simp add: pool_init_def)
next
  case (step n s t)
  then show ?case
    by (auto elim!: pool_step.cases worker_stepE push_stepE destroy_stepE)
qed

section \<open>Draining at shutdown\<close>

text \<open>After the broadcast every step brings the pool closer to the end: a waiting task costs five
  steps, and each program counter has a weight.\<close>

fun w_weight :: "worker_pc \<Rightarrow> nat" where
  "w_weight Exited = 0"
| "w_weight Checking = 1"
| "w_weight AtLock = 2"
| "w_weight Woken = 2"
| "w_weight Asleep = 3"
| "w_weight (Running t) = 3"
| "w_weight (Popped v) = 4"

fun m_weight :: "nat \<Rightarrow> main_pc \<Rightarrow> nat" where
  "m_weight n DBcast = n + 3"
| "m_weight n (DJoin i) = (n - i) + 1"
| "m_weight n _ = 0"

definition drain_measure :: "pool_t \<Rightarrow> nat" where
  "drain_measure s = (if mpc s = DDone then 0 else 5 * length (q_list (pq s)))
     + (\<Sum>i < nthreads s. w_weight (wpc s i)) + m_weight (nthreads s) (mpc s)"

lemma drain_worker:
  assumes "worker_step i s t" and "i < nthreads s" and inv: "pool_inv s" and "broadcast_done (mpc s)"
  shows "drain_measure t < drain_measure s"
proof -
  have up: "(\<Sum>j < nthreads s. w_weight (((wpc s)(i := p)) j)) + w_weight (wpc s i)
          = (\<Sum>j < nthreads s. w_weight (wpc s j)) + w_weight p" for p
    by (rule sum_pc_upd [OF assms(2)])
  have "announced m" if "broadcast_done m" for m using that by (cases m) simp_all
  then have sd: "shutdown s" using inv assms(4) by (auto simp: pool_inv_def exit_inv_def)
  have ns: "wpc s i \<noteq> Asleep" using inv assms(2,4) by (auto simp: pool_inv_def exit_inv_def)
  have nd: "mpc s \<noteq> DDone" if "wpc s i \<noteq> Exited"
    using inv assms(2) that by (auto simp: pool_inv_def exit_inv_def)
  then have qi: "q_inv (pq s)" if "wpc s i \<noteq> Exited"
    using inv that by (auto simp: pool_inv_def queue_inv_def)
  note upi = up [of "wpc t i"]
  from assms(1) show ?thesis
    by (cases rule: worker_step.cases)
       (use sd ns nd qi upi in \<open>auto simp: drain_measure_def is_empty_q_list dest: pop_ok
          pop_ring_false simp del: fun_upd_apply simp add: fun_upd_same\<close>)
qed

lemma drain_destroy:
  "destroy_step s t \<Longrightarrow> broadcast_done (mpc s) \<Longrightarrow> drain_measure t < drain_measure s"
  by (erule destroy_stepE) (auto simp: drain_measure_def)

lemma drain_step:
  assumes "pool_step s t" and "pool_inv s" and "broadcast_done (mpc s)"
  shows "drain_measure t < drain_measure s \<and> broadcast_done (mpc t)"
  using assms(1)
proof (cases rule: pool_step.cases)
  case (worker i)
  then have "mpc t = mpc s" by (auto elim: worker_stepE)
  with drain_worker [OF worker(2,1) assms(2,3)] assms(3) show ?thesis by simp
next
  case pushing
  with assms(3) show ?thesis by (auto elim: push_stepE)
next
  case destroying
  with drain_destroy [OF destroying assms(3)] assms(3) show ?thesis
    by (auto elim: destroy_stepE)
qed

text \<open>The holder of the mutex can always move on.\<close>

lemma holder_moves:
  assumes "holds_lock (wpc s i)" and "q_inv (pq s)"
  shows "\<exists>t. worker_step i s t"
proof (cases "wpc s i")
  case Checking
  from q_deq_cases [OF assms(2)] consider "q_list (pq s) = []" |
    t q' where "pop (Some (pq s)) True = Inr (True, Some t, Some q')" "q_list (pq s) \<noteq> []" by auto
  then show ?thesis
  proof cases
    case 1
    then show ?thesis using Checking assms(2) w_wait [of s i] w_exit [of s i]
      by (cases "shutdown s") (auto simp: is_empty_q_list)
  next
    case 2
    then show ?thesis using Checking assms(2) w_pop [of s i t q']
      by (auto simp: is_empty_q_list)
  qed
next
  case (Popped v)
  then show ?thesis by (cases v) (blast intro: w_run w_continue)+
qed (use assms(1) in auto)

lemma worker_or_holder_moves:
  assumes "pool_inv s" and "\<not> main_holds (mpc s)" and "i < nthreads s" and "wpc s i \<noteq> Exited"
  shows "\<exists>j t. j < nthreads s \<and> worker_step j s t"
proof -
  have qi: "q_inv (pq s)" using assms by (auto simp: pool_inv_def exit_inv_def queue_inv_def)
  have free: "lock s = None \<or> (\<exists>j < nthreads s. holds_lock (wpc s j))"
    using assms(1,2) by (cases "lock s"; cases "the (lock s)") (auto simp: pool_inv_def lock_inv_def)
  show ?thesis
  proof (cases "\<exists>j < nthreads s. holds_lock (wpc s j)")
    case True
    then show ?thesis using holder_moves [OF _ qi] by blast
  next
    case False
    with free have lk: "lock s = None" by blast
    have "\<exists>t. worker_step i s t"
    proof (cases "wpc s i")
      case AtLock
      then show ?thesis using lk by (blast intro: w_lock)
    next
      case Woken
      then show ?thesis using lk by (blast intro: w_relock)
    next
      case (Running t)
      then show ?thesis by (blast intro: w_done)
    next
      case Asleep
      then show ?thesis by (blast intro: w_spurious)
    qed (use False assms in auto)
    with assms(3) show ?thesis by blast
  qed
qed

lemma drain_progress:
  assumes inv: "pool_inv s" and "broadcast_done (mpc s)" and "mpc s \<noteq> DDone"
  shows "\<exists>t. pool_step s t"
proof (cases "mpc s")
  case DBcast
  then show ?thesis by (blast intro: destroying d_unlock)
next
  case (DJoin k)
  have qi: "q_inv (pq s)" using inv assms(3) by (simp add: pool_inv_def queue_inv_def)
  show ?thesis
  proof (cases "k < nthreads s")
    case True
    show ?thesis
    proof (cases "wpc s k = Exited")
      case True
      with \<open>k < nthreads s\<close> DJoin show ?thesis by (blast intro: destroying d_join)
    next
      case False
      with worker_or_holder_moves [OF inv _ True] DJoin show ?thesis by (auto intro: worker)
    qed
  next
    case False
    from qi obtain q' where "free_queue (Some (pq s)) = Inr (Some q')"
      by (auto simp: free_queue_def elim: q_invE)
    with False DJoin show ?thesis by (blast intro: destroying d_free)
  qed
qed (use assms in auto)

section \<open>Properties\<close>

text \<open>A scheduler that executes one chosen step, for concrete runs: worker \<open>i\<close> moves, a call of
  \<open>push_task\<close> or \<open>destroy_pool\<close> begins, or the calling thread moves inside its call.\<close>

datatype act = W nat | CallPush task_node_t | CallDestroy | M

definition worker_exec :: "nat \<Rightarrow> pool_t \<Rightarrow> pool_t option" where
  "worker_exec i s = (case wpc s i of
       AtLock \<Rightarrow> if lock s = None then Some (s\<lparr>lock := Some (Worker i), wpc := (wpc s)(i := Checking)\<rparr>) else None
     | Checking \<Rightarrow>
         if is_empty (Some (pq s)) \<and> \<not> shutdown s then Some (s\<lparr>lock := None, wpc := (wpc s)(i := Asleep)\<rparr>)
         else if shutdown s \<and> is_empty (Some (pq s)) then Some (s\<lparr>lock := None, wpc := (wpc s)(i := Exited)\<rparr>)
         else (case q_deq (pq s) of None \<Rightarrow> None
               | Some (t, q') \<Rightarrow> Some (s\<lparr>pq := q', taken := taken s @ [t], wpc := (wpc s)(i := Popped (Some t))\<rparr>))
     | Asleep \<Rightarrow> Some (s\<lparr>wpc := (wpc s)(i := Woken)\<rparr>)
     | Woken \<Rightarrow> if lock s = None then Some (s\<lparr>lock := Some (Worker i), wpc := (wpc s)(i := Checking)\<rparr>) else None
     | Popped (Some t) \<Rightarrow> Some (s\<lparr>lock := None, wpc := (wpc s)(i := Running t)\<rparr>)
     | Popped None \<Rightarrow> Some (s\<lparr>lock := None, wpc := (wpc s)(i := AtLock)\<rparr>)
     | Running t \<Rightarrow> Some (s\<lparr>finished := finished s @ [t], wpc := (wpc s)(i := AtLock)\<rparr>)
     | Exited \<Rightarrow> None)"

definition main_exec :: "pool_t \<Rightarrow> pool_t option" where
  "main_exec s = (case mpc s of
       MPush t \<Rightarrow> if shutdown s then Some (s\<lparr>mpc := MIdle, lock := None, mret := Some False\<rparr>)
         else (case q_enq True t (pq s) of None \<Rightarrow> None
               | Some q' \<Rightarrow> Some (s\<lparr>pq := q', mpc := MSignal, accepted := accepted s @ [t]\<rparr>))
     | MSignal \<Rightarrow> (case find (\<lambda>i. wpc s i = Asleep) [0..<nthreads s] of
           Some i \<Rightarrow> Some (s\<lparr>mpc := MUnlock, wpc := (wpc s)(i := Woken)\<rparr>)
         | None \<Rightarrow> Some (s\<lparr>mpc := MUnlock\<rparr>))
     | MUnlock \<Rightarrow> Some (s\<lparr>mpc := MIdle, lock := None, mret := Some True\<rparr>)
     | DLocked \<Rightarrow> Some (s\<lparr>mpc := DSet, shutdown := True\<rparr>)
     | DSet \<Rightarrow> Some (s\<lparr>mpc := DBcast, wpc := wake \<circ> wpc s\<rparr>)
     | DBcast \<Rightarrow> Some (s\<lparr>mpc := DJoin 0, lock := None\<rparr>)
     | DJoin i \<Rightarrow> if i < nthreads s then (if wpc s i = Exited then Some (s\<lparr>mpc := DJoin (Suc i)\<rparr>) else None)
         else (case free_queue (Some (pq s)) of Inr (Some q') \<Rightarrow> Some (s\<lparr>mpc := DDone, pq := q'\<rparr>) | _ \<Rightarrow> None)
     | _ \<Rightarrow> None)"

fun exec_act :: "act \<Rightarrow> pool_t \<Rightarrow> pool_t option" where
  "exec_act (W i) s = (if i < nthreads s then worker_exec i s else None)"
| "exec_act (CallPush t) s =
     (if mpc s \<noteq> MIdle then None
      else if tfunc t = None \<or> targs t = None then Some (s\<lparr>mret := Some False\<rparr>)
      else if lock s = None then Some (s\<lparr>mpc := MPush t, lock := Some Main\<rparr>) else None)"
| "exec_act CallDestroy s =
     (if mpc s = MIdle \<and> lock s = None then Some (s\<lparr>mpc := DLocked, lock := Some Main\<rparr>) else None)"
| "exec_act M s = main_exec s"

fun exec_acts :: "act list \<Rightarrow> pool_t \<Rightarrow> pool_t option" where
  "exec_acts [] s = Some s"
| "exec_acts (a # as) s = (case exec_act a s of None \<Rightarrow> None | Some t \<Rightarrow> exec_acts as t)"

lemma q_deq_pop: "q_deq q = Some (t, q') \<Longrightarrow> pop (Some q) True = Inr (True, Some t, Some q')"
  by (auto simp: q_deq_def split: sum.splits prod.splits bool.splits option.splits)

lemma q_enq_push: "q_enq ok t q = Some q' \<Longrightarrow> push ok (Some q) t = Inr (True, Some q')"
  by (auto simp: q_enq_def split: sum.splits prod.splits bool.splits option.splits)

lemma worker_exec_sound: "worker_exec i s = Some t \<Longrightarrow> worker_step i s t"
  unfolding worker_exec_def
  by (auto split: worker_pc.splits if_splits option.splits
      intro: worker_step.intros dest: q_deq_pop)

lemmas main_rules = push_step.intros [THEN pushing] destroy_step.intros [THEN destroying]

lemma main_exec_sound: "main_exec s = Some t \<Longrightarrow> pool_step s t"
  unfolding main_exec_def
  by (auto split: main_pc.splits if_splits option.splits sum.splits simp: find_None_iff find_Some_iff
      intro: main_rules dest: q_enq_push)

lemma exec_act_sound: "exec_act a s = Some t \<Longrightarrow> pool_step s t"
  by (cases a) (auto split: if_splits intro: main_rules worker worker_exec_sound main_exec_sound)

lemma exec_acts_reach: "exec_acts as s = Some t \<Longrightarrow> reach n s \<Longrightarrow> reach n t"
  by (induction "as" arbitrary: s) (auto split: option.splits dest: exec_act_sound reach.step)

text \<open>Two workers; worker 0 sleeps on the empty queue, a task is pushed and wakes it, worker 1
  stays at the lock.\<close>

definition one_cell :: queue_t where
  "one_cell = \<lparr>q_buf = Block [None], cap = 1, len = 0, readAt = 0, insertAt = 0\<rparr>"

definition push_acts :: "act list" where
  "push_acts = [W 0, W 0, CallPush (sample_task 5), M]"

definition serve_acts :: "act list" where
  "serve_acts = push_acts @ [M, M, W 0, W 0, W 0]"

definition stop_acts :: "act list" where
  "stop_acts = serve_acts @ [CallDestroy, M, M, M, W 0, W 0, W 0, M, W 1, W 1, M, M]"

lemma one_cell_reach: "reach n (pool_init one_cell n)"
  by (rule reach.init) (simp_all add: one_cell_def q_inv_def q_list_def)

lemma push_acts_run:
  "case exec_acts push_acts (pool_init one_cell 2) of None \<Rightarrow> False
   | Some s \<Rightarrow> mpc s = MSignal \<and> q_list (pq s) = [sample_task 5]"
  by code_simp

lemma stop_acts_run:
  "case exec_acts stop_acts (pool_init one_cell 2) of None \<Rightarrow> False
   | Some s \<Rightarrow> mpc s = DDone \<and> accepted s = [sample_task 5]"
  by code_simp

lemma push_acts_reach:
  obtains s where "reach 2 s" "mpc s = MSignal" "q_list (pq s) = [sample_task 5]"
    "exec_acts push_acts (pool_init one_cell 2) = Some s"
  using push_acts_run exec_acts_reach [OF _ one_cell_reach, of push_acts 2]
  by (cases "exec_acts push_acts (pool_init one_cell 2)") auto

lemma stop_acts_reach:
  obtains s where "reach 2 s" "mpc s = DDone" "accepted s = [sample_task 5]"
  using stop_acts_run exec_acts_reach [OF _ one_cell_reach, of stop_acts 2]
  by (cases "exec_acts stop_acts (pool_init one_cell 2)") auto

text \<open>C22: Mutual exclusion: in every reachable state of the pool at most one thread is inside a
  critical section, whether a worker testing, popping or about to release, or the thread inside
  \<open>push_task\<close> or \<open>destroy_pool\<close>.  So the queue is only ever touched by one thread.\<close>

theorem pool_mutual_exclusion:
  assumes "reach n s" and "i < n" and "holds_lock (wpc s i)"
  shows "\<not> main_holds (mpc s) \<and> (\<forall>j < n. holds_lock (wpc s j) \<longrightarrow> j = i)"
  using assms reach_lock_inv [OF assms(1)] reach_nthreads [OF assms(1)]
  by (auto simp: lock_inv_def)

theorem pool_mutual_exclusion_witness:
  "\<exists>s. reach 2 s \<and> holds_lock (wpc s 0) \<and> \<not> main_holds (mpc s) \<and> \<not> holds_lock (wpc s 1)"
proof -
  obtain s where s: "exec_acts [W 0] (pool_init one_cell 2) = Some s" "holds_lock (wpc s 0)"
    by (simp add: worker_exec_def pool_init_def)
  have r: "reach 2 s" using exec_acts_reach [OF s(1) one_cell_reach] .
  have "\<not> main_holds (mpc s) \<and> (\<forall>j < 2. holds_lock (wpc s j) \<longrightarrow> j = 0)"
    using pool_mutual_exclusion [OF r _ s(2)] by simp
  with r s(2) show ?thesis by (metis one_less_numeral_iff semiring_norm(76) zero_neq_one)
qed

text \<open>C21: No task is lost, duplicated or reordered on its way to the workers: as long as the pool
  is alive the tasks \<open>push_task\<close> accepted are, in order, those the workers popped followed by
  those waiting in the ring, and each popped task is either executed to its end or in the hands
  of exactly one worker.\<close>

theorem pool_conserves_tasks:
  assumes "reach n s" and "0 < n" and "mpc s \<noteq> DDone"
  shows "accepted s = taken s @ q_list (pq s) \<and> mset (taken s) = mset (finished s) + flights s"
  using reach_pool_inv [OF assms(1,2)] assms(3)
  by (simp add: pool_inv_def queue_inv_def flight_inv_def)

theorem pool_conserves_tasks_witness:
  "\<exists>s. reach 2 s \<and> q_list (pq s) = [sample_task 5] \<and> accepted s = taken s @ [sample_task 5]"
proof -
  obtain s where s: "reach 2 s" "mpc s = MSignal" "q_list (pq s) = [sample_task 5]"
    by (rule push_acts_reach)
  with pool_conserves_tasks [OF s(1)] show ?thesis by auto
qed

text \<open>C13: No lost wake-up: whenever a task waits and the signal for it has been sent, some worker
  is neither asleep in \<open>pthread_cond_wait\<close> nor gone, so the task cannot be stranded while
  everybody sleeps.\<close>

theorem pool_no_lost_wakeup:
  assumes "reach n s" and "0 < n" and "mpc s \<noteq> DDone" and "mpc s \<noteq> MSignal"
    and "q_list (pq s) \<noteq> []"
  shows "\<exists>i < n. wpc s i \<noteq> Asleep \<and> wpc s i \<noteq> Exited"
  using reach_pool_inv [OF assms(1,2)] reach_nthreads [OF assms(1)] assms(3-5)
  by (auto simp: pool_inv_def wake_inv_def)

theorem pool_no_lost_wakeup_witness:
  "\<exists>s. reach 2 s \<and> q_list (pq s) \<noteq> [] \<and> (\<exists>i < 2. wpc s i \<noteq> Asleep \<and> wpc s i \<noteq> Exited)"
proof -
  have "case exec_acts (push_acts @ [M]) (pool_init one_cell 2) of None \<Rightarrow> False
        | Some s \<Rightarrow> mpc s = MUnlock \<and> q_list (pq s) \<noteq> []"
    by code_simp
  then obtain s where s: "exec_acts (push_acts @ [M]) (pool_init one_cell 2) = Some s"
    "mpc s = MUnlock" "q_list (pq s) \<noteq> []"
    by (auto split: option.splits)
  have r: "reach 2 s" using exec_acts_reach [OF s(1) one_cell_reach] .
  show ?thesis using pool_no_lost_wakeup [OF r] r s(2,3) by auto
qed

text \<open>C1: A graceful drain: when \<open>destroy_pool\<close> has returned, every worker has exited and every
  task \<open>push_task\<close> ever accepted has been executed to its end, exactly as often as it was
  pushed.  The ring is never freed with a task in it.\<close>

theorem pool_destroyed_all_done:
  assumes "reach n s" and "0 < n" and "mpc s = DDone"
  shows "mset (finished s) = mset (accepted s) \<and> (\<forall>i < n. wpc s i = Exited)"
proof -
  have inv: "pool_inv s" using reach_pool_inv [OF assms(1,2)] .
  then have ex: "\<forall>i < n. wpc s i = Exited" and "accepted s = taken s"
    using assms(3) reach_nthreads [OF assms(1)] by (auto simp: pool_inv_def exit_inv_def)
  moreover have "flights s = {#}"
    using ex reach_nthreads [OF assms(1)] by (simp add: flights_def)
  ultimately show ?thesis using inv by (simp add: pool_inv_def flight_inv_def)
qed

theorem pool_destroyed_all_done_witness:
  "\<exists>s. reach 2 s \<and> mpc s = DDone \<and> mset (finished s) = {#sample_task 5#}"
proof -
  obtain s where s: "reach 2 s" "mpc s = DDone" "accepted s = [sample_task 5]"
    by (rule stop_acts_reach)
  with pool_destroyed_all_done [OF s(1)] show ?thesis by auto
qed

text \<open>C23: Shutdown terminates without deadlock: once \<open>destroy_pool\<close> has broadcast, every step of
  any thread lowers \<open>drain_measure\<close>, and as long as the pool is not released some thread can
  step.  So every schedule reaches the release after at most \<open>drain_measure\<close> steps, given that
  the tasks themselves return.\<close>

theorem pool_shutdown_terminates:
  assumes "reach n s" and "0 < n" and "broadcast_done (mpc s)"
  shows "(\<forall>t. pool_step s t \<longrightarrow> drain_measure t < drain_measure s \<and> broadcast_done (mpc t))
       \<and> (mpc s \<noteq> DDone \<longrightarrow> (\<exists>t. pool_step s t))"
  using drain_step [OF _ reach_pool_inv [OF assms(1,2)] assms(3)]
    drain_progress [OF reach_pool_inv [OF assms(1,2)] assms(3)] by blast

theorem pool_shutdown_terminates_witness:
  "\<exists>s. reach 2 s \<and> mpc s = DBcast \<and> (\<exists>t. pool_step s t \<and> drain_measure t < drain_measure s)"
proof -
  have "case exec_acts (push_acts @ [M, M, CallDestroy, M, M]) (pool_init one_cell 2) of
          None \<Rightarrow> False | Some s \<Rightarrow> mpc s = DBcast"
    by code_simp
  then obtain s where s: "mpc s = DBcast"
    "exec_acts (push_acts @ [M, M, CallDestroy, M, M]) (pool_init one_cell 2) = Some s"
    by (auto split: option.splits)
  have r: "reach 2 s" using exec_acts_reach [OF s(2) one_cell_reach] .
  from pool_shutdown_terminates [OF r] s(1) r show ?thesis by fastforce
qed

text \<open>After the shutdown flag is set no task is accepted any more, and a task whose function
  or argument is NULL is never accepted: a step that accepts a task finds shutdown false and a
  task with both, appends exactly that task to the ring, and leads to the return value true.\<close>

theorem pool_accepts_only_before_shutdown:
  assumes "reach n s" and "0 < n" and "pool_step s t" and "accepted t \<noteq> accepted s"
  shows "\<not> shutdown s \<and> \<not> shutdown t \<and> mpc t = MSignal
       \<and> (\<exists>v. mpc s = MPush v \<and> tfunc v \<noteq> None \<and> targs v \<noteq> None
            \<and> accepted t = accepted s @ [v] \<and> q_list (pq t) = q_list (pq s) @ [v])"
proof -
  have qi: "mpc s \<noteq> DDone \<Longrightarrow> q_inv (pq s)"
    using reach_pool_inv [OF assms(1,2)] by (simp add: pool_inv_def queue_inv_def)
  from assms(3) show ?thesis
  proof (cases rule: pool_step.cases)
    case pushing
    then show ?thesis using assms(4) qi by (cases rule: push_step.cases)
      (auto dest: push_ok reach_no_null [OF assms(1)])
  qed (use assms(4) in \<open>auto elim!: worker_stepE destroy_stepE\<close>)
qed

theorem pool_accepts_only_before_shutdown_witness:
  "\<exists>s t. reach 1 s \<and> pool_step s t \<and> \<not> shutdown s \<and> q_list (pq t) = q_list (pq s) @ [sample_task 5]"
proof -
  have "case exec_acts [CallPush (sample_task 5)] (pool_init one_cell 1) of None \<Rightarrow> False
        | Some s \<Rightarrow> mpc s = MPush (sample_task 5) \<and> (case exec_act M s of None \<Rightarrow> False
            | Some t \<Rightarrow> accepted t \<noteq> accepted s)"
    by code_simp
  then obtain s t where s: "exec_acts [CallPush (sample_task 5)] (pool_init one_cell 1) = Some s"
    "mpc s = MPush (sample_task 5)" "exec_act M s = Some t" "accepted t \<noteq> accepted s"
    by (auto split: option.splits)
  have r: "reach 1 s" using exec_acts_reach [OF s(1) one_cell_reach] .
  from pool_accepts_only_before_shutdown [OF r _ exec_act_sound [OF s(3)] s(4)] s r
  show ?thesis using exec_act_sound [OF s(3)] by auto
qed

end
