(* ===== verification/Serve.thy ===== *)
theory Serve
  imports Orphans ThreadPool
begin

text \<open>
  The life of the server: \<open>init_server\<close>, \<open>serve_and_listen\<close> with its loop and its two exits, the signal
  handler, and \<open>main\<close>.  The results of the system calls are arguments; the loop consumes a list of
  what successive calls of \<open>kevent\<close> return, each with the tasks the workers finished and the signals
  that arrived in the meantime.
\<close>

section \<open>Initialisation\<close>

definition QUEUE_SIZE :: int where
  "QUEUE_SIZE = 128"

definition SIGINT :: int where "SIGINT = 2"
definition SIGTERM :: int where "SIGTERM = 15"

text \<open>The fields \<open>init_server\<close> assigns; None is the indeterminate content of \<open>main\<close>'s local struct.  A
  pool pointer may be assigned and NULL.\<close>

record 'm boot_t =
  bo_route :: "'m option"
  bo_pool :: "pool_res option option"
  bo_recv_timeout :: "int option"
  bo_send_timeout :: "int option"
  bo_shutdown :: "bool option"
  bo_efd :: "int option"
  bo_list :: "list_t option"

definition no_boot :: "'m boot_t" where
  "no_boot = \<lparr>bo_route = None, bo_pool = None, bo_recv_timeout = None, bo_send_timeout = None,
     bo_shutdown = None, bo_efd = None, bo_list = None\<rparr>"

text \<open>\<open>sigint\<close>, \<open>sigterm\<close>: what the two calls of \<open>sigaction\<close> answer; \<open>kq\<close>: what \<open>kqueue\<close> answers.\<close>

definition init_server ::
  "('m, 'f route_handler_t) khash \<Rightarrow> pool_env \<Rightarrow> int \<Rightarrow> int \<Rightarrow> int \<Rightarrow> 'm boot_t \<Rightarrow> 'm boot_t res" where
  "init_server K pe sigint sigterm kq b0 =
     (case init_route K of (r, route) \<Rightarrow>
        if r \<noteq> 0 then Inr b0
        else
          let b1 = b0\<lparr>bo_route := route\<rparr> in
          rbind (create_pool pe QUEUE_SIZE) (\<lambda>(ok, pool).
          let b2 = b1\<lparr>bo_pool := Some (if ok then Some pool else None)\<rparr> in
          if \<not> ok then Inr b2
          else
            let b3 = b2\<lparr>bo_recv_timeout := Some 10, bo_send_timeout := Some 10, bo_shutdown := Some False\<rparr> in
            if sigint < 0 then Inr b3
            else if sigterm < 0 then Inr b3
            else
              let b4 = b3\<lparr>bo_efd := Some kq\<rparr> in
              if kq < 0 then Inr b4
              else Inr (b4\<lparr>bo_list := Some init_list\<rparr>)))"

section \<open>The loop\<close>

definition shut_down_server :: "int \<Rightarrow> bool \<Rightarrow> bool" where
  "shut_down_server sig flag = (if sig = SIGINT \<or> sig = SIGTERM then True else flag)"

text \<open>One call of \<open>kevent\<close>: interrupted, failed, or a batch of events; \<open>p_tasks\<close> are the tasks that workers
  ran before it returned, \<open>p_signals\<close> the signals that arrived.\<close>

datatype 'p poll_result = Interrupted | Failed | Events "'p kevent_t list"

record ('m, 'f, 'p) poll_t =
  p_tasks :: "(nat \<times> ('m, 'f, 'p) worker_env) list"
  p_signals :: "int list"
  p_result :: "'p poll_result"

fun run_tasks :: "(nat \<times> ('m, 'f, 'p) worker_env) list \<Rightarrow> ('m, 'p) server_t \<Rightarrow> ('m, 'p) server_t res" where
  "run_tasks [] s = Inr s"
| "run_tasks ((i, W) # ts) s = rbind (handle_conn W i (take_task i s)) (run_tasks ts)"

text \<open>None when the loop has not returned after the given calls.\<close>

fun event_loop ::
  "client_t \<Rightarrow> bool \<Rightarrow> ('m, 'f, 'p) poll_t list \<Rightarrow> ('m, 'p) server_t \<Rightarrow> ('m, 'p) server_t res option" where
  "event_loop c0 flag [] s = (if flag then Some (Inr s) else None)"
| "event_loop c0 flag (p # ps) s =
     (if flag then Some (Inr s)
      else
        let flag1 = fold shut_down_server (p_signals p) flag in
        (case run_tasks (p_tasks p) s of
           Inl f \<Rightarrow> Some (Inl f)
         | Inr s1 \<Rightarrow>
             (case p_result p of
                Interrupted \<Rightarrow> event_loop c0 flag1 ps s1
              | Failed \<Rightarrow> Some (Inr s1)
              | Events es \<Rightarrow>
                  (case handle_events c0 es s1 of
                     None \<Rightarrow> None
                   | Some (Inl f) \<Rightarrow> Some (Inl f)
                   | Some (Inr s2) \<Rightarrow> event_loop c0 flag1 ps s2))))"

section \<open>The end\<close>

text \<open>The three calls both exits make: destroy the route table, destroy the pool, whose workers first
  run what is still queued, and free the client list.  \<open>W i\<close> is what surrounds the worker of task \<open>i\<close>.
  The tasks run one after the other, in the order of the queue, and a task that a worker has in hand when the
  loop ends counts as one of them: it may also run before the table is destroyed, or beside another.\<close>

fun drain :: "(nat \<Rightarrow> ('m, 'f, 'p) worker_env) \<Rightarrow> nat list \<Rightarrow> ('m, 'p) server_t \<Rightarrow> ('m, 'p) server_t res" where
  "drain W [] s = Inr s"
| "drain W (i # is) s = rbind (handle_conn (W i) i (take_task i s)) (drain W is)"

definition release ::
  "('m, 'f route_handler_t) khash \<Rightarrow> (nat \<Rightarrow> ('m, 'f, 'p) worker_env) \<Rightarrow> pool_res \<Rightarrow> ('m, 'p) server_t
     \<Rightarrow> (('m, 'p) server_t \<times> pool_res) res option" where
  "release K W pool s =
     (case (case sv_route s of None \<Rightarrow> Inl UseAfterFree
            | Some table \<Rightarrow>
                rbind (destroy_route K table (sv_heap s)) (\<lambda>(_, h).
                rbind (drain W (sv_pool s) (s\<lparr>sv_route := None, sv_heap := h\<rparr>)) (\<lambda>s1.
                rbind (destroy_pool pool MAX_THREAD_COUNT) (\<lambda>pool1. Inr (s1, pool1))))) of
        Inl f \<Rightarrow> Some (Inl f)
      | Inr (s1, pool1) \<Rightarrow>
          map_option (\<lambda>r. rbind r (\<lambda>(list, h, t).
            Inr (s1\<lparr>sv_clients := (list, h), sv_conns := t, sv_kq := filter (\<lambda>(fd, _). fd \<in> set t) (sv_kq s1)\<rparr>, pool1)))
            (free_list (fst (sv_clients s1)) (snd (sv_clients s1)) (sv_conns s1)))"

text \<open>\<open>serve_and_listen\<close>.  Descriptor 0 is never the result of \<open>socket\<close>, since it is open from the start.\<close>

definition serve_and_listen ::
  "('m, 'f route_handler_t) khash \<Rightarrow> (nat \<Rightarrow> ('m, 'f, 'p) worker_env) \<Rightarrow> net_env \<Rightarrow> listener_t \<Rightarrow> int \<Rightarrow> int \<Rightarrow> char list option
     \<Rightarrow> client_t \<Rightarrow> bool \<Rightarrow> ('m, 'f, 'p) poll_t list \<Rightarrow> pool_res \<Rightarrow> ('m, 'p) server_t
     \<Rightarrow> (int \<times> ('m, 'p) server_t \<times> pool_res) res option" where
  "serve_and_listen K W env ln0 nonblock kev address c0 flag polls pool s =
     (case init_listener env ln0 nonblock kev address of
        Inl f \<Rightarrow> Some (Inl f)
      | Inr (code, ln) \<Rightarrow>
          let s1 = s\<lparr>sv_ln := ln, sv_files := (if ln_fd ln \<le> 0 then sv_files s else ln_fd ln # sv_files s)\<rparr> in
          if code \<noteq> 0 then
            map_option (\<lambda>r. rbind r (\<lambda>(s2, pool1). Inr (1, s2, pool1)))
              (release K W pool (s1\<lparr>sv_files := listener_exit ln (sv_files s1)\<rparr>))
          else
            (case event_loop c0 flag polls s1 of
               None \<Rightarrow> None
             | Some (Inl f) \<Rightarrow> Some (Inl f)
             | Some (Inr s2) \<Rightarrow>
                 map_option (\<lambda>r. rbind r (\<lambda>(s3, pool1). Inr (0, s3, pool1)))
                   (release K W pool (s2\<lparr>sv_files := s_close ln (sv_files s2)\<rparr>))))"

section \<open>The program\<close>

text \<open>The two functions \<open>main\<close> registers.\<close>

datatype handler_fn = HomePage | ApiHomePage

fun run_handler :: "handler_fn \<Rightarrow> response_ctx_t \<Rightarrow> 'p request_ctx_t \<Rightarrow> heap \<Rightarrow> (response_ctx_t \<times> heap) res" where
  "run_handler HomePage = home_page"
| "run_handler ApiHomePage = api_home_page"

text \<open>\<open>main\<close> after \<open>init_server\<close>: a struct that is not completely initialised is used all the same.  The
  descriptor that \<open>kqueue\<close> returned is among the open ones from here on; nothing ever closes it.  The
  address is \<open>:8080\<close>, the result 0.\<close>

definition main_server ::
  "('m, handler_fn route_handler_t) khash \<Rightarrow> (nat \<Rightarrow> ('m, handler_fn, 'p) worker_env) \<Rightarrow> net_env \<Rightarrow> listener_t
     \<Rightarrow> int \<Rightarrow> int \<Rightarrow> client_t \<Rightarrow> ('m, handler_fn, 'p) poll_t list \<Rightarrow> 'm boot_t \<Rightarrow> ('m, 'p) server_t
     \<Rightarrow> (int \<times> ('m, 'p) server_t \<times> pool_res) res option" where
  "main_server K W env ln0 nonblock kev c0 polls b s =
     (let b1 = b\<lparr>bo_recv_timeout := Some 60, bo_send_timeout := Some 60\<rparr> in
      case (bo_route b1, bo_pool b1, bo_shutdown b1, bo_efd b1, bo_list b1) of
        (Some route, Some (Some pool), Some flag, Some efd, Some list) \<Rightarrow>
          let s1 = s\<lparr>sv_route := Some route, sv_clients := (list, snd (sv_clients s)), sv_files := efd # sv_files s\<rparr> in
          (case rbind (register_route K s1 ''/'' HomePage) (\<lambda>s2. register_route K s2 ''/api'' ApiHomePage) of
             Inl f \<Rightarrow> Some (Inl f)
           | Inr s3 \<Rightarrow>
               map_option (\<lambda>r. rbind r (\<lambda>(_, s4, pool1). Inr (0, s4, pool1)))
                 (serve_and_listen K W env ln0 nonblock kev (Some '':8080'') c0 flag polls pool s3))
      | _ \<Rightarrow> Some (Inl Uninit))"

section \<open>Lemmas\<close>

lemma fold_signals: "fold shut_down_server sigs flag = (flag \<or> SIGINT \<in> set sigs \<or> SIGTERM \<in> set sigs)"
  by (induction sigs arbitrary: flag) (auto simp: shut_down_server_def)

lemma event_loop_True: "event_loop c0 True ps s = Some (Inr s)"
  by (cases ps) simp_all

lemma quiet_loop:
  assumes "\<forall>p \<in> set ps. p_tasks p = [] \<and> p_result p \<in> {Interrupted, Events []}"
  shows "event_loop c0 flag ps s
     = (if flag \<or> (\<exists>p \<in> set ps. SIGINT \<in> set (p_signals p) \<or> SIGTERM \<in> set (p_signals p)) then Some (Inr s) else None)"
  using assms by (induction ps arbitrary: flag) (auto simp: Let_def fold_signals event_loop_True)

lemma destroy_full_pool:
  assumes "r_pool pool" and "r_queue pool = Some q" and "q_inv q" and "r_threads pool = MAX_THREAD_COUNT"
  shows "\<exists>pool'. destroy_pool pool MAX_THREAD_COUNT = Inr pool' \<and> pool'\<lparr>r_shutdown := False\<rparr> = no_res"
  using assms free_queue_heap_valid [OF assms(3)] by (simp add: destroy_pool_def Let_def no_res_def)

lemma release_idle:
  assumes "server_ok s" and "sv_pool s = []" and "sv_route s = Some table" and "destroy_route K table (sv_heap s) = Inr (0, h)"
    and "r_pool pool" and "r_queue pool = Some q" and "q_inv q" and "r_threads pool = MAX_THREAD_COUNT"
  shows "\<exists>cl pool'. release K W pool s = Some (Inr (s\<lparr>sv_route := None, sv_heap := h, sv_clients := cl, sv_conns := [], sv_kq := []\<rparr>, pool'))
     \<and> pool'\<lparr>r_shutdown := False\<rparr> = no_res \<and> l_head (fst cl) = None"
proof -
  obtain pool' where p: "destroy_pool pool MAX_THREAD_COUNT = Inr pool'" "pool'\<lparr>r_shutdown := False\<rparr> = no_res"
    using destroy_full_pool [OF assms(5-8)] by blast
  obtain cs where cs: "holds (sv_clients s) cs" "set (sv_conns s) \<subseteq> cl_fd ` set cs"
    using assms(1) by (auto simp: server_inv_def tracks_def)
  then obtain ps where ps: "dll (snd (sv_clients s)) (fst (sv_clients s)) ps" "cs = map (client_at (snd (sv_clients s))) ps"
    by (auto simp: holds_def)
  have "set (sv_conns s) \<subseteq> cl_fd ` client_at (snd (sv_clients s)) ` set ps" using cs(2) ps(2) by (simp add: image_image)
  then have "set (sv_conns s) - cl_fd ` client_at (snd (sv_clients s)) ` set ps = {}" by blast
  with free_list_dll [OF ps(1), of "sv_conns s"] obtain hh where
    f: "free_list (fst (sv_clients s)) (snd (sv_clients s)) (sv_conns s)
      = Some (Inr ((fst (sv_clients s))\<lparr>l_head := None\<rparr>, hh, []))" by auto
  let ?cl = "((fst (sv_clients s))\<lparr>l_head := None\<rparr>, hh)"
  have "release K W pool s = Some (Inr (s\<lparr>sv_route := None, sv_heap := h, sv_clients := ?cl, sv_conns := [], sv_kq := []\<rparr>, pool'))"
    using assms(2-4) p(1) f by (simp add: release_def)
  moreover have "l_head (fst ?cl) = None" by simp
  ultimately show ?thesis using p(2) by blast
qed

lemma handle_conn_no_table:
  assumes "asks (we_llhttp W) q m u d" and "sv_tasks s i = Some tn" and "str_is (sv_heap s) (t_buffer tn) q"
    and "get_mothod_type m = GET" and "sv_route s = None"
  shows "handle_conn W i s = Inl UseAfterFree"
  by (rule handle_conn_parsed [OF assms(1-3)]) (use assms(4,5) in \<open>simp add: respond_def\<close>)

text \<open>Before \<open>main\<close>: nothing is connected, and an empty client list is well formed.\<close>

definition booted :: "('m, 'p) server_t \<Rightarrow> bool" where
  "booted s \<longleftrightarrow> ready (sv_heap s) \<and> holds (init_list, snd (sv_clients s)) [] \<and> sv_conns s = [] \<and> sv_kq s = []
     \<and> sv_tasks s = Map.empty \<and> sv_pool s = []"

lemma register_route_step:
  assumes "khash_spec K good" and "\<forall>m k. fst (snd (kh_put K m k)) \<noteq> -1"
    and "sv_route s = Some m" and "routes_ok K good h0 rs L m (sv_heap s)" and "int (length p) < INT_MAX"
  shows "\<exists>m' h' L'. register_route K s p f = Inr (s\<lparr>sv_route := Some m', sv_heap := h'\<rparr>)
     \<and> routes_ok K good h0 (rs @ [(p, f)]) L' m' h' \<and> card L' = card L + (if map_of rs p = None then 0 else 1)"
proof -
  obtain m' h' L' where "route_register K m p f (sv_heap s) = Inr (if map_of rs p = None then 0 else 2, m', h')"
    "routes_ok K good h0 (rs @ [(p, f)]) L' m' h'" "card L' = card L + (if map_of rs p = None then 0 else 1)"
    using route_register_step [OF assms(1,2,4,5), of f] by blast
  moreover from this(1) have "register_route K s p f = Inr (s\<lparr>sv_route := Some m', sv_heap := h'\<rparr>)"
    using assms(3) by (simp add: register_route_def)
  ultimately show ?thesis by blast
qed

lemma lookup_routes:
  assumes "routes_ok K good h0 rs L m h"
  shows "route_lookup K hd0 m p = (case map_of rs p of None \<Rightarrow> (False, hd0) | Some f \<Rightarrow> (True, \<lparr>func = f\<rparr>))"
proof -
  have "map_of rs p = map_option (\<lambda>(a, v). func v) (entry K m p)" using assms by (simp add: routes_ok_def)
  then show ?thesis by (auto simp: lookup_entry split: option.splits)
qed

lemma main_routes:
  assumes "khash_spec K good" and "\<forall>m k. fst (snd (kh_put K m k)) \<noteq> -1" and "kh_init K = Some m0"
    and "sv_route s = Some m0" and "ready (sv_heap s)"
  shows "\<exists>m h. rbind (register_route K s ''/'' f) (\<lambda>s2. register_route K s2 ''/api'' g)
       = Inr (s\<lparr>sv_route := Some m, sv_heap := h\<rparr>)
     \<and> routes_ok K good (sv_heap s) [(''/'', f), (''/api'', g)] {} m h"
proof -
  have r0: "routes_ok K good (sv_heap s) [] {} m0 (sv_heap s)" by (rule routes_ok_init [OF assms(1,3,5)])
  obtain m1 h1 L1 where 1: "register_route K s ''/'' f = Inr (s\<lparr>sv_route := Some m1, sv_heap := h1\<rparr>)"
    "routes_ok K good (sv_heap s) [(''/'', f)] L1 m1 h1" "card L1 = 0"
    using register_route_step [OF assms(1,2,4) r0, of "''/''" f] by (auto simp: INT_MAX_def)
  let ?s = "s\<lparr>sv_route := Some m1, sv_heap := h1\<rparr>"
  have r1: "sv_route ?s = Some m1" "routes_ok K good (sv_heap s) [(''/'', f)] L1 m1 (sv_heap ?s)" using 1(2) by simp_all
  obtain m2 h2 L2 where 2: "register_route K ?s ''/api'' g = Inr (?s\<lparr>sv_route := Some m2, sv_heap := h2\<rparr>)"
    "routes_ok K good (sv_heap s) [(''/'', f), (''/api'', g)] L2 m2 h2" "card L2 = 0"
    using register_route_step [OF assms(1,2) r1, of "''/api''" g] 1(3) by (auto simp: INT_MAX_def)
  moreover have "L2 = {}" using 2(2,3) by (simp add: routes_ok_def)
  ultimately show ?thesis using 1(1) by auto
qed

lemma init_server_complete:
  assumes "m_cells pe" and "init_server K pe sigint sigterm kq no_boot = Inr b" and "bo_list b \<noteq> None"
  obtains m0 pool q where "kh_init K = Some m0" and "bo_route b = Some m0" and "bo_pool b = Some (Some pool)"
    and "bo_shutdown b = Some False" and "bo_efd b = Some kq" and "bo_list b = Some init_list"
    and "r_pool pool" and "r_queue pool = Some q" and "q_inv q" and "q_list q = []" and "r_threads pool = MAX_THREAD_COUNT"
proof -
  obtain ok r where c: "create_pool pe QUEUE_SIZE = Inr (ok, r)"
    "ok \<longrightarrow> (\<exists>q. r_pool r \<and> r_queue r = Some q \<and> q_inv q \<and> q_list q = [] \<and> r_threads r = MAX_THREAD_COUNT)"
    using create_pool_cases [OF assms(1), of QUEUE_SIZE] by force
  obtain m0 where m: "kh_init K = Some m0"
    using assms(2,3) by (cases "kh_init K") (auto simp: init_server_def init_route_def no_boot_def)
  then show thesis
    using assms(2,3) c that by (auto simp: init_server_def init_route_def no_boot_def Let_def split: if_splits)
qed

lemma main_start:
  assumes "khash_spec K good" and "\<forall>m k. fst (snd (kh_put K m k)) \<noteq> -1" and "m_cells pe" and "booted s"
    and "init_server K pe sigint sigterm kq no_boot = Inr b" and "bo_list b \<noteq> None"
  shows "\<exists>m h pool q. routes_ok K good (sv_heap s) [(''/'', HomePage), (''/api'', ApiHomePage)] {} m h
     \<and> r_pool pool \<and> r_queue pool = Some q \<and> q_inv q \<and> q_list q = [] \<and> r_threads pool = MAX_THREAD_COUNT
     \<and> (\<forall>W env ln0 nonblock kev c0 polls. main_server K W env ln0 nonblock kev c0 polls b s
         = map_option (\<lambda>r. rbind r (\<lambda>(_, s2, pool2). Inr (0, s2, pool2)))
             (serve_and_listen K W env ln0 nonblock kev (Some '':8080'') c0 False polls pool
               (s\<lparr>sv_clients := (init_list, snd (sv_clients s)), sv_files := kq # sv_files s, sv_route := Some m, sv_heap := h\<rparr>)))"
proof -
  obtain m0 pool q where i: "kh_init K = Some m0" and b: "bo_route b = Some m0" "bo_pool b = Some (Some pool)"
    "bo_shutdown b = Some False" "bo_efd b = Some kq" "bo_list b = Some init_list"
    and p: "r_pool pool" "r_queue pool = Some q" "q_inv q" "q_list q = []" "r_threads pool = MAX_THREAD_COUNT"
    by (rule init_server_complete [OF assms(3,5,6)])
  let ?s = "s\<lparr>sv_route := Some m0, sv_clients := (init_list, snd (sv_clients s)), sv_files := kq # sv_files s\<rparr>"
  have "sv_route ?s = Some m0" "ready (sv_heap ?s)" using assms(4) by (simp_all add: booted_def)
  from main_routes [OF assms(1,2) i this, of HomePage ApiHomePage] obtain m h where
    r: "rbind (register_route K ?s ''/'' HomePage) (\<lambda>s2. register_route K s2 ''/api'' ApiHomePage)
         = Inr (?s\<lparr>sv_route := Some m, sv_heap := h\<rparr>)"
       "routes_ok K good (sv_heap s) [(''/'', HomePage), (''/api'', ApiHomePage)] {} m h" by auto
  have "main_server K W env ln0 nonblock kev c0 polls b s
         = map_option (\<lambda>r. rbind r (\<lambda>(_, s2, pool2). Inr (0, s2, pool2)))
             (serve_and_listen K W env ln0 nonblock kev (Some '':8080'') c0 False polls pool
               (s\<lparr>sv_clients := (init_list, snd (sv_clients s)), sv_files := kq # sv_files s, sv_route := Some m, sv_heap := h\<rparr>))"
    for W env ln0 nonblock kev c0 polls
    using b r(1) by (simp add: main_server_def)
  with r(2) p show ?thesis by blast
qed

section \<open>Examples\<close>

text \<open>The program before \<open>main\<close>, a machine on which every call succeeds, and a worker that parses
  \<open>GET /\<close> whatever was sent.\<close>

definition start0 :: "((key \<times> handler_fn route_handler_t) list, unit) server_t" where
  "start0 = \<lparr>sv_ln = listener0, sv_route = None, sv_clients = (init_list, nheap0), sv_conns = [], sv_files = [0, 1, 2],
     sv_kq = [], sv_heap = heap0, sv_tasks = Map.empty, sv_tnext = 0, sv_pool = [], sv_out = (\<lambda>_. [])\<rparr>"

definition pool_works :: pool_env where
  "pool_works = \<lparr>m_pool = True, m_queue = True, m_cells = True, mutex_ok = True, cond_ok = True, thread_ok = (\<lambda>_. True)\<rparr>"

definition worker1 :: "((key \<times> handler_fn route_handler_t) list, handler_fn, unit) worker_env" where
  "worker1 = \<lparr>we_khash = assoc_khash,
     we_llhttp = \<lparr>lh_init = (), lh_execute = (\<lambda>_ _. (request_events ''GET'' ''/'' [(''Host'', ''h'')] [EvMessageComplete], 0, ()))\<rparr>,
     we_files = files0, we_run = run_handler, we_junk = (\<lambda>_. CHR ''?''), we_ext = replicate 10 (CHR ''?''),
     we_handler = \<lparr>func = HomePage\<rparr>, we_kevent = 0\<rparr>"

lemma booted_start0: "booted start0"
  using ready_heap0 init_holds by (simp add: booted_def start0_def)

lemma assoc_khash_memory: "\<forall>m k. fst (snd (kh_put assoc_khash m k)) \<noteq> -1"
  by (auto simp: assoc_khash_def)

lemma boot_works: "\<exists>b. init_server assoc_khash pool_works 0 0 4 no_boot = Inr b \<and> bo_list b \<noteq> None"
proof -
  obtain r where "create_pool pool_works QUEUE_SIZE = Inr (True, r)"
    by (simp add: create_pool_def pool_works_def init_queue_def Let_def create_threads.simps MAX_THREAD_COUNT_def
        no_res_def fresh_queue_def)
  then show ?thesis by (simp add: init_server_def init_route_def assoc_khash_def Let_def)
qed

lemma listen_8080: "\<exists>ln. s_listen env0 listener0 ''tcp'' (Some '':8080'') = Inr ln \<and> ln_err ln = 0 \<and> ln_fd ln = 3"
proof -
  have "split_addr_port (Some (ln_addr listener0)) (Some '':8080'') = Inr (0, Some ((ln_addr listener0)\<lparr>
     a_host := NUL # drop 1 (a_host (ln_addr listener0)), a_port := 8080\<rparr>))"
    by code_simp
  then show ?thesis
    by (simp add: s_listen_def Let_def get_protocol_type_def PROTOCOL_TCP_def tcp_create_and_listen_ipv4_def
        bind_and_listen_def env0_def cstring_terminated [of "[]", simplified])
qed

section \<open>Properties\<close>

text \<open>C24: Shutting down with a request still queued is a use after free: both exits destroy the route table
  before the pool, and the pool's workers run what is queued before they stop; if the first task in the
  queue holds a \<open>GET\<close> request its route is looked up in the freed table.\<close>

theorem shutdown_uses_freed_routes:
  assumes "sv_route s = Some table" and "destroy_route K table (sv_heap s) = Inr (0, h)" and "sv_pool s = i # is"
    and "sv_tasks s i = Some tn" and "str_is h (t_buffer tn) q" and "asks (we_llhttp (W i)) q m u d"
    and "get_mothod_type m = GET"
  shows "release K W pool s = Some (Inl UseAfterFree)"
proof -
  have "handle_conn (W i) i (take_task i (s\<lparr>sv_route := None, sv_heap := h\<rparr>)) = Inl UseAfterFree"
    using assms(3-5) by (intro handle_conn_no_table [OF assms(6) _ _ assms(7)]) (simp_all add: take_task_def)
  then show ?thesis using assms(1-3) by (simp add: release_def)
qed

theorem shutdown_uses_freed_routes_witness:
  "\<exists>s. sv_pool s = [0] \<and> sv_route s = Some [] \<and> server_ok s
     \<and> release assoc_khash (\<lambda>_. worker0 ''GET'' ''/'') no_res s = Some (Inl UseAfterFree)"
proof -
  have h: "ready (sv_heap server5)" using ready_heap0 by (simp add: server5_def server0_def)
  obtain s tn where
    s: "server_ok s" "str_is (sv_heap s) (t_buffer tn) ''GET''"
    and e: "s = server5\<lparr>sv_tasks := (sv_tasks server5)(sv_tnext server5 \<mapsto> tn), sv_tnext := Suc (sv_tnext server5),
       sv_pool := sv_pool server5 @ [sv_tnext server5], sv_heap := sv_heap s\<rparr>"
    by (rule request_read [OF reach_ok [OF reach_server5] h read5_event]) blast
  obtain H where H: "sv_heap s = H" by blast
  let ?s = "s\<lparr>sv_route := Some []\<rparr>"
  have f: "sv_tasks ?s 0 = Some tn" "sv_pool ?s = [0]" using e unfolding H by (simp_all add: server5_def server0_def)
  have r: "sv_route ?s = Some []" "destroy_route assoc_khash [] (sv_heap ?s) = Inr (0, sv_heap s)"
    by (simp_all add: destroy_route_def assoc_khash_def)
  have d: "pct_decode ''/'' = Some ''/''" "get_mothod_type ''GET'' = GET" by code_simp+
  have a: "asks (we_llhttp (worker0 ''GET'' ''/'')) ''GET'' ''GET'' ''/'' ''/''"
    by (rule asks_worker0 [OF d(1)]) (simp_all add: NUL_def)
  have "server_ok ?s" using s(1) by (rule server_inv_cong [THEN iffD2, rotated -1]) simp_all
  with shutdown_uses_freed_routes [OF r f(2,1) s(2), of "\<lambda>_. worker0 ''GET'' ''/''"] a d(2) f(2) r(1) show ?thesis by blast
qed

text \<open>A shutdown with nothing queued releases everything but the tasks: all connections are closed and
  unregistered, the list is emptied, the table and the pool are gone.  Tasks whose response is still
  waiting to be written stay allocated: their clients are cut off without it.\<close>

theorem shutdown_releases:
  assumes "reach E s" and "sv_pool s = []" and "sv_route s = Some table" and "destroy_route K table (sv_heap s) = Inr (0, h)"
    and "r_pool pool" and "r_queue pool = Some q" and "q_inv q" and "r_threads pool = MAX_THREAD_COUNT"
  shows "\<exists>s' pool'. release K W pool s = Some (Inr (s', pool')) \<and> sv_conns s' = [] \<and> sv_kq s' = [] \<and> sv_route s' = None
     \<and> l_head (fst (sv_clients s')) = None \<and> pool'\<lparr>r_shutdown := False\<rparr> = no_res \<and> sv_heap s' = h
     \<and> sv_tasks s' = sv_tasks s \<and> sv_out s' = sv_out s"
proof -
  obtain cl pool' where "release K W pool s = Some (Inr (s\<lparr>sv_route := None, sv_heap := h, sv_clients := cl, sv_conns := [], sv_kq := []\<rparr>, pool'))"
    "pool'\<lparr>r_shutdown := False\<rparr> = no_res" "l_head (fst cl) = None"
    using release_idle [OF reach_ok [OF assms(1)] assms(2-8)] by blast
  then show ?thesis by auto
qed

theorem shutdown_releases_witness:
  "\<exists>q s' pool'. release assoc_khash (\<lambda>_. worker0 ''GET'' ''/'')
       (no_res\<lparr>r_pool := True, r_queue := Some q, r_threads := MAX_THREAD_COUNT\<rparr>) (server0\<lparr>sv_route := Some []\<rparr>) = Some (Inr (s', pool'))
     \<and> sv_route s' = None \<and> l_head (fst (sv_clients s')) = None \<and> sv_heap s' = heap0"
proof -
  have "idle (server0\<lparr>sv_route := Some []\<rparr>)" using idle_server0 by (simp add: idle_def)
  then have r: "reach {} (server0\<lparr>sv_route := Some []\<rparr>)" by (rule reach_in.start)
  obtain q where q: "q_inv q" by (rule init_fresh_queue)
  have d: "destroy_route assoc_khash [] (sv_heap (server0\<lparr>sv_route := Some []\<rparr>)) = Inr (0, heap0)"
    by (simp add: destroy_route_def assoc_khash_def server0_def)
  have p: "sv_pool (server0\<lparr>sv_route := Some []\<rparr>) = []" by (simp add: server0_def)
  show ?thesis
    using shutdown_releases [OF r p _ d _ _ q, of "no_res\<lparr>r_pool := True, r_queue := Some q, r_threads := MAX_THREAD_COUNT\<rparr>"]
    by simp blast
qed

text \<open>A signal stops the loop: once \<open>SIGINT\<close> or \<open>SIGTERM\<close> has arrived during a call of \<open>kevent\<close>, the loop
  finishes that round and nothing that would be reported later is looked at.\<close>

theorem signal_stops_loop:
  assumes "SIGINT \<in> set (p_signals p) \<or> SIGTERM \<in> set (p_signals p)"
  shows "event_loop c0 flag (ps @ p # qs) s = event_loop c0 flag (ps @ [p]) s"
proof (induction ps arbitrary: flag s)
  case Nil
  have "fold shut_down_server (p_signals p) f = True" for f using assms by (auto simp: fold_signals)
  then show ?case by (simp add: Let_def event_loop_True split: sum.split poll_result.split option.split)
next
  case (Cons r ps)
  then show ?case by (simp add: Let_def split: sum.split poll_result.split option.split)
qed

theorem signal_stops_loop_witness:
  "\<exists>r. event_loop (client_n 0) False [\<lparr>p_tasks = [], p_signals = [15], p_result = Interrupted\<rparr>,
        \<lparr>p_tasks = [(0, worker0 ''GET'' ''/'')], p_signals = [], p_result = Failed\<rparr>] server0 = Some (Inr r)"
proof -
  let ?p = "\<lparr>p_tasks = [], p_signals = [15], p_result = Interrupted\<rparr> :: ((key \<times> nat route_handler_t) list, nat, unit) poll_t"
  have "SIGINT \<in> set (p_signals ?p) \<or> SIGTERM \<in> set (p_signals ?p)" by (simp add: SIGTERM_def)
  from signal_stops_loop [OF this, of "client_n 0" False "[]"] show ?thesis
    by (simp add: shut_down_server_def SIGTERM_def)
qed

text \<open>A failed initialisation is silent: \<open>init_server\<close> has no result, and whichever step fails it leaves the
  fields after it as they were; the client list is set if and only if every step succeeded.  \<open>main\<close>
  does not look, and goes on to use an indeterminate value.\<close>

theorem init_server_silent:
  assumes "m_cells pe"
  shows "\<exists>b. init_server K pe sigint sigterm kq no_boot = Inr b
     \<and> (bo_list b \<noteq> None \<longleftrightarrow> kh_init K \<noteq> None \<and> (\<exists>r. create_pool pe QUEUE_SIZE = Inr (True, r))
          \<and> 0 \<le> sigint \<and> 0 \<le> sigterm \<and> 0 \<le> kq)
     \<and> (bo_list b = None \<longrightarrow> main_server K W env ln0 nonblock kev c0 polls b s = Some (Inl Uninit))"
proof -
  obtain ok r where c: "create_pool pe QUEUE_SIZE = Inr (ok, r)"
    using create_pool_cases [OF assms, of QUEUE_SIZE] by blast
  show ?thesis
    by (cases "kh_init K")
      (auto simp: init_server_def init_route_def c no_boot_def main_server_def Let_def split: option.split)
qed

theorem init_server_silent_witness:
  "\<exists>b. init_server assoc_khash third_thread_fails 0 0 3 no_boot = Inr b
     \<and> main_server assoc_khash (\<lambda>_. worker1) env0 listener0 0 0 (client_n 0) [] b start0 = Some (Inl Uninit)"
proof -
  have c: "m_cells third_thread_fails" by (simp add: third_thread_fails_def)
  have "create_pool third_thread_fails QUEUE_SIZE \<noteq> Inr (True, r)" for r
    by (simp add: create_pool_def third_thread_fails_def init_queue_def Let_def create_threads.simps MAX_THREAD_COUNT_def
        destroy_pool_def no_res_def fresh_queue_def free_queue_heap_def free_queue_def)
  with init_server_silent [OF c, of assoc_khash 0 0 3 "\<lambda>_. worker1" env0 listener0 0 0 "client_n 0" "[]" start0] show ?thesis by fastforce
qed

text \<open>C30: A complete start: when every step of the initialisation succeeds, \<open>main\<close> serves from a state where
  nobody is connected, with a route table in which exactly \<open>/\<close> and \<open>/api\<close> are found, each with its own
  page, an empty task queue and four workers.\<close>

theorem main_registers:
  assumes "khash_spec K good" and "\<forall>m k. fst (snd (kh_put K m k)) \<noteq> -1" and "m_cells pe" and "booted s"
    and "init_server K pe sigint sigterm kq no_boot = Inr b" and "bo_list b \<noteq> None"
  shows "\<exists>s1 m pool q. idle s1 \<and> sv_route s1 = Some m
     \<and> (\<forall>p hd0. route_lookup K hd0 m p = (if p = ''/'' then (True, \<lparr>func = HomePage\<rparr>)
          else if p = ''/api'' then (True, \<lparr>func = ApiHomePage\<rparr>) else (False, hd0)))
     \<and> r_queue pool = Some q \<and> q_inv q \<and> q_list q = [] \<and> r_threads pool = MAX_THREAD_COUNT
     \<and> main_server K W env ln0 nonblock kev c0 polls b s
         = map_option (\<lambda>r. rbind r (\<lambda>(_, s2, pool2). Inr (0, s2, pool2)))
             (serve_and_listen K W env ln0 nonblock kev (Some '':8080'') c0 False polls pool s1)"
proof -
  from main_start [OF assms] obtain m h pool q where
    "routes_ok K good (sv_heap s) [(''/'', HomePage), (''/api'', ApiHomePage)] {} m h"
    and pool: "r_pool pool" "r_queue pool = Some q" "q_inv q" "q_list q = []" "r_threads pool = MAX_THREAD_COUNT"
    and run: "\<forall>W env ln0 nonblock kev c0 polls. main_server K W env ln0 nonblock kev c0 polls b s
         = map_option (\<lambda>r. rbind r (\<lambda>(_, s2, pool2). Inr (0, s2, pool2)))
             (serve_and_listen K W env ln0 nonblock kev (Some '':8080'') c0 False polls pool
               (s\<lparr>sv_clients := (init_list, snd (sv_clients s)), sv_files := kq # sv_files s, sv_route := Some m, sv_heap := h\<rparr>))" by metis
  moreover from this(1) have "\<forall>p hd0. route_lookup K hd0 m p = (if p = ''/'' then (True, \<lparr>func = HomePage\<rparr>)
       else if p = ''/api'' then (True, \<lparr>func = ApiHomePage\<rparr>) else (False, hd0))"
    using lookup_routes by fastforce
  moreover have "idle (s\<lparr>sv_clients := (init_list, snd (sv_clients s)), sv_files := kq # sv_files s, sv_route := Some m, sv_heap := h\<rparr>)"
    using assms(4) by (simp add: booted_def idle_def)
  ultimately show ?thesis by (intro exI conjI) (assumption | simp)+
qed

theorem main_registers_witness:
  "\<exists>b s1 m pool. init_server assoc_khash pool_works 0 0 4 no_boot = Inr b \<and> idle s1 \<and> sv_route s1 = Some m
     \<and> route_lookup assoc_khash \<lparr>func = HomePage\<rparr> m ''/api'' = (True, \<lparr>func = ApiHomePage\<rparr>)
     \<and> main_server assoc_khash (\<lambda>_. worker1) env0 listener0 0 0 (client_n 0) [] b start0
         = map_option (\<lambda>r. rbind r (\<lambda>(_, s2, pool2). Inr (0, s2, pool2)))
             (serve_and_listen assoc_khash (\<lambda>_. worker1) env0 listener0 0 0 (Some '':8080'') (client_n 0) False [] pool s1)"
proof -
  obtain b :: "(key \<times> handler_fn route_handler_t) list boot_t" where b: "init_server assoc_khash pool_works 0 0 4 no_boot = Inr b" "bo_list b \<noteq> None"
    using boot_works by blast
  have c: "m_cells pool_works" by (simp add: pool_works_def)
  from main_registers [OF assoc_khash_spec assoc_khash_memory c booted_start0 b,
      of "\<lambda>_. worker1" env0 listener0 0 0 "client_n 0" "[]"] b(1) show ?thesis by fastforce
qed

text \<open>C16: A complete run: if every call succeeds and no event is ever reported, \<open>main\<close> returns 0 after the
  first signal, with the listener closed, nothing connected or registered, the pool released and the heap
  holding exactly the blocks it held before.  One thing is not given back: the descriptor of the kqueue,
  which stays open next to the descriptors that were open at the start.\<close>

theorem main_stops:
  assumes "khash_spec K good" and "\<forall>m k. fst (snd (kh_put K m k)) \<noteq> -1" and "m_cells pe" and "booted s"
    and "init_server K pe sigint sigterm kq no_boot = Inr b" and "bo_list b \<noteq> None"
    and "s_listen env ln0 ''tcp'' (Some '':8080'') = Inr ln" and "ln_err ln = 0" and "0 \<le> nonblock" and "0 \<le> kev"
    and "0 < ln_fd ln" and "ln_fd ln \<notin> set (sv_files s)" and "ln_fd ln \<noteq> kq"
    and "\<forall>p \<in> set polls. p_tasks p = [] \<and> p_result p \<in> {Interrupted, Events []}"
    and "\<exists>p \<in> set polls. SIGINT \<in> set (p_signals p) \<or> SIGTERM \<in> set (p_signals p)"
  shows "\<exists>s' pool. main_server K W env ln0 nonblock kev c0 polls b s = Some (Inr (0, s', pool))
     \<and> sv_conns s' = [] \<and> sv_kq s' = [] \<and> sv_route s' = None \<and> sv_files s' = kq # sv_files s
     \<and> pool\<lparr>r_shutdown := False\<rparr> = no_res \<and> dom (hmem (sv_heap s')) = dom (hmem (sv_heap s))"
proof -
  from main_start [OF assms(1-6)] obtain m h pool q where
    r: "routes_ok K good (sv_heap s) [(''/'', HomePage), (''/api'', ApiHomePage)] {} m h"
    and pool: "r_pool pool" "r_queue pool = Some q" "q_inv q" "r_threads pool = MAX_THREAD_COUNT"
    and run: "\<forall>W env ln0 nonblock kev c0 polls. main_server K W env ln0 nonblock kev c0 polls b s
         = map_option (\<lambda>r. rbind r (\<lambda>(_, s2, pool2). Inr (0, s2, pool2)))
             (serve_and_listen K W env ln0 nonblock kev (Some '':8080'') c0 False polls pool
               (s\<lparr>sv_clients := (init_list, snd (sv_clients s)), sv_files := kq # sv_files s, sv_route := Some m, sv_heap := h\<rparr>))" by metis
  obtain h' where h': "destroy_route K m h = Inr (0, h')" "dom (hmem h') = dom (hmem (sv_heap s))"
    using destroy_route_ok [OF assms(1) r] by auto
  let ?ln = "ln\<lparr>ln_err := 0\<rparr>"
  let ?s1 = "s\<lparr>sv_clients := (init_list, snd (sv_clients s)), sv_files := kq # sv_files s, sv_route := Some m, sv_heap := h\<rparr>"
  let ?s2 = "?s1\<lparr>sv_ln := ?ln, sv_files := ln_fd ln # kq # sv_files s\<rparr>"
  have l: "init_listener env ln0 nonblock kev (Some '':8080'') = Inr (0, ?ln)"
    using assms(7-10) by (simp add: init_listener_def)
  have files: "s_close ?ln (ln_fd ln # kq # sv_files s) = kq # sv_files s"
    using assms(12,13) by (simp add: s_close_def close_fd_def removeAll_id)
  have "idle ?s1" using assms(4) by (simp add: booted_def idle_def)
  then have "server_ok (?s2\<lparr>sv_files := kq # sv_files s\<rparr>)"
    by (intro idle_ok) (simp add: idle_def)
  from release_idle [OF this _ _ _ pool, of m K h' W] h'(1) assms(4) obtain cl pool' where
    e: "release K W pool (?s2\<lparr>sv_files := kq # sv_files s\<rparr>)
      = Some (Inr (?s2\<lparr>sv_files := kq # sv_files s, sv_route := None, sv_heap := h', sv_clients := cl, sv_conns := [], sv_kq := []\<rparr>, pool'))"
    and p': "pool'\<lparr>r_shutdown := False\<rparr> = no_res" by (auto simp: booted_def)
  have "event_loop c0 False polls ?s2 = Some (Inr ?s2)"
    using quiet_loop [OF assms(14), of c0 False ?s2] assms(15) by simp
  then have "serve_and_listen K W env ln0 nonblock kev (Some '':8080'') c0 False polls pool ?s1
     = Some (Inr (0, ?s2\<lparr>sv_files := kq # sv_files s, sv_route := None, sv_heap := h', sv_clients := cl, sv_conns := [], sv_kq := []\<rparr>, pool'))"
    using l assms(11) files e by (simp add: serve_and_listen_def)
  with run p' h'(2) show ?thesis by simp
qed

theorem main_stops_witness:
  "\<exists>b s' pool. init_server assoc_khash pool_works 0 0 4 no_boot = Inr b
     \<and> main_server assoc_khash (\<lambda>_. worker1) env0 listener0 0 0 (client_n 0)
         [\<lparr>p_tasks = [], p_signals = [], p_result = Events []\<rparr>, \<lparr>p_tasks = [], p_signals = [15], p_result = Interrupted\<rparr>] b start0
       = Some (Inr (0, s', pool))
     \<and> sv_files s' = [4, 0, 1, 2] \<and> hmem (sv_heap s') = Map.empty"
proof -
  obtain b :: "(key \<times> handler_fn route_handler_t) list boot_t" where b: "init_server assoc_khash pool_works 0 0 4 no_boot = Inr b" "bo_list b \<noteq> None"
    using boot_works by blast
  have c: "m_cells pool_works" by (simp add: pool_works_def)
  obtain ln where l: "s_listen env0 listener0 ''tcp'' (Some '':8080'') = Inr ln" "ln_err ln = 0" "ln_fd ln = 3"
    using listen_8080 by blast
  let ?ps = "[\<lparr>p_tasks = [], p_signals = [], p_result = Events []\<rparr>, \<lparr>p_tasks = [], p_signals = [15], p_result = Interrupted\<rparr>]
    :: ((key \<times> handler_fn route_handler_t) list, handler_fn, unit) poll_t list"
  have "0 < ln_fd ln" "ln_fd ln \<notin> set (sv_files start0)" "ln_fd ln \<noteq> 4" using l(3) by (simp_all add: start0_def)
  from main_stops [OF assoc_khash_spec assoc_khash_memory c booted_start0 b l(1,2) _ _ this, of 0 0 ?ps "\<lambda>_. worker1" "client_n 0"]
  show ?thesis using b(1) by (auto simp: SIGTERM_def start0_def heap0_def)
qed

end
