(* ===== verification/System.thy ===== *)
theory System
  imports PoolSteps Serve Isolation
begin

text \<open>
  The server and its thread pool together.  A state is the pool of \<open>PoolSteps\<close>, the server of \<open>Http\<close>, and
  which workers have generated a response that they have not registered yet.  The event loop and the
  workers take turns at the granularity of synchronisation operations and system calls: a worker locks,
  waits, pops, answers a task and registers its connection in separate steps, and the loop may handle
  events between any two of them.
\<close>

section \<open>What the server needs of the pool\<close>

text \<open>An executor holds a multiset of jobs: a submission adds one if it is accepted, a completion removes
  one, and nothing else changes it.\<close>

locale job_pool =
  fixes ok :: "'p \<Rightarrow> bool"
    and jobs :: "'p \<Rightarrow> 'a multiset"
    and quiet :: "'p \<Rightarrow> 'p \<Rightarrow> bool"
    and submit :: "'a \<Rightarrow> bool \<Rightarrow> 'p \<Rightarrow> 'p \<Rightarrow> bool"
    and complete :: "nat \<Rightarrow> 'a \<Rightarrow> 'p \<Rightarrow> 'p \<Rightarrow> bool"
  assumes quiet_jobs: "ok p \<Longrightarrow> quiet p p' \<Longrightarrow> ok p' \<and> jobs p' = jobs p"
    and submit_jobs: "ok p \<Longrightarrow> submit t b p p' \<Longrightarrow> ok p' \<and> jobs p' = (if b then add_mset t (jobs p) else jobs p)"
    and complete_jobs: "ok p \<Longrightarrow> complete k t p p' \<Longrightarrow> ok p' \<and> jobs p = add_mset t (jobs p')"
begin

text \<open>A client that keeps a list of the jobs' identifiers.\<close>

lemma submit_list:
  assumes "ok p" and "submit t b p p'" and "mset js = image_mset f (jobs p)"
  shows "mset (if b then js @ [f t] else js) = image_mset f (jobs p')"
  using submit_jobs [OF assms(1,2)] assms(3) by simp

lemma complete_list:
  assumes "ok p" and "complete k t p p'" and "mset js = image_mset f (jobs p)"
  shows "f t \<in> set js \<and> mset (remove1 (f t) js) = image_mset f (jobs p')"
proof -
  have "mset js = add_mset (f t) (image_mset f (jobs p'))" using complete_jobs [OF assms(1,2)] assms(3) by simp
  moreover from this have "f t \<in> set js" by (metis insert_iff set_mset_add_mset_insert set_mset_mset)
  ultimately show ?thesis by simp
qed

text \<open>If the identifiers are distinct then two jobs have two identifiers.\<close>

lemma jobs_distinct:
  assumes "mset js = image_mset f (jobs p)" and "distinct js" and "{#t, u#} \<subseteq># jobs p"
  shows "f t \<noteq> f u"
proof
  assume "f t = f u"
  moreover have "image_mset f {#t, u#} \<subseteq># mset js" using assms(1,3) image_mset_subseteq_mono by metis
  ultimately have "{#f t, f t#} \<subseteq># mset js" by simp
  then have "2 \<le> count (mset js) (f t)" using mset_subset_eq_count [of "{#f t, f t#}" "mset js" "f t"] by simp
  then show False using assms(2) by (auto simp: distinct_count_atmost_1 split: if_splits)
qed

end

text \<open>The pool of the program: its jobs are the tasks accepted and not yet finished.\<close>

definition pool_ok :: "nat \<Rightarrow> pool_t \<Rightarrow> bool" where
  "pool_ok n p \<longleftrightarrow> 0 < n \<and> PoolSteps.reach n p"

definition pool_jobs :: "pool_t \<Rightarrow> task_node_t multiset" where
  "pool_jobs p = mset (accepted p) - mset (finished p)"

text \<open>A step in which no task is accepted, refused or finished; the step in which \<open>push_task\<close> decides; and
  the one in which a worker returns from its task.\<close>

definition quiet_step :: "pool_t \<Rightarrow> pool_t \<Rightarrow> bool" where
  "quiet_step p p' \<longleftrightarrow>
     (\<exists>k < nthreads p. worker_step k p p' \<and> (\<forall>t. wpc p k \<noteq> Running t))
   \<or> (push_step p p' \<or> destroy_step p p') \<and> (\<forall>t. mpc p \<noteq> MPush t)"

definition submit_step :: "task_node_t \<Rightarrow> bool \<Rightarrow> pool_t \<Rightarrow> pool_t \<Rightarrow> bool" where
  "submit_step t b p p' \<longleftrightarrow> mpc p = MPush t \<and> push_step p p' \<and> b = (mpc p' = MSignal)"

definition complete_step :: "nat \<Rightarrow> task_node_t \<Rightarrow> pool_t \<Rightarrow> pool_t \<Rightarrow> bool" where
  "complete_step k t p p' \<longleftrightarrow> k < nthreads p \<and> wpc p k = Running t \<and> worker_step k p p'"

lemma quiet_pool_step: "quiet_step p p' \<Longrightarrow> pool_step p p'"
  unfolding quiet_step_def by (blast intro: pool_step.intros)

lemma submit_pool_step: "submit_step t b p p' \<Longrightarrow> pool_step p p'"
  unfolding submit_step_def by (blast intro: pool_step.intros)

lemma complete_pool_step: "complete_step k t p p' \<Longrightarrow> pool_step p p'"
  unfolding complete_step_def by (blast intro: pool_step.intros)

lemma quiet_same: "quiet_step p p' \<Longrightarrow> accepted p' = accepted p \<and> finished p' = finished p"
  unfolding quiet_step_def by (auto elim: worker_stepE push_stepE destroy_stepE)

lemma submit_same:
  "submit_step t b p p' \<Longrightarrow> accepted p' = (if b then accepted p @ [t] else accepted p) \<and> finished p' = finished p
     \<and> wpc p' = wpc p"
  unfolding submit_step_def by (auto elim!: push_stepE)

lemma complete_same:
  "complete_step k t p p' \<Longrightarrow> p' = p\<lparr>finished := finished p @ [t], wpc := (wpc p)(k := AtLock)\<rparr>"
  unfolding complete_step_def by (auto elim!: worker_stepE)

text \<open>What is accepted and not finished waits in the ring or is in the hands of a worker.\<close>

lemma pool_jobs_eq:
  assumes "pool_ok n p"
  shows "mset (accepted p) = pool_jobs p + mset (finished p)
     \<and> pool_jobs p = (if mpc p = DDone then {#} else mset (q_list (pq p)) + flights p)"
proof -
  have inv: "pool_inv p" using assms reach_pool_inv by (auto simp: pool_ok_def)
  have f: "mset (taken p) = mset (finished p) + flights p" using inv by (simp add: pool_inv_def flight_inv_def)
  show ?thesis
  proof (cases "mpc p = DDone")
    case True
    then have "accepted p = taken p" "\<forall>i < nthreads p. wpc p i = Exited" using inv by (auto simp: pool_inv_def exit_inv_def)
    moreover from this(2) have "flights p = {#}" by (simp add: flights_def)
    ultimately show ?thesis using f True by (simp add: pool_jobs_def)
  next
    case False
    then have "accepted p = taken p @ q_list (pq p)" using inv by (simp add: pool_inv_def queue_inv_def)
    then show ?thesis using f False by (simp add: pool_jobs_def)
  qed
qed

lemma pool_ok_step: "pool_ok n p \<Longrightarrow> pool_step p p' \<Longrightarrow> pool_ok n p'"
  unfolding pool_ok_def by (blast intro: PoolSteps.reach.step)

interpretation exec: job_pool "pool_ok n" pool_jobs quiet_step submit_step complete_step
proof
  fix p p' k t b
  assume p: "pool_ok n p"
  show "quiet_step p p' \<Longrightarrow> pool_ok n p' \<and> pool_jobs p' = pool_jobs p"
    using pool_ok_step [OF p quiet_pool_step] by (simp add: quiet_same pool_jobs_def)
  show "pool_ok n p' \<and> pool_jobs p' = (if b then add_mset t (pool_jobs p) else pool_jobs p)" if "submit_step t b p p'"
  proof -
    have ok': "pool_ok n p'" by (rule pool_ok_step [OF p submit_pool_step [OF that]])
    then show ?thesis using pool_jobs_eq [OF p] pool_jobs_eq [OF ok'] submit_same [OF that]
      by (cases b) simp_all
  qed
  show "pool_ok n p' \<and> pool_jobs p = add_mset t (pool_jobs p')" if "complete_step k t p p'"
  proof -
    have ok': "pool_ok n p'" by (rule pool_ok_step [OF p complete_pool_step [OF that]])
    have "accepted p' = accepted p" "finished p' = finished p @ [t]" using complete_same [OF that] by simp_all
    then show ?thesis using pool_jobs_eq [OF p] pool_jobs_eq [OF ok'] ok' by simp
  qed
qed

section \<open>The system\<close>

text \<open>\<open>sy_ready k\<close> is the client whose response worker \<open>k\<close> has generated and not registered yet.\<close>

record ('m, 'p) system_t =
  sy_pool :: pool_t
  sy_server :: "('m, 'p) server_t"
  sy_ready :: "nat \<Rightarrow> client_t option"

text \<open>The pointer a pool task carries: the number of a \<open>thread_node_t\<close>.\<close>

definition task_arg :: "task_node_t \<Rightarrow> nat" where
  "task_arg t = the (targs t)"

text \<open>What the thread of the event loop may do next: it pushes the task it has just set up, and only while
  the loop runs; it destroys the pool after the route table.\<close>

definition main_may :: "pool_t \<Rightarrow> pool_t \<Rightarrow> ('m, 'p) server_t \<Rightarrow> bool" where
  "main_may p p' s \<longleftrightarrow> mpc p' = mpc p \<or>
     (case mpc p' of MPush t \<Rightarrow> targs t = Some (sv_tnext s) \<and> sv_route s \<noteq> None
      | DLocked \<Rightarrow> sv_route s = None
      | _ \<Rightarrow> True)"

text \<open>The steps.  The effect of a handler that pushes a task is placed at the moment in which \<open>push_task\<close>
  decides: no worker can see the task before.  A worker answers its task and registers the connection
  in two steps, and returns; a rejected request has no second step.\<close>

inductive system_step :: "('m, 'f, 'p) worker_env set \<Rightarrow> ('m, 'p) system_t \<Rightarrow> ('m, 'p) system_t \<Rightarrow> bool"
  for E :: "('m, 'f, 'p) worker_env set" where
  sync: "quiet_step p p' \<Longrightarrow> main_may p p' s \<Longrightarrow> system_step E \<lparr>sy_pool = p, sy_server = s, sy_ready = R\<rparr>
     \<lparr>sy_pool = p', sy_server = s, sy_ready = R\<rparr>"
| event: "mpc p = MIdle \<Longrightarrow> sv_route s \<noteq> None \<Longrightarrow> reported e s \<Longrightarrow> answers_ok c0 (ke_conns e) s \<Longrightarrow>
     handle_event c0 e s = Some (Inr s') \<Longrightarrow> sv_tnext s' = sv_tnext s \<Longrightarrow>
     system_step E \<lparr>sy_pool = p, sy_server = s, sy_ready = R\<rparr> \<lparr>sy_pool = p, sy_server = s', sy_ready = R\<rparr>"
| submit: "submit_step t b p p' \<Longrightarrow> reported e s \<Longrightarrow> answers_ok c0 (ke_conns e) s \<Longrightarrow>
     handle_event c0 e s = Some (Inr s') \<Longrightarrow> sv_tnext s' = Suc (sv_tnext s) \<Longrightarrow> ti_pushed (ke_task e) = b \<Longrightarrow>
     system_step E \<lparr>sy_pool = p, sy_server = s, sy_ready = R\<rparr> \<lparr>sy_pool = p', sy_server = s', sy_ready = R\<rparr>"
| answer: "k < nthreads p \<Longrightarrow> wpc p k = Running t \<Longrightarrow> R k = None \<Longrightarrow> w \<in> E \<Longrightarrow>
     answer_conn w (task_arg t) s = Inr (Some c, s') \<Longrightarrow>
     system_step E \<lparr>sy_pool = p, sy_server = s, sy_ready = R\<rparr> \<lparr>sy_pool = p, sy_server = s', sy_ready = R(k := Some c)\<rparr>"
| reject: "complete_step k t p p' \<Longrightarrow> R k = None \<Longrightarrow> w \<in> E \<Longrightarrow>
     answer_conn w (task_arg t) s = Inr (None, s') \<Longrightarrow>
     system_step E \<lparr>sy_pool = p, sy_server = s, sy_ready = R\<rparr>
       \<lparr>sy_pool = p', sy_server = take_task (task_arg t) s', sy_ready = R\<rparr>"
| register: "complete_step k t p p' \<Longrightarrow> R k = Some c \<Longrightarrow> cl_fd c \<in> set (sv_conns s) \<or> kev < 0 \<Longrightarrow>
     system_step E \<lparr>sy_pool = p, sy_server = s, sy_ready = R\<rparr>
       \<lparr>sy_pool = p', sy_server = register_write kev c (task_arg t) (take_task (task_arg t) s), sy_ready = R(k := None)\<rparr>"
| quit: "mpc p = MIdle \<Longrightarrow> sv_route s = Some table \<Longrightarrow> w \<in> E \<Longrightarrow> destroy_route (we_khash w) table (sv_heap s) = Inr (0, h) \<Longrightarrow>
     system_step E \<lparr>sy_pool = p, sy_server = s, sy_ready = R\<rparr>
       \<lparr>sy_pool = p, sy_server = s\<lparr>sv_route := None, sv_heap := h\<rparr>, sy_ready = R\<rparr>"

text \<open>The states that \<open>n\<close> workers and the loop can reach after \<open>init_server\<close>.\<close>

inductive sys_reach :: "nat \<Rightarrow> ('m, 'f, 'p) worker_env set \<Rightarrow> ('m, 'p) system_t \<Rightarrow> bool"
  for n :: nat and E :: "('m, 'f, 'p) worker_env set" where
  start: "q_inv q \<Longrightarrow> q_list q = [] \<Longrightarrow> idle s \<Longrightarrow>
     sys_reach n E \<lparr>sy_pool = pool_init q n, sy_server = s, sy_ready = (\<lambda>_. None)\<rparr>"
| step: "sys_reach n E y \<Longrightarrow> system_step E y y' \<Longrightarrow> sys_reach n E y'"

section \<open>The invariant\<close>

text \<open>What \<open>answer_conn\<close> does to the server: it rewrites the contexts of its task, and what the other
  components do not look at.\<close>

lemma answer_conn_effect:
  assumes "answer_conn w i s = Inr (c, s')"
  shows "\<exists>tn tn'. sv_tasks s i = Some tn \<and> t_client tn' = t_client tn \<and> (c = None \<or> c = Some (t_client tn))
     \<and> sv_tasks s' i = Some tn' \<and> (\<forall>j. j \<noteq> i \<longrightarrow> sv_tasks s' j = sv_tasks s j) \<and> sv_clients s' = sv_clients s \<and> sv_conns s' = sv_conns s \<and> sv_kq s' = sv_kq s
     \<and> sv_tnext s' = sv_tnext s \<and> sv_pool s' = sv_pool s \<and> sv_route s' = sv_route s \<and> sv_out s' = sv_out s"
proof -
  obtain tn where tn: "sv_tasks s i = Some tn" using assms by (auto simp: answer_conn_def split: option.splits)
  show ?thesis
  proof (cases "sdata (t_buffer tn)")
    case None
    then have "c = None" "s' = s" using assms tn by (simp_all add: answer_conn_def)
    then show ?thesis using tn by simp
  next
    case (Some a)
    then show ?thesis using assms tn by (auto simp: answer_conn_def rbind_eq_Inr Let_def split: if_split_asm)
  qed
qed

lemma answer_conn_ok:
  assumes "answer_conn w i s = Inr (c, s')" and "server_ok s"
  shows "server_ok s' \<and> sv_pool s' = sv_pool s \<and> sv_tnext s' = sv_tnext s \<and> (\<forall>j. j \<noteq> i \<longrightarrow> sv_tasks s' j = sv_tasks s j)
     \<and> (\<exists>tn'. sv_tasks s' i = Some tn' \<and> (c = None \<or> c = Some (t_client tn')))"
proof -
  obtain tn tn' where 1: "sv_tasks s i = Some tn" "t_client tn' = t_client tn" "c = None \<or> c = Some (t_client tn)"
    and t: "sv_tasks s' i = Some tn'" "\<forall>j. j \<noteq> i \<longrightarrow> sv_tasks s' j = sv_tasks s j"
    and s': "sv_clients s' = sv_clients s" "sv_conns s' = sv_conns s" "sv_kq s' = sv_kq s"
      "sv_tnext s' = sv_tnext s" "sv_pool s' = sv_pool s"
    using answer_conn_effect [OF assms(1)] by blast
  have "sv_tasks s' = (sv_tasks s)(i \<mapsto> tn')" using t by (auto simp: fun_eq_iff)
  then have "server_ok s'"
    by (intro server_inv_cong [THEN iffD2, rotated -1, OF server_ok_update_task [OF assms(2) 1(1,2)]]) (simp_all add: s')
  then show ?thesis using 1 t s' by auto
qed

lemma register_write_ok:
  assumes ok: "server_ok s" and i: "i \<in> set (sv_pool s)" and tn: "sv_tasks s i = Some tn" "t_client tn = c"
    and k: "cl_fd c \<in> set (sv_conns s) \<or> kev < 0"
  shows "server_ok (register_write kev c i (take_task i s))"
proof (cases "kev < 0")
  case True
  then show ?thesis using server_ok_take [OF ok] by (simp add: register_write_def)
next
  case False
  have "i \<notin> set (sv_pool (take_task i s))" using ok by (simp add: take_task_def server_inv_def tasks_ok_def)
  then have "reg_ok (take_task i s) (cl_fd c, EVFILT_WRITE, TaskData i)"
    using k False tn by (simp add: reg_inv_def task_for_def) (simp add: take_task_def)
  from server_ok_add [OF server_ok_take [OF ok] this] show ?thesis using False by (simp add: register_write_def)
qed

text \<open>Server and pool agree on the tasks: \<open>sv_pool\<close> lists the arguments of the pool's jobs, each accepted
  task has an argument of its own, and a response that waits to be registered belongs to the task its
  worker runs.\<close>

definition numbered :: "pool_t \<Rightarrow> nat \<Rightarrow> bool" where
  "numbered p m \<longleftrightarrow> (\<forall>t \<in> set (accepted p). targs t \<noteq> None \<and> task_arg t < m)
     \<and> distinct (map task_arg (accepted p))"

definition ready_ok :: "pool_t \<Rightarrow> ('m, 'p) server_t \<Rightarrow> (nat \<Rightarrow> client_t option) \<Rightarrow> bool" where
  "ready_ok p s R \<longleftrightarrow> (\<forall>k c. R k = Some c \<longrightarrow> k < nthreads p
     \<and> (\<exists>t tn. wpc p k = Running t \<and> sv_tasks s (task_arg t) = Some tn \<and> t_client tn = c))"

definition pushing_ok :: "pool_t \<Rightarrow> ('m, 'p) server_t \<Rightarrow> bool" where
  "pushing_ok p s \<longleftrightarrow> (\<forall>t. mpc p = MPush t \<longrightarrow> targs t = Some (sv_tnext s))"

definition system_ok :: "nat \<Rightarrow> ('m, 'p) system_t \<Rightarrow> bool" where
  "system_ok n y \<longleftrightarrow> pool_ok n (sy_pool y) \<and> server_ok (sy_server y)
     \<and> mset (sv_pool (sy_server y)) = image_mset task_arg (pool_jobs (sy_pool y))
     \<and> numbered (sy_pool y) (sv_tnext (sy_server y)) \<and> ready_ok (sy_pool y) (sy_server y) (sy_ready y)
     \<and> pushing_ok (sy_pool y) (sy_server y)"

text \<open>A running worker's task is a job of the pool; two of them are two jobs.\<close>

lemma running_job:
  assumes "pool_ok n p" and "k < nthreads p" and "wpc p k = Running t \<or> wpc p k = Popped (Some t)"
  shows "t \<in># pool_jobs p"
proof -
  have inv: "pool_inv p" using assms(1) reach_pool_inv by (auto simp: pool_ok_def)
  then have "mpc p \<noteq> DDone" using assms(2,3) by (auto simp: pool_inv_def exit_inv_def)
  moreover have "t \<in># flights p"
    unfolding flights_def using assms(2,3) by (subst sum.remove [of _ k]) auto
  ultimately show ?thesis using pool_jobs_eq [OF assms(1)] by simp
qed

lemma running_two:
  assumes "pool_ok n p" and "k < nthreads p" and "j < nthreads p" and "j \<noteq> k"
    and "wpc p k = Running t \<or> wpc p k = Popped (Some t)" and "wpc p j = Running u \<or> wpc p j = Popped (Some u)"
  shows "{#t, u#} \<subseteq># pool_jobs p"
proof -
  have inv: "pool_inv p" using assms(1) reach_pool_inv by (auto simp: pool_ok_def)
  then have d: "mpc p \<noteq> DDone" using assms(2,5) by (auto simp: pool_inv_def exit_inv_def)
  have "flights p = in_flight (wpc p k) + (\<Sum>i \<in> {..<nthreads p} - {k}. in_flight (wpc p i))"
    unfolding flights_def using assms(2) by (simp add: sum.remove)
  also have "(\<Sum>i \<in> {..<nthreads p} - {k}. in_flight (wpc p i))
      = in_flight (wpc p j) + (\<Sum>i \<in> {..<nthreads p} - {k} - {j}. in_flight (wpc p i))"
    using assms(3,4) by (intro sum.remove) auto
  finally have "{#t, u#} \<subseteq># flights p" using assms(5,6) by auto
  then show ?thesis using pool_jobs_eq [OF assms(1)] d by (simp add: subset_mset.add_increasing)
qed

lemma numbered_mono: "numbered p m \<Longrightarrow> m \<le> m' \<Longrightarrow> accepted p' = accepted p \<Longrightarrow> numbered p' m'"
  by (fastforce simp: numbered_def)

text \<open>Tasks that belong to responses waiting to be registered are in \<open>sv_pool\<close>, and the loop keeps those.\<close>

lemma ready_ok_mono:
  assumes "ready_ok p s R" and "pool_ok n p" and "mset (sv_pool s) = image_mset task_arg (pool_jobs p)"
    and "nthreads p' = nthreads p" and "\<And>k c. R k = Some c \<Longrightarrow> wpc p' k = wpc p k"
    and "\<And>i tn. i \<in> set (sv_pool s) \<Longrightarrow> sv_tasks s i = Some tn \<Longrightarrow> \<exists>tn'. sv_tasks s' i = Some tn' \<and> t_client tn' = t_client tn"
  shows "ready_ok p' s' R"
  unfolding ready_ok_def
proof (intro allI impI)
  fix k c
  assume r: "R k = Some c"
  then obtain t tn where t: "k < nthreads p" "wpc p k = Running t" "sv_tasks s (task_arg t) = Some tn" "t_client tn = c"
    using assms(1) unfolding ready_ok_def by blast
  have "t \<in># pool_jobs p" using running_job [OF assms(2) t(1)] t(2) by blast
  then have "task_arg t \<in># mset (sv_pool s)" unfolding assms(3) by simp
  then have "task_arg t \<in> set (sv_pool s)" by simp
  with assms(6) [OF this t(3)] t assms(4,5) r
  show "k < nthreads p' \<and> (\<exists>t tn. wpc p' k = Running t \<and> sv_tasks s' (task_arg t) = Some tn \<and> t_client tn = c)" by auto
qed

lemma quiet_wpc: "quiet_step p p' \<Longrightarrow> wpc p k = Running t \<Longrightarrow> wpc p' k = Running t"
  unfolding quiet_step_def by (auto elim!: worker_stepE push_stepE destroy_stepE simp: wake_def)

lemma quiet_nthreads: "quiet_step p p' \<Longrightarrow> nthreads p' = nthreads p"
  using nthreads_step [OF quiet_pool_step] .

lemma system_ok_start:
  assumes "q_inv q" and "q_list q = []" and "idle s" and "0 < n"
  shows "system_ok n \<lparr>sy_pool = pool_init q n, sy_server = s, sy_ready = (\<lambda>_. None)\<rparr>"
proof -
  have "pool_ok n (pool_init q n)" using assms(1,2,4) by (simp add: pool_ok_def PoolSteps.reach.init)
  moreover have "accepted (pool_init q n) = []" "mpc (pool_init q n) = MIdle" by (simp_all add: pool_init_def)
  ultimately show ?thesis using assms(3) idle_ok [OF assms(3)]
    by (simp add: system_ok_def pool_jobs_def numbered_def ready_ok_def pushing_ok_def idle_def)
qed

text \<open>The two steps in which a worker returns from its task.\<close>

lemma system_ok_complete:
  assumes ok: "system_ok n \<lparr>sy_pool = p, sy_server = s, sy_ready = R\<rparr>" and c: "complete_step k t p p'"
    and s': "server_ok s'" "sv_pool s' = remove1 (task_arg t) (sv_pool s)" "sv_tnext s' = sv_tnext s"
      "\<And>j. j \<noteq> task_arg t \<Longrightarrow> sv_tasks s' j = sv_tasks s j"
    and R': "\<And>j. R' j = (if j = k then None else R j)"
  shows "system_ok n \<lparr>sy_pool = p', sy_server = s', sy_ready = R'\<rparr>"
proof -
  note u = ok [unfolded system_ok_def, simplified]
  have p': "p' = p\<lparr>finished := finished p @ [t], wpc := (wpc p)(k := AtLock)\<rparr>" by (rule complete_same [OF c])
  have k: "k < nthreads p" "wpc p k = Running t" using c by (simp_all add: complete_step_def)
  have l: "mset (sv_pool s') = image_mset task_arg (pool_jobs p')"
    using exec.complete_list [OF _ c, of n "sv_pool s" task_arg] u s'(2) by simp
  have "ready_ok p' s' R'"
    unfolding ready_ok_def
  proof (intro allI impI)
    fix j d
    assume "R' j = Some d"
    then have j: "R j = Some d" "j \<noteq> k" using R' by (auto split: if_splits)
    then obtain v tn where v: "j < nthreads p" "wpc p j = Running v" "sv_tasks s (task_arg v) = Some tn" "t_client tn = d"
      using u unfolding ready_ok_def by blast
    have "task_arg t \<noteq> task_arg v"
      using exec.jobs_distinct [of "sv_pool s" task_arg p t v] running_two [OF _ k(1) v(1) j(2) disjI1 [OF k(2)] disjI1 [OF v(2)]] u
      by (auto simp: server_inv_def tasks_ok_def)
    then show "j < nthreads p' \<and> (\<exists>t tn. wpc p' j = Running t \<and> sv_tasks s' (task_arg t) = Some tn \<and> t_client tn = d)"
      using v j(2) s'(4) [of "task_arg v"] by (auto simp: p')
  qed
  moreover have "pool_ok n p'" using pool_ok_step [OF _ complete_pool_step [OF c]] u by blast
  moreover have "numbered p' (sv_tnext s')" using u s'(3) by (simp add: p' numbered_def)
  moreover have "pushing_ok p' s'" using u s'(3) by (simp add: p' pushing_ok_def)
  ultimately show ?thesis using l s'(1) by (simp add: system_ok_def)
qed

lemma main_may_pushing:
  "main_may p p' s \<Longrightarrow> pushing_ok p s \<Longrightarrow> pushing_ok p' s"
  by (auto simp: main_may_def pushing_ok_def split: main_pc.splits)

lemma system_step_ok:
  assumes "system_step E y y'" and "system_ok n y"
  shows "system_ok n y'"
  using assms(1)
proof (cases rule: system_step.cases)
  case (sync p p' s R)
  note u = assms(2) [unfolded sync system_ok_def, simplified]
  have "accepted p' = accepted p" using quiet_same [OF sync(3)] by simp
  moreover have "wpc p' k = wpc p k" if r: "R k = Some c" for k c
  proof -
    obtain t where "wpc p k = Running t" using u r unfolding ready_ok_def by blast
    with quiet_wpc [OF sync(3) this] show ?thesis by simp
  qed
  then have "ready_ok p' s R"
    using u by (intro ready_ok_mono [of p s R n p' s]) (simp_all add: quiet_nthreads [OF sync(3)])
  ultimately show ?thesis
    using u exec.quiet_jobs [OF _ sync(3), of n] main_may_pushing [OF sync(4)]
    by (simp add: sync(2) system_ok_def numbered_def)
next
  case (event p s e c0 s' R)
  note u = assms(2) [unfolded event system_ok_def, simplified]
  have ok: "server_ok s'" using handle_event_ok [OF _ event(5-7)] u by blast
  have t: "sv_pool s' = sv_pool s" "\<forall>i \<in> set (sv_pool s). sv_tasks s' i = sv_tasks s i"
    using handle_event_tasks [OF _ event(5,7)] u event(8) by auto
  have "ready_ok p s' R" using u t(2) by (intro ready_ok_mono [of p s R n p s']) auto
  then show ?thesis using u ok t(1) event(3,8) by (simp add: event(2) system_ok_def pushing_ok_def)
next
  case (submit t b p p' e s c0 s' R)
  note u = assms(2) [unfolded submit system_ok_def, simplified]
  have ok: "server_ok s'" using handle_event_ok [OF _ submit(4-6)] u by blast
  have t: "sv_pool s' = (if b then sv_pool s @ [sv_tnext s] else sv_pool s)" "\<forall>i \<in> set (sv_pool s). sv_tasks s' i = sv_tasks s i"
    using handle_event_tasks [OF _ submit(4,6)] u submit(7,8) by auto
  have p: "accepted p' = (if b then accepted p @ [t] else accepted p)" "wpc p' = wpc p" "mpc p = MPush t"
    using submit_same [OF submit(3)] submit(3) by (simp_all add: submit_step_def)
  have a: "targs t = Some (sv_tnext s)" "task_arg t = sv_tnext s" using u p(3) by (auto simp: pushing_ok_def task_arg_def)
  have l: "mset (sv_pool s') = image_mset task_arg (pool_jobs p')"
    using exec.submit_list [OF _ submit(3), of n "sv_pool s" task_arg] u a(2) t(1) by (cases b) simp_all
  have "nthreads p' = nthreads p" using nthreads_step [OF submit_pool_step [OF submit(3)]] .
  then have "ready_ok p' s' R" using u t(2) p(2) by (intro ready_ok_mono [of p s R n p' s']) auto
  moreover have "numbered p' (sv_tnext s')"
    using u a p(1) submit(7) by (fastforce simp: numbered_def)
  moreover have "pushing_ok p' s'" using submit(3) by (auto simp: submit_step_def pushing_ok_def elim: push_stepE)
  moreover have "pool_ok n p'" using pool_ok_step [OF _ submit_pool_step [OF submit(3)]] u by blast
  ultimately show ?thesis using ok l by (simp add: submit(2) system_ok_def)
next
  case (answer k p t R w s c s')
  note u = assms(2) [unfolded answer system_ok_def, simplified]
  obtain tn' where e: "server_ok s'" "sv_pool s' = sv_pool s" "sv_tnext s' = sv_tnext s"
    "\<forall>j. j \<noteq> task_arg t \<longrightarrow> sv_tasks s' j = sv_tasks s j" "sv_tasks s' (task_arg t) = Some tn'" "t_client tn' = c"
    using answer_conn_ok [OF answer(7)] u by auto
  obtain tn where tn: "sv_tasks s (task_arg t) = Some tn" "t_client tn = c"
    using answer_conn_effect [OF answer(7)] by auto
  have "ready_ok p s' R"
    using u e(4,5,6) tn by (intro ready_ok_mono [of p s R n p s']) (simp_all, metis option.inject)
  then have "ready_ok p s' (R(k := Some c))" using answer(3,4) e(5,6) by (auto simp: ready_ok_def)
  then show ?thesis using u e(1-3) by (simp add: answer(2) system_ok_def pushing_ok_def)
next
  case (reject k t p p' R w s s')
  note u = assms(2) [unfolded reject(1)]
  have e: "server_ok s'" "sv_pool s' = sv_pool s" "sv_tnext s' = sv_tnext s"
    "\<forall>j. j \<noteq> task_arg t \<longrightarrow> sv_tasks s' j = sv_tasks s j"
    using answer_conn_ok [OF reject(6)] u by (auto simp: system_ok_def)
  show ?thesis unfolding reject(2)
    using server_ok_take [OF e(1)] e(2-4) reject(4)
    by (intro system_ok_complete [OF u reject(3)]) (auto simp: take_task_def)
next
  case (register k t p p' R c s kev)
  note u = assms(2) [unfolded register(1)]
  have k: "k < nthreads p" "wpc p k = Running t" using register(3) by (simp_all add: complete_step_def)
  have i: "task_arg t \<in> set (sv_pool s)"
    using exec.complete_list [OF _ register(3), of n "sv_pool s" task_arg] u by (simp add: system_ok_def)
  have "ready_ok p s R" using u by (simp add: system_ok_def)
  then obtain tn where tn: "sv_tasks s (task_arg t) = Some tn" "t_client tn = c"
    using register(4) k(2) unfolding ready_ok_def by fastforce
  have "server_ok s" using u by (simp add: system_ok_def)
  from register_write_ok [OF this i tn register(5)] show ?thesis unfolding register(2)
    by (intro system_ok_complete [OF u register(3)]) (simp_all add: register_write_def take_task_def)
next
  case (quit p s table w h R)
  note u = assms(2) [unfolded quit system_ok_def, simplified]
  have "server_ok (s\<lparr>sv_route := None, sv_heap := h\<rparr>)"
    by (rule server_inv_cong [THEN iffD2, rotated -1]) (use u in simp_all)
  then show ?thesis using u by (simp add: quit(2) system_ok_def ready_ok_def pushing_ok_def)
qed

lemma sys_reach_ok: "sys_reach n E y \<Longrightarrow> 0 < n \<Longrightarrow> system_ok n y"
  by (induction rule: sys_reach.induct) (blast intro: system_ok_start system_step_ok)+

section \<open>Concrete runs\<close>

text \<open>A worker's task in one step is its answer followed by its registration; so a run of the coarse model
  of \<open>HttpInv\<close> is a run of the system.\<close>

lemma handle_conn_split:
  "handle_conn w i (take_task i s) = rbind (answer_conn w i s) (\<lambda>(c, s1).
     Inr (case c of None \<Rightarrow> take_task i s1 | Some cl \<Rightarrow> register_write (we_kevent w) cl i (take_task i s1)))"
proof -
  have "answer_conn w i (take_task i s) = rbind (answer_conn w i s) (\<lambda>(c, s1). Inr (c, take_task i s1))"
  proof (cases "sv_tasks s i")
    case (Some tn)
    then show ?thesis by (cases s)
      (auto simp: answer_conn_def take_task_def rbind_def Let_def split: sum.split prod.split)
  qed (simp add: answer_conn_def take_task_def)
  then show ?thesis by (cases "answer_conn w i s") (auto simp: handle_conn_def split: option.split)
qed

lemma system_worker:
  assumes r: "sys_reach n E \<lparr>sy_pool = p, sy_server = s, sy_ready = R\<rparr>" and c: "complete_step k t p p'"
    and R: "R k = None" and w: "w \<in> E" "kernel_ok w (task_arg t) s"
    and h: "handle_conn w (task_arg t) (take_task (task_arg t) s) = Inr s'"
  shows "sys_reach n E \<lparr>sy_pool = p', sy_server = s', sy_ready = R\<rparr>"
proof -
  obtain d s1 where a: "answer_conn w (task_arg t) s = Inr (d, s1)"
    and s': "s' = (case d of None \<Rightarrow> take_task (task_arg t) s1
      | Some cl \<Rightarrow> register_write (we_kevent w) cl (task_arg t) (take_task (task_arg t) s1))"
    using h unfolding handle_conn_split by (auto simp: rbind_eq_Inr)
  show ?thesis
  proof (cases d)
    case None
    from a [unfolded None] sys_reach.step [OF r system_step.reject [where R = R, OF c R w(1)]] s' None show ?thesis by simp
  next
    case (Some cl)
    have k: "k < nthreads p" "wpc p k = Running t" using c by (simp_all add: complete_step_def)
    obtain tn where "sv_tasks s (task_arg t) = Some tn" "cl = t_client tn" "sv_conns s1 = sv_conns s"
      using answer_conn_effect [OF a] Some by auto
    then have o: "cl_fd cl \<in> set (sv_conns s1) \<or> we_kevent w < 0" using w(2) by (simp add: kernel_ok_def)
    have "sys_reach n E \<lparr>sy_pool = p, sy_server = s1, sy_ready = R(k := Some cl)\<rparr>"
      by (rule sys_reach.step [OF r system_step.answer [where R = R, OF k R w(1) a [unfolded Some]]])
    from sys_reach.step [OF this system_step.register [OF c _ o]] s' Some fun_upd_triv [of R k] R
    show ?thesis by simp
  qed
qed

lemma handle_conn_keeps:
  "handle_conn w i (take_task i s) = Inr s' \<Longrightarrow> sv_route s' = sv_route s \<and> sv_tnext s' = sv_tnext s"
  unfolding handle_conn_split
  by (auto simp: rbind_eq_Inr take_task_def register_write_def dest!: answer_conn_effect split: option.split)

text \<open>Steps of the pool that the server takes no part in, executed.\<close>

definition calm :: "nat \<Rightarrow> bool \<Rightarrow> act \<Rightarrow> pool_t \<Rightarrow> bool" where
  "calm m open a p = (case a of
       W i \<Rightarrow> (case wpc p i of Running t \<Rightarrow> False | _ \<Rightarrow> True)
     | CallPush t \<Rightarrow> targs t = Some m \<and> open
     | CallDestroy \<Rightarrow> \<not> open
     | M \<Rightarrow> (case mpc p of MPush t \<Rightarrow> False | _ \<Rightarrow> True))"

fun calm_run :: "nat \<Rightarrow> bool \<Rightarrow> act list \<Rightarrow> pool_t \<Rightarrow> pool_t option" where
  "calm_run m open [] p = Some p"
| "calm_run m open (a # as) p = (if calm m open a p then
     (case exec_act a p of None \<Rightarrow> None | Some p' \<Rightarrow> calm_run m open as p') else None)"

lemma main_exec_may:
  assumes "main_exec p = Some p'" and "\<And>t. mpc p \<noteq> MPush t"
  shows "(push_step p p' \<or> destroy_step p p') \<and> main_may p p' s"
  using assms unfolding main_exec_def main_may_def
  by (auto split: main_pc.splits if_splits option.splits sum.splits simp: find_None_iff find_Some_iff
      intro: push_step.intros destroy_step.intros)

lemma main_exec_push: "main_exec p = Some p' \<Longrightarrow> mpc p = MPush t \<Longrightarrow> push_step p p'"
  unfolding main_exec_def by (auto split: if_splits option.splits intro: push_step.intros dest: q_enq_push)

lemma worker_step_mpc: "worker_step k p p' \<Longrightarrow> mpc p' = mpc p"
  by (auto elim: worker_stepE)

lemma calm_sound:
  assumes "exec_act a p = Some p'" and "calm (sv_tnext s) (sv_route s \<noteq> None) a p"
  shows "quiet_step p p' \<and> main_may p p' s"
proof (cases a)
  case (W i)
  then have "i < nthreads p" "worker_step i p p'" "\<forall>t. wpc p i \<noteq> Running t"
    using assms by (auto simp: calm_def worker_exec_sound split: if_splits worker_pc.splits)
  then show ?thesis using worker_step_mpc by (auto simp: quiet_step_def main_may_def)
next
  case (CallPush t)
  then show ?thesis using assms
    by (auto simp: calm_def quiet_step_def main_may_def split: if_splits intro: push_step.intros)
next
  case CallDestroy
  then show ?thesis using assms
    by (auto simp: calm_def quiet_step_def main_may_def split: if_splits intro: destroy_step.intros)
next
  case M
  then have m: "\<And>t. mpc p \<noteq> MPush t" using assms(2) by (auto simp: calm_def)
  from main_exec_may [OF _ this] assms(1) M m show ?thesis by (auto simp: quiet_step_def)
qed

lemma calm_run_reach:
  assumes "calm_run (sv_tnext s) (sv_route s \<noteq> None) acts p = Some p'"
    and "sys_reach n E \<lparr>sy_pool = p, sy_server = s, sy_ready = R\<rparr>"
  shows "sys_reach n E \<lparr>sy_pool = p', sy_server = s, sy_ready = R\<rparr>"
  using assms
proof (induction acts arbitrary: p)
  case (Cons a acts)
  then obtain q where q: "exec_act a p = Some q" "calm (sv_tnext s) (sv_route s \<noteq> None) a p"
    "calm_run (sv_tnext s) (sv_route s \<noteq> None) acts q = Some p'" by (auto split: if_splits option.splits)
  from calm_sound [OF q(1,2)] have "quiet_step p q" "main_may p q s" by simp_all
  from Cons.IH [OF q(3) sys_reach.step [OF Cons.prems(2) system_step.sync [OF this]]] show ?case .
qed simp

text \<open>Two workers: worker 0 sleeps, the loop pushes task 0 and wakes it, it pops and runs the task; then
  the pool is destroyed.\<close>

definition calm_acts :: "act list list" where
  "calm_acts = [[W 0, W 0, CallPush (sample_task 0)], [M, M, W 0, W 0, W 0],
     [CallDestroy, M, M, M, W 0, W 0, M, W 1, W 1, M, M]]"

lemma calm_acts_run:
  "case calm_run 0 True (calm_acts ! 0) (pool_init one_cell 2) of None \<Rightarrow> False | Some p1 \<Rightarrow>
     mpc p1 = MPush (sample_task 0) \<and> (case exec_act M p1 of None \<Rightarrow> False | Some p2 \<Rightarrow> mpc p2 = MSignal
       \<and> (case calm_run 1 True (calm_acts ! 1) p2 of None \<Rightarrow> False | Some p3 \<Rightarrow>
         mpc p3 = MIdle \<and> nthreads p3 = 2 \<and> wpc p3 0 = Running (sample_task 0)
       \<and> (case exec_act (W 0) p3 of None \<Rightarrow> False | Some p4 \<Rightarrow> mpc p4 = MIdle
       \<and> (case calm_run 1 False (take 3 (calm_acts ! 2)) p4 of None \<Rightarrow> False | Some p6 \<Rightarrow> mpc p6 = DBcast)
       \<and> (case calm_run 1 False (calm_acts ! 2) p4 of None \<Rightarrow> False | Some p5 \<Rightarrow>
         mpc p5 = DDone \<and> accepted p5 = [sample_task 0]))))"
  by code_simp

text \<open>The server of these runs has an empty route table; the client asks with a method other than GET.\<close>

definition server_e :: "((key \<times> nat route_handler_t) list, unit) server_t" where
  "server_e = server5\<lparr>sv_route := Some []\<rparr>"

lemma accept5_empty: "handle_event (client_n 0) accept5 (server0\<lparr>sv_route := Some []\<rparr>) = Some (Inr server_e)"
  by (simp add: handle_event_def accept5_def event0_def server0_def server5_def server_e_def listener0_def s_accept_def
      conn5_def client_n_def addr0_def arr_write_def arr_put_def overwrite_def INET_ADDRSTRLEN_def
      enrol_client_def list_add_def insert_client_def init_list_def nheap0_def Let_def client5_def
      ev_add_def ev_delete_def ntohs_def numeral_eq_Suc)

lemma accept5_step:
  "system_step E \<lparr>sy_pool = pool_init one_cell 2, sy_server = server0\<lparr>sv_route := Some []\<rparr>, sy_ready = (\<lambda>_. None)\<rparr>
     \<lparr>sy_pool = pool_init one_cell 2, sy_server = server_e, sy_ready = (\<lambda>_. None)\<rparr>"
proof -
  let ?s = "server0\<lparr>sv_route := Some []\<rparr>"
  have "ke_conns accept5 = [conn5]" by (simp add: accept5_def)
  moreover have "answer_ok conn5 ?s" by (simp add: answer_in_def conn5_def server0_def listener0_def)
  ultimately have a: "answers_ok (client_n 0) (ke_conns accept5) ?s" by (simp split: sum.split del: accept_client.simps)
  have r: "reported accept5 ?s" by (simp add: reported_def accept5_def event0_def server0_def listener0_def)
  show ?thesis by (rule system_step.event [OF _ _ r a accept5_empty]) (simp_all add: pool_init_def server_e_def server5_def)
qed

lemma sys_reach_accepted:
  "sys_reach 2 E \<lparr>sy_pool = pool_init one_cell 2, sy_server = server_e, sy_ready = (\<lambda>_. None)\<rparr>"
proof -
  have "idle (server0\<lparr>sv_route := Some []\<rparr>)" using idle_server0 by (simp add: idle_def)
  then show ?thesis
    by (intro sys_reach.step [OF sys_reach.start accept5_step]) (simp_all add: one_cell_def q_inv_def q_list_def)
qed

text \<open>The state in which worker 0 runs the client's task, and the one in which the pool is released.\<close>

lemma sys_reach_served:
  obtains p s p' s' p6 where
    "sys_reach 2 {worker0 ''POST'' ''/''} \<lparr>sy_pool = p, sy_server = s, sy_ready = (\<lambda>_. None)\<rparr>"
    "wpc p 0 = Running (sample_task 0)" "mpc p = MIdle" "sv_pool s = [0]"
    "sys_reach 2 {worker0 ''POST'' ''/''} \<lparr>sy_pool = p', sy_server = s', sy_ready = (\<lambda>_. None)\<rparr>"
    "mpc p' = DDone" "accepted p' = [sample_task 0]"
    "sys_reach 2 {worker0 ''POST'' ''/''} \<lparr>sy_pool = p6, sy_server = s', sy_ready = (\<lambda>_. None)\<rparr>" "mpc p6 = DBcast"
proof -
  let ?W = "worker0 ''POST'' ''/''" and ?R = "\<lambda>_. None"
  obtain p1 p2 p3 p4 p5 p6 where
    p1: "calm_run 0 True (calm_acts ! 0) (pool_init one_cell 2) = Some p1" "mpc p1 = MPush (sample_task 0)"
    and p2: "exec_act M p1 = Some p2" "mpc p2 = MSignal"
    and p3: "calm_run 1 True (calm_acts ! 1) p2 = Some p3" "mpc p3 = MIdle" "nthreads p3 = 2" "wpc p3 0 = Running (sample_task 0)"
    and p4: "exec_act (W 0) p3 = Some p4" "mpc p4 = MIdle"
    and p5: "calm_run 1 False (calm_acts ! 2) p4 = Some p5" "mpc p5 = DDone" "accepted p5 = [sample_task 0]"
    and p6: "calm_run 1 False (take 3 (calm_acts ! 2)) p4 = Some p6" "mpc p6 = DBcast"
    using calm_acts_run by (auto split: option.split_asm)
  have f: "sv_tnext server_e = 0" "sv_route server_e = Some []" "sv_pool server_e = []" "sv_kq server_e = sv_kq server5"
    by (simp_all add: server_e_def server5_def server0_def)
  have r1: "sys_reach 2 {?W} \<lparr>sy_pool = p1, sy_server = server_e, sy_ready = ?R\<rparr>"
    by (rule calm_run_reach [where s = server_e and acts = "calm_acts ! 0", OF _ sys_reach_accepted]) (use p1(1) in \<open>simp add: f\<close>)
  have e1: "request_event read5 5 ''GET'' server_e"
    using read5_event by (simp add: request_event_def server_e_def)
  have d: "pct_decode ''/'' = Some ''/''" "get_mothod_type ''POST'' \<noteq> GET" by code_simp+
  have a: "asks (we_llhttp ?W) ''GET'' ''POST'' ''/'' ''/''" by (rule asks_worker0 [OF d(1)]) (simp_all add: NUL_def)
  have h: "ready (sv_heap server_e)" using ready_heap0 by (simp add: server_e_def server5_def server0_def)
  have k: "0 \<le> we_kevent ?W" by (simp add: worker0_def)
  have ok: "server_ok server_e" using sys_reach_ok [OF r1] by (simp add: system_ok_def)
  obtain s1 s2 where s: "handle_event (client_n 0) read5 server_e = Some (Inr s1)" "kernel_ok ?W 0 s1"
    "handle_conn ?W 0 (take_task 0 s1) = Inr s2" "sv_tnext s2 = 1" "sv_pool s2 = []"
    by (rule request_answered [OF ok h e1 a k responds_other [OF d(2)]]) (simp add: f)
  obtain s1' tn where "handle_event (client_n 0) read5 server_e = Some (Inr s1')"
    "s1' = server_e\<lparr>sv_tasks := (sv_tasks server_e)(sv_tnext server_e \<mapsto> tn), sv_tnext := Suc (sv_tnext server_e),
       sv_pool := sv_pool server_e @ [sv_tnext server_e], sv_heap := sv_heap s1'\<rparr>"
    by (rule request_read [OF ok h e1]) blast
  then have e: "s1 = server_e\<lparr>sv_tasks := (sv_tasks server_e)(0 \<mapsto> tn), sv_tnext := 1, sv_pool := [0], sv_heap := sv_heap s1\<rparr>"
    using s(1) by (simp add: f)
  obtain H where "sv_heap s1 = H" by blast
  with e have t: "sv_pool s1 = [0]" "sv_tnext s1 = 1" "sv_route s1 = Some []" by (simp_all add: f)
  have u: "sv_route s2 = Some []" using handle_conn_keeps [OF s(3)] t(3) by simp
  have sub: "submit_step (sample_task 0) True p1 p2"
    using main_exec_push p1(2) p2 by (auto simp: submit_step_def)
  have "reported read5 server_e" "answers_ok (client_n 0) (ke_conns read5) server_e" "ti_pushed (ke_task read5) = True"
    by (simp_all add: reported_def read5_def event0_def f server5_def task_in0_def)
  then have "sys_reach 2 {?W} \<lparr>sy_pool = p2, sy_server = s1, sy_ready = ?R\<rparr>"
    using sys_reach.step [OF r1 system_step.submit [OF sub _ _ s(1)]] t(2) f(1) by simp
  then have r3: "sys_reach 2 {?W} \<lparr>sy_pool = p3, sy_server = s1, sy_ready = ?R\<rparr>"
    by (rule calm_run_reach [where s = s1 and acts = "calm_acts ! 1", rotated]) (use p3(1) t in simp)
  have "complete_step 0 (sample_task 0) p3 p4"
    using p3(3,4) p4(1) worker_exec_sound by (simp add: complete_step_def)
  moreover have i: "task_arg (sample_task 0) = 0" by (simp add: task_arg_def sample_task_def)
  ultimately have r4: "sys_reach 2 {?W} \<lparr>sy_pool = p4, sy_server = s2, sy_ready = ?R\<rparr>"
    using system_worker [OF r3, of 0 "sample_task 0" p4 ?W s2] s(2,3) by simp
  have "destroy_route (we_khash ?W) [] (sv_heap s2) = Inr (0, sv_heap s2)"
    by (simp add: destroy_route_def worker0_def assoc_khash_def)
  note q = sys_reach.step [OF r4 system_step.quit [OF p4(2) u _ this]]
  let ?s = "s2\<lparr>sv_route := None, sv_heap := sv_heap s2\<rparr>"
  have r: "sys_reach 2 {?W} \<lparr>sy_pool = p4, sy_server = ?s, sy_ready = ?R\<rparr>" using q by simp
  have m: "sv_tnext ?s = 1" "(sv_route ?s \<noteq> None) = False" using s(4) by simp_all
  have "sys_reach 2 {?W} \<lparr>sy_pool = p5, sy_server = ?s, sy_ready = ?R\<rparr>"
    by (rule calm_run_reach [where s = ?s and acts = "calm_acts ! 2", OF _ r]) (use p5(1) m in simp)
  moreover have "sys_reach 2 {?W} \<lparr>sy_pool = p6, sy_server = ?s, sy_ready = ?R\<rparr>"
    by (rule calm_run_reach [where s = ?s and acts = "take 3 (calm_acts ! 2)", OF _ r]) (use p6(1) m in simp)
  ultimately show thesis using that [OF r3 p3(4,2) t(1)] p5(2,3) p6(2) by blast
qed

section \<open>Shutting down\<close>

text \<open>What is left to do once \<open>destroy_pool\<close> has broadcast: the steps of the pool, and between any two of
  them at most one answer of each worker.\<close>

definition sys_measure :: "('m, 'p) system_t \<Rightarrow> nat" where
  "sys_measure y = Suc (nthreads (sy_pool y)) * drain_measure (sy_pool y)
     + card {k. k < nthreads (sy_pool y) \<and> sy_ready y k = None}"

lemma idle_workers_le: "card {k. k < n \<and> R k = None} \<le> (n::nat)"
  using card_mono [of "{..<n}" "{k. k < n \<and> R k = None}"] by (simp add: subset_iff)

lemma measure_drop:
  fixes a b c d n :: nat
  assumes "a < b" and "c \<le> n"
  shows "Suc n * a + c < Suc n * b + d"
proof -
  have "Suc n * Suc a \<le> Suc n * b" using assms(1) by (intro mult_le_mono2) simp
  then show ?thesis using assms(2) by simp
qed

lemma sys_measure_pool:
  assumes "pool_step p p'" and "pool_inv p" and "broadcast_done (mpc p)"
  shows "sys_measure \<lparr>sy_pool = p', sy_server = s', sy_ready = R'\<rparr> < sys_measure \<lparr>sy_pool = p, sy_server = s, sy_ready = R\<rparr>
     \<and> broadcast_done (mpc p')"
  using drain_step [OF assms] nthreads_step [OF assms(1)] idle_workers_le [of "nthreads p" R']
  by (simp add: sys_measure_def measure_drop del: mult_Suc)

lemma sys_measure_answer:
  assumes "k < nthreads p" and "R k = None"
  shows "sys_measure \<lparr>sy_pool = p, sy_server = s', sy_ready = R(k := Some c)\<rparr>
     < sys_measure \<lparr>sy_pool = p, sy_server = s, sy_ready = R\<rparr>"
proof -
  have "{j. j < nthreads p \<and> (R(k := Some c)) j = None} \<subset> {j. j < nthreads p \<and> R j = None}" using assms by auto
  then have "card {j. j < nthreads p \<and> (R(k := Some c)) j = None} < card {j. j < nthreads p \<and> R j = None}"
    by (intro psubset_card_mono) simp_all
  then show ?thesis by (simp add: sys_measure_def)
qed

lemma sys_measure_step:
  assumes "system_step E y y'" and inv: "pool_inv (sy_pool y)" and b: "broadcast_done (mpc (sy_pool y))"
  shows "sys_measure y' < sys_measure y \<and> broadcast_done (mpc (sy_pool y'))"
  using assms(1)
proof (cases rule: system_step.cases)
  case (sync p p' s R)
  then show ?thesis using sys_measure_pool [OF quiet_pool_step] inv b by simp
next
  case (submit t a p p' e s c0 s' R)
  then show ?thesis using b by (simp add: submit_step_def)
next
  case (answer k p t R w s c s')
  then show ?thesis using sys_measure_answer [of k p R] b by simp
next
  case (reject k t p p' R w s s')
  then show ?thesis using sys_measure_pool [OF complete_pool_step] inv b by simp
next
  case (register k t p p' R c s kev)
  then show ?thesis using sys_measure_pool [OF complete_pool_step] inv b by simp
qed (use b in auto)

text \<open>If the pool can step then so can the system, unless a worker's response cannot be generated.\<close>

lemma broadcast_main:
  assumes "push_step p p' \<or> destroy_step p p'" and "broadcast_done (mpc p)"
  shows "(\<forall>t. mpc p \<noteq> MPush t) \<and> main_may p p' s"
  using assms by (auto simp: main_may_def elim!: push_stepE destroy_stepE)

lemma worker_progress:
  assumes k: "k < nthreads p" "worker_step k p p'"
    and ans: "\<And>t. wpc p k = Running t \<Longrightarrow> R k = None \<Longrightarrow> \<exists>w \<in> E. \<exists>x. answer_conn w (task_arg t) s = Inr x"
  shows "\<exists>y'. system_step E \<lparr>sy_pool = p, sy_server = s, sy_ready = R\<rparr> y'
     \<and> (sy_pool y' = p' \<or> sy_pool y' = p \<and> R k = None \<and> sy_ready y' k \<noteq> None)"
proof (cases "\<exists>t. wpc p k = Running t")
  case True
  then obtain t where t: "wpc p k = Running t" by blast
  have c: "complete_step k t p p'" using k t by (simp add: complete_step_def)
  show ?thesis
  proof (cases "R k")
    case None
    obtain w d s' where w: "w \<in> E" "answer_conn w (task_arg t) s = Inr (d, s')" using ans [OF t None] by auto
    show ?thesis
    proof (cases d)
      case None
      with w system_step.reject [where R = R, OF c \<open>R k = None\<close>] show ?thesis by fastforce
    next
      case (Some cl)
      with w system_step.answer [where R = R, OF k(1) t \<open>R k = None\<close>, of w E s cl s'] \<open>R k = None\<close> show ?thesis by fastforce
    qed
  next
    case (Some cl)
    then show ?thesis using system_step.register [where R = R and kev = "-1", OF c] by fastforce
  qed
next
  case False
  then have "quiet_step p p'" using k by (auto simp: quiet_step_def)
  moreover have "main_may p p' s" using worker_step_mpc [OF k(2)] by (simp add: main_may_def)
  ultimately show ?thesis using system_step.sync [of p p' s E R] by (intro exI conjI) (assumption, simp)
qed

lemma system_progress:
  assumes "pool_step p p'" and "broadcast_done (mpc p)"
    and ans: "\<And>k t. k < nthreads p \<Longrightarrow> wpc p k = Running t \<Longrightarrow> R k = None \<Longrightarrow> \<exists>w \<in> E. \<exists>x. answer_conn w (task_arg t) s = Inr x"
  shows "\<exists>y'. system_step E \<lparr>sy_pool = p, sy_server = s, sy_ready = R\<rparr> y'"
  using assms(1)
proof (cases rule: pool_step.cases)
  case (worker k)
  from worker_progress [OF this, of R E s] ans worker(1) show ?thesis by blast
next
  case pushing
  with broadcast_main [of p p' s] assms(2) show ?thesis using system_step.sync by (fastforce simp: quiet_step_def)
next
  case destroying
  with broadcast_main [of p p' s] assms(2) show ?thesis using system_step.sync by (fastforce simp: quiet_step_def)
qed

section \<open>Properties\<close>

text \<open>C3: Memory safety across the threads: in every state that the loop and the workers can reach, in any
  interleaving, every task in the ring or in the hands of a worker is allocated and no registration of the
  kqueue leads to it, so the loop does not touch it; no two workers have the same task, whether they have
  just popped it or run it; and every WRITE registration is for an open descriptor and leads to an allocated
  task that was created for a client with that descriptor.  The number is all that ties the two together: once
  it is used again, the client of the task may be gone and the connection another's (\<open>misdirected_response\<close>).\<close>

theorem system_memory_safe:
  assumes "sys_reach n E y" and "0 < n"
  shows "(\<forall>k < n. \<forall>t. wpc (sy_pool y) k = Running t \<or> wpc (sy_pool y) k = Popped (Some t) \<longrightarrow>
       (\<exists>i. targs t = Some i \<and> sv_tasks (sy_server y) i \<noteq> None \<and> (\<forall>fd f. (fd, f, TaskData i) \<notin> set (sv_kq (sy_server y)))))
   \<and> (mpc (sy_pool y) \<noteq> DDone \<longrightarrow> (\<forall>t \<in> set (q_list (pq (sy_pool y))). \<exists>i. targs t = Some i \<and> sv_tasks (sy_server y) i \<noteq> None
        \<and> (\<forall>fd f. (fd, f, TaskData i) \<notin> set (sv_kq (sy_server y)))))
   \<and> (\<forall>j < n. \<forall>k < n. \<forall>t u. j \<noteq> k \<longrightarrow> wpc (sy_pool y) j = Running t \<or> wpc (sy_pool y) j = Popped (Some t) \<longrightarrow>
        wpc (sy_pool y) k = Running u \<or> wpc (sy_pool y) k = Popped (Some u) \<longrightarrow> targs t \<noteq> targs u)
   \<and> (\<forall>fd i. (fd, EVFILT_WRITE, TaskData i) \<in> set (sv_kq (sy_server y)) \<longrightarrow>
        fd \<in> set (sv_conns (sy_server y)) \<and> (\<exists>tn. sv_tasks (sy_server y) i = Some tn \<and> cl_fd (t_client tn) = fd))"
proof -
  note ok = sys_reach_ok [OF assms, unfolded system_ok_def]
  let ?p = "sy_pool y" and ?s = "sy_server y"
  have n: "nthreads ?p = n" using ok reach_nthreads by (auto simp: pool_ok_def)
  have job: "\<exists>i. targs t = Some i \<and> sv_tasks ?s i \<noteq> None \<and> (\<forall>fd f. (fd, f, TaskData i) \<notin> set (sv_kq ?s))"
    if t: "t \<in># pool_jobs ?p" for t
  proof -
    have "t \<in> set (accepted ?p)" using t by (auto simp: pool_jobs_def dest: in_diffD)
    then obtain i where i: "targs t = Some i" "task_arg t = i" using ok by (auto simp: numbered_def task_arg_def)
    have "i \<in># mset (sv_pool ?s)" using ok t i(2) by auto
    then have p: "i \<in> set (sv_pool ?s)" by simp
    have "(fd, f, TaskData i) \<notin> set (sv_kq ?s)" for fd f
    proof
      assume "(fd, f, TaskData i) \<in> set (sv_kq ?s)"
      then have "reg_ok ?s (fd, f, TaskData i)" using ok by (auto simp: server_inv_def)
      then show False using p by (auto simp: reg_inv_def node_for_def task_for_def split: filter_t.splits)
    qed
    then show ?thesis using ok p i(1) by (auto simp: server_inv_def tasks_ok_def)
  qed
  have "targs t \<noteq> targs u" if "j < n" "k < n" "j \<noteq> k" "wpc ?p j = Running t \<or> wpc ?p j = Popped (Some t)"
    "wpc ?p k = Running u \<or> wpc ?p k = Popped (Some u)" for j k t u
  proof -
    have "{#t, u#} \<subseteq># pool_jobs ?p" using running_two [of n ?p j k] that ok n by auto
    then have "task_arg t \<noteq> task_arg u"
      using exec.jobs_distinct [of "sv_pool ?s" task_arg ?p t u] ok by (simp add: server_inv_def tasks_ok_def)
    then show ?thesis by (auto simp: task_arg_def)
  qed
  moreover have "t \<in># pool_jobs ?p" if "mpc ?p \<noteq> DDone" "t \<in> set (q_list (pq ?p))" for t
    using pool_jobs_eq [of n ?p] ok that by simp
  moreover have "t \<in># pool_jobs ?p" if "k < n" "wpc ?p k = Running t \<or> wpc ?p k = Popped (Some t)" for k t
    using running_job [of n ?p k t] ok that n by simp
  moreover have "fd \<in> set (sv_conns ?s) \<and> (\<exists>tn. sv_tasks ?s i = Some tn \<and> cl_fd (t_client tn) = fd)"
    if "(fd, EVFILT_WRITE, TaskData i) \<in> set (sv_kq ?s)" for fd i
  proof -
    have "reg_ok ?s (fd, EVFILT_WRITE, TaskData i)" using ok that by (auto simp: server_inv_def)
    then show ?thesis by (auto simp: reg_inv_def task_for_def)
  qed
  ultimately show ?thesis using job by blast
qed

theorem system_memory_safe_witness:
  "\<exists>y. sys_reach 2 {worker0 ''POST'' ''/''} y \<and> wpc (sy_pool y) 0 = Running (sample_task 0)
     \<and> sv_tasks (sy_server y) 0 \<noteq> None \<and> (\<forall>fd f. (fd, f, TaskData 0) \<notin> set (sv_kq (sy_server y)))"
proof -
  obtain p s where r: "sys_reach 2 {worker0 ''POST'' ''/''} \<lparr>sy_pool = p, sy_server = s, sy_ready = (\<lambda>_. None)\<rparr>"
    and w: "wpc p 0 = Running (sample_task 0)"
    by (rule sys_reach_served) blast
  from system_memory_safe [OF r, THEN conjunct1, rule_format, of 0 "sample_task 0"] w
  have "sv_tasks s 0 \<noteq> None \<and> (\<forall>fd f. (fd, f, TaskData 0) \<notin> set (sv_kq s))" by (simp add: sample_task_def)
  with r w show ?thesis by (intro exI) auto
qed

text \<open>C12: The server's list of tasks is what the thread pool holds: in every reachable state of loop and
  workers the numbers in \<open>sv_pool\<close> are, each once, the arguments of the tasks in the ring and in the hands of
  the workers; so the coarse model, in which a worker takes any task of the list, abstracts the pool.\<close>

theorem system_pool_listed:
  assumes "sys_reach n E y" and "0 < n" and "mpc (sy_pool y) \<noteq> DDone"
  shows "mset (sv_pool (sy_server y)) = image_mset task_arg (mset (q_list (pq (sy_pool y))) + flights (sy_pool y))
     \<and> distinct (sv_pool (sy_server y))"
  using sys_reach_ok [OF assms(1,2)] pool_jobs_eq [of n "sy_pool y"] assms(3)
  by (simp add: system_ok_def server_inv_def tasks_ok_def)

theorem system_pool_listed_witness:
  "\<exists>y. sys_reach 2 {worker0 ''POST'' ''/''} y \<and> sv_pool (sy_server y) = [0]
     \<and> image_mset task_arg (mset (q_list (pq (sy_pool y))) + flights (sy_pool y)) = {#0#}"
proof -
  obtain p s where r: "sys_reach 2 {worker0 ''POST'' ''/''} \<lparr>sy_pool = p, sy_server = s, sy_ready = (\<lambda>_. None)\<rparr>"
    and w: "mpc p = MIdle" "sv_pool s = [0]"
    by (rule sys_reach_served) blast
  from system_pool_listed [OF r] w r show ?thesis by (intro exI) auto
qed

text \<open>C8: Every accepted request is handled exactly once: when \<open>destroy_pool\<close> has returned, each task that
  \<open>read_from_client\<close> handed to the pool has been run to its end by a worker, no task twice, and the
  server's list of pending tasks is empty.\<close>

theorem system_drained:
  assumes "sys_reach n E y" and "0 < n" and "mpc (sy_pool y) = DDone"
  shows "sv_pool (sy_server y) = [] \<and> mset (finished (sy_pool y)) = mset (accepted (sy_pool y))
     \<and> distinct (map task_arg (finished (sy_pool y)))"
proof -
  note ok = sys_reach_ok [OF assms(1,2), unfolded system_ok_def]
  have j: "pool_jobs (sy_pool y) = {#}" "mset (accepted (sy_pool y)) = mset (finished (sy_pool y))"
    using pool_jobs_eq [of n "sy_pool y"] ok assms(3) by simp_all
  have "distinct (map task_arg (accepted (sy_pool y)))" using ok by (simp add: numbered_def)
  then have "distinct (map task_arg (finished (sy_pool y)))"
    using j(2) by (metis mset_eq_imp_distinct_iff mset_map)
  then show ?thesis using ok j by simp
qed

theorem system_drained_witness:
  "\<exists>y. sys_reach 2 {worker0 ''POST'' ''/''} y \<and> sv_pool (sy_server y) = []
     \<and> mset (finished (sy_pool y)) = {#sample_task 0#}"
proof -
  obtain p s where r: "sys_reach 2 {worker0 ''POST'' ''/''} \<lparr>sy_pool = p, sy_server = s, sy_ready = (\<lambda>_. None)\<rparr>"
    and w: "mpc p = DDone" "accepted p = [sample_task 0]"
    by (rule sys_reach_served) blast
  from system_drained [OF r] w r show ?thesis by (intro exI) auto
qed

text \<open>C9: The shutdown of the whole server terminates: once \<open>destroy_pool\<close> has broadcast, every step of the
  system lowers \<open>sys_measure\<close>, and none is an event or a new task; and as long as the pool is not
  released some step is possible, if the workers can generate the responses of the tasks they still
  hold.  So the only thing that can keep the server from ending is a fault in a response.\<close>

theorem system_shutdown_terminates:
  assumes "sys_reach n E y" and "0 < n" and "broadcast_done (mpc (sy_pool y))"
  shows "(\<forall>y'. system_step E y y' \<longrightarrow> sys_measure y' < sys_measure y \<and> broadcast_done (mpc (sy_pool y')))
     \<and> (mpc (sy_pool y) \<noteq> DDone \<longrightarrow>
         (\<forall>k t. k < n \<longrightarrow> wpc (sy_pool y) k = Running t \<longrightarrow> sy_ready y k = None \<longrightarrow>
            (\<exists>w \<in> E. \<exists>x. answer_conn w (task_arg t) (sy_server y) = Inr x)) \<longrightarrow>
         (\<exists>y'. system_step E y y'))"
proof -
  have p: "PoolSteps.reach n (sy_pool y)" using sys_reach_ok [OF assms(1,2)] by (simp add: system_ok_def pool_ok_def)
  note inv = reach_pool_inv [OF p assms(2)] and n = reach_nthreads [OF p]
  have "\<exists>y'. system_step E y y'" if d: "mpc (sy_pool y) \<noteq> DDone"
    and a: "\<forall>k t. k < n \<longrightarrow> wpc (sy_pool y) k = Running t \<longrightarrow> sy_ready y k = None \<longrightarrow>
       (\<exists>w \<in> E. \<exists>x. answer_conn w (task_arg t) (sy_server y) = Inr x)"
  proof -
    obtain p' where "pool_step (sy_pool y) p'" using drain_progress [OF inv assms(3) d] by blast
    from system_progress [OF this assms(3), of "sy_ready y" E "sy_server y"] a n show ?thesis
      by (cases y) auto
  qed
  with sys_measure_step [OF _ inv assms(3)] show ?thesis by blast
qed

theorem system_shutdown_terminates_witness:
  "\<exists>y y'. sys_reach 2 {worker0 ''POST'' ''/''} y \<and> mpc (sy_pool y) = DBcast
     \<and> system_step {worker0 ''POST'' ''/''} y y' \<and> sys_measure y' < sys_measure y"
proof -
  obtain p s where r: "sys_reach 2 {worker0 ''POST'' ''/''} \<lparr>sy_pool = p, sy_server = s, sy_ready = (\<lambda>_. None)\<rparr>"
    and m: "mpc p = DBcast"
    by (rule sys_reach_served) blast
  let ?y = "\<lparr>sy_pool = p, sy_server = s, sy_ready = (\<lambda>_. None)\<rparr>" and ?p = "p\<lparr>mpc := DJoin 0, lock := None\<rparr>"
  have "destroy_step p ?p" by (rule d_unlock [OF m])
  then have "quiet_step p ?p" "main_may p ?p s" using m by (simp_all add: quiet_step_def main_may_def)
  then have st: "system_step {worker0 ''POST'' ''/''} ?y \<lparr>sy_pool = ?p, sy_server = s, sy_ready = (\<lambda>_. None)\<rparr>"
    by (rule system_step.sync)
  with system_shutdown_terminates [OF r, THEN conjunct1, rule_format, OF _ _ st] m r
  show ?thesis by (intro exI conjI) auto
qed

end
