(* ===== verification/Ownership.thy ===== *)
theory Ownership
  imports Races System
begin

text \<open>
  Who owns the blocks of the byte heap.  Every task owns the block of its request, no two tasks the same,
  and a task whose response is generated owns the block of the response as well.  Every step of the
  server keeps this, so no handler of the loop and no worker reads freed memory, frees a block twice, or
  leaves an array, as long as the requests are among those that the workers can serve.
\<close>

section \<open>Ownership\<close>

text \<open>The tasks in \<open>A\<close> have a response; the requests are in \<open>Q\<close>.\<close>

definition nodes_available :: "list_t \<times> nheap \<Rightarrow> bool" where
  "nodes_available cl \<longleftrightarrow> (\<forall>a. \<not> nfail (snd cl) a)"

definition owned :: "char list set \<Rightarrow> nat set \<Rightarrow> ('m, 'p) server_t \<Rightarrow> bool" where
  "owned Q A s \<longleftrightarrow> ready (sv_heap s) \<and> nodes_available (sv_clients s)
     \<and> (\<forall>i tn. sv_tasks s i = Some tn \<longrightarrow> (\<exists>q \<in> Q. str_is (sv_heap s) (t_buffer tn) q))
     \<and> (\<forall>i j tn tm. sv_tasks s i = Some tn \<longrightarrow> sv_tasks s j = Some tm \<longrightarrow> sdata (t_buffer tn) = sdata (t_buffer tm) \<longrightarrow> i = j)
     \<and> (\<forall>i \<in> A. \<forall>tn. sv_tasks s i = Some tn \<longrightarrow> (\<exists>txt. str_is (sv_heap s) (complete_resp (t_resp tn)) txt)
          \<and> (\<forall>j tm. sv_tasks s j = Some tm \<longrightarrow> sdata (t_buffer tm) \<noteq> sdata (complete_resp (t_resp tn))))"

lemma ownedD:
  assumes "owned Q A s"
  shows "ready (sv_heap s)" and "nodes_available (sv_clients s)"
    and "sv_tasks s i = Some tn \<Longrightarrow> \<exists>q \<in> Q. str_is (sv_heap s) (t_buffer tn) q"
    and "i \<in> A \<Longrightarrow> sv_tasks s i = Some tn \<Longrightarrow> \<exists>txt. str_is (sv_heap s) (complete_resp (t_resp tn)) txt"
  using assms by (auto simp: owned_def)

lemma owned_mono: "owned Q A s \<Longrightarrow> B \<subseteq> A \<Longrightarrow> owned Q B s"
  unfolding owned_def by blast

lemma owned_cong:
  assumes "sv_heap s' = sv_heap s" and "sv_tasks s' = sv_tasks s" and "nodes_available (sv_clients s) \<Longrightarrow> nodes_available (sv_clients s')"
    and "owned Q A s"
  shows "owned Q A s'"
  using assms(4) unfolding owned_def assms(1,2) using assms(3) by blast

text \<open>Live blocks keep their contents.\<close>

lemma owned_kept:
  assumes "owned Q A s" and "kept (sv_heap s) h"
  shows "owned Q A (s\<lparr>sv_heap := h\<rparr>)"
  using assms kept_str [OF _ assms(2)] unfolding owned_def kept_def by (simp, meson)

lemma live_block: "str_is h r t \<Longrightarrow> \<exists>p \<in> dom (hmem h). sdata r = Some p"
  by (auto elim!: str_isE)

lemma only_new_fresh:
  assumes "ready h" and "only_new h h' r" and "str_is h b t"
  shows "sdata b \<noteq> sdata r"
proof
  assume "sdata b = sdata r"
  moreover obtain p where p: "p \<in> dom (hmem h)" "sdata b = Some p" using live_block [OF assms(3)] by blast
  ultimately have "hnext h \<le> p" using assms(2) by (metis only_new_def option.sel)
  then show False using assms(1) p(1) by (auto simp: ready_def heap_ok_def)
qed

lemma str_is_unique: "str_is h b t \<Longrightarrow> str_is h b u \<Longrightarrow> t = u"
  by (auto elim!: str_isE)

text \<open>A task with a fresh block.\<close>

lemma owned_new_task:
  assumes o: "owned Q A s" and i: "sv_tasks s i = None" "i \<notin> A"
    and b: "only_new (sv_heap s) h (t_buffer tn)" "str_is h (t_buffer tn) q" "q \<in> Q"
  shows "owned Q A (s\<lparr>sv_tasks := (sv_tasks s)(i \<mapsto> tn), sv_heap := h\<rparr>)"
proof -
  have r: "ready (sv_heap s)" using o by (simp add: owned_def)
  have k: "kept (sv_heap s) h" by (rule only_new_kept [OF r b(1,2)])
  note f = only_new_fresh [OF r b(1)]
  have d: "sdata (t_buffer tm) \<noteq> sdata (t_buffer tn)" if "sv_tasks s j = Some tm" for j tm
    using o that f unfolding owned_def by blast
  have e: "sdata (complete_resp (t_resp tm)) \<noteq> sdata (t_buffer tn)" if "sv_tasks s j = Some tm" "j \<in> A" for j tm
    using o that f unfolding owned_def by blast
  have "owned Q A (s\<lparr>sv_heap := h\<rparr>)" by (rule owned_kept [OF o k])
  then show ?thesis using i b(2,3) d d [symmetric] e e [symmetric] unfolding owned_def by auto
qed

text \<open>A task that is freed, with its request.\<close>

lemma owned_free_task:
  assumes o: "owned Q A s" and i: "sv_tasks s i = Some tn" "sdata (t_buffer tn) = Some b"
  shows "owned Q A (s\<lparr>sv_tasks := (sv_tasks s)(i := None), sv_heap := (sv_heap s)\<lparr>hmem := (hmem (sv_heap s))(b := None)\<rparr>\<rparr>)"
proof -
  let ?h = "(sv_heap s)\<lparr>hmem := (hmem (sv_heap s))(b := None)\<rparr>"
  have k: "str_is ?h r t" if "str_is (sv_heap s) r t" "sdata r \<noteq> Some b" for r t
    using that by (auto elim!: str_isE intro: str_isI)
  have "ready ?h" using o by (auto simp: owned_def ready_def heap_ok_def)
  moreover have "sdata (t_buffer tm) \<noteq> Some b" if "sv_tasks s j = Some tm" "j \<noteq> i" for j tm
    using o i that unfolding owned_def by metis
  moreover have "sdata (complete_resp (t_resp tm)) \<noteq> Some b" if "sv_tasks s j = Some tm" "j \<in> A" for j tm
    using o i that unfolding owned_def by metis
  ultimately show ?thesis using o k unfolding owned_def by (simp, meson)
qed

text \<open>A task whose response is a fresh block; and one whose contexts are rewritten otherwise.\<close>

lemma owned_response:
  assumes o: "owned Q A s" and i: "sv_tasks s i = Some tn" "t_buffer tn' = t_buffer tn"
    and h: "kept (sv_heap s) h1" "only_new h1 h (complete_resp (t_resp tn'))" "str_is h (complete_resp (t_resp tn')) txt"
  shows "owned Q (insert i A) (s\<lparr>sv_tasks := (sv_tasks s)(i \<mapsto> tn'), sv_heap := h\<rparr>)"
proof -
  have r: "ready h1" using h(1) by (simp add: kept_def)
  have k: "kept (sv_heap s) h" by (rule kept_trans [OF h(1) only_new_kept [OF r h(2,3)]])
  have d: "sdata (t_buffer tm) \<noteq> sdata (complete_resp (t_resp tn'))" if "sv_tasks s j = Some tm" for j tm
    using o that kept_str [OF _ h(1)] only_new_fresh [OF r h(2)] unfolding owned_def by meson
  have "owned Q A (s\<lparr>sv_heap := h\<rparr>)" by (rule owned_kept [OF o k])
  then show ?thesis using i h(3) d [OF i(1)] d unfolding owned_def by auto
qed

lemma owned_reject:
  assumes o: "owned Q A s" and i: "sv_tasks s i = Some tn" "t_buffer tn' = t_buffer tn" "i \<notin> A"
  shows "owned Q A (s\<lparr>sv_tasks := (sv_tasks s)(i \<mapsto> tn')\<rparr>)"
  using o i unfolding owned_def by auto

section \<open>Reading\<close>

text \<open>What is received before the loop ends, and what ends it.\<close>

fun chunks :: "recv_result list \<Rightarrow> char list list" where
  "chunks (RData b # rs) = b # chunks rs"
| "chunks rs = []"

fun after_chunks :: "recv_result list \<Rightarrow> recv_result list" where
  "after_chunks (RData b # rs) = after_chunks rs"
| "after_chunks rs = rs"

lemma chunks_split: "map RData (chunks rs) @ after_chunks rs = rs"
  by (induction rs rule: chunks.induct) auto

lemma after_chunks_cases:
  obtains "drained (after_chunks rs)" | r where "after_chunks rs = RError # r" | r where "after_chunks rs = RClosed # r"
  by (induction rs rule: after_chunks.induct) (auto simp: drained_def)

text \<open>\<open>recv\<close> returns at most what it is asked for, and all of it together must have a length that an int
  can hold.\<close>

definition recv_fits :: "recv_result list \<Rightarrow> bool" where
  "recv_fits rs \<longleftrightarrow> (\<forall>b \<in> set (chunks rs). length b < 216) \<and> int (length (received (chunks rs))) < INT_MAX"

lemma recv_loop_total:
  assumes "ready h" and "recv_fits rs"
  obtains e h' where "rbind (new_string (Some []) h) (\<lambda>(BUF, h). recv_loop rs BUF h) = Inr (e, h')"
    "kept h h'" "\<And>B. e = Got B \<Longrightarrow> only_new h h' B \<and> str_is h' B (received (chunks rs))"
proof -
  obtain B h1 where 1: "rbind (new_string (Some []) h) (\<lambda>(BUF, h). recv_loop rs BUF h) = recv_loop (after_chunks rs) B h1"
    "only_new h h1 B" "str_is h1 B (received (chunks rs))"
    using recv_start [OF assms(1), of "chunks rs"] assms(2) chunks_split [of rs] unfolding recv_fits_def by metis
  have k: "kept h h1" by (rule only_new_kept [OF assms(1) 1(2,3)])
  show thesis
  proof (cases rule: after_chunks_cases [of rs])
    case 1
    then have "recv_loop (after_chunks rs) B h1 = Inr (Got B, h1)" by (cases "after_chunks rs") (auto simp: drained_def)
    with \<open>rbind _ _ = _\<close> \<open>only_new _ _ _\<close> \<open>str_is _ _ _\<close> k show thesis by (intro that [of "Got B" h1]) auto
  next
    case (2 r)
    with \<open>rbind _ _ = _\<close> k show thesis by (intro that [of Lost h1]) auto
  next
    case (3 r)
    with \<open>rbind _ _ = _\<close> k show thesis by (intro that [of Gone h1]) auto
  qed
qed

text \<open>If the loop ended without a fault then what it received fitted.\<close>

lemma recv_loop_fits:
  assumes "ready h0" and "only_new h0 h B" and "str_is h B t" and "recv_loop rs B h = Inr x"
  shows "(\<forall>b \<in> set (chunks rs). length b < 216) \<and> int (length t + length (received (chunks rs))) < INT_MAX"
  using assms(2-4)
proof (induction rs arbitrary: B h t)
  case (Cons r rs)
  show ?case
  proof (cases r)
    case (RData b)
    then have b: "length b < 216" using Cons.prems(3) by (auto split: if_splits)
    have B: "slen B = int (length t)" "sdata B \<noteq> None" using Cons.prems(2) by (auto elim: str_isE)
    have l: "int (length t + length (cstr b)) < INT_MAX"
      by (rule ccontr) (use Cons.prems(3) RData B in \<open>auto simp: append_string_cstr_def Let_def split: if_splits\<close>)
    obtain B1 h1 where 1: "append_string_cstr (Some B) (Some (cstr b)) h = Inr (True, Some B1, h1)"
      "str_is h1 B1 (t @ cstr b)" "only_new h0 h1 B1"
      using append_cstr_only_new [OF assms(1) Cons.prems(1,2) no_nul_cstr l] by blast
    from Cons.IH [OF 1(3,2)] Cons.prems(3) RData b 1(1) show ?thesis by (auto simp: add.assoc)
  qed (use Cons.prems in \<open>auto elim: str_isE\<close>)
qed (auto elim: str_isE)

lemma recv_fits_if_read:
  assumes "ready (sv_heap s)" and "read_from_client rs ti c s = Some (Inr s')"
  shows "recv_fits rs"
proof -
  obtain x where x: "rbind (new_string (Some []) (sv_heap s)) (\<lambda>(BUF, h). recv_loop rs BUF h) = Inr x"
    using assms(2) by (auto simp: read_from_client_def split: sum.splits)
  obtain B h1 where 1: "new_string (Some []) (sv_heap s) = Inr (B, h1)" "str_is h1 B []" "only_new (sv_heap s) h1 B"
    using new_string_only_new [OF assms(1), of "[]"] by (auto simp: INT_MAX_def)
  with x have "recv_loop rs B h1 = Inr x" by simp
  from recv_loop_fits [OF assms(1) 1(3,2) this] show ?thesis by (simp add: recv_fits_def)
qed

lemma free_new:
  assumes "ready h" and "only_new h h1 b" and "str_is h1 b t"
  obtains h2 where "free_string b h1 = Inr h2" "kept h h2"
proof -
  obtain p where p: "sdata b = Some p" "p \<in> dom (hmem h1)" using live_block [OF assms(3)] by blast
  have "hnext h \<le> p" using assms(2) p(1) by (metis only_new_def option.sel)
  then have n: "hmem h p = None" using assms(1) by (simp add: ready_def heap_ok_def)
  have "kept h (h1\<lparr>hmem := (hmem h1)(p := None)\<rparr>)"
    using assms(2) p(1) n by (auto simp: kept_def only_new_def ready_def heap_ok_def)
  with that free_string_ok [OF p] show thesis by blast
qed

text \<open>The requests of the tasks that a step adds are in \<open>Q\<close>.\<close>

definition admits :: "char list set \<Rightarrow> ('m, 'p) server_t \<Rightarrow> ('m, 'p) server_t \<Rightarrow> bool" where
  "admits Q s s' \<longleftrightarrow> (\<forall>i tn q. sv_tasks s i = None \<longrightarrow> sv_tasks s' i = Some tn \<longrightarrow> str_is (sv_heap s') (t_buffer tn) q \<longrightarrow> q \<in> Q)"

text \<open>The tasks that wait for their connection to become writable.\<close>

definition waiting :: "('m, 'p) server_t \<Rightarrow> nat set" where
  "waiting s = {i. \<exists>fd f. (fd, f, TaskData i) \<in> set (sv_kq s)}"

lemma waiting_subset:
  "(\<And>fd f i. (fd, f, TaskData i) \<in> set (sv_kq s') \<Longrightarrow> (fd, f, TaskData i) \<in> set (sv_kq s)) \<Longrightarrow> waiting s' \<subseteq> waiting s"
  unfolding waiting_def by blast

lemma waiting_frame [simp]:
  "waiting (s\<lparr>sv_heap := h\<rparr>) = waiting s" "waiting (s\<lparr>sv_tasks := t\<rparr>) = waiting s" "waiting (s\<lparr>sv_out := f\<rparr>) = waiting s"
  by (simp_all add: waiting_def)

text \<open>A step of a handler: it ends without a fault, it registers no task that was not registered, and if the
  new requests are admitted then ownership stays.\<close>

definition handled :: "char list set \<Rightarrow> nat set \<Rightarrow> ('m, 'p) server_t \<Rightarrow> ('m, 'p) server_t \<Rightarrow> bool" where
  "handled Q A s s' \<longleftrightarrow> sv_route s' = sv_route s \<and> waiting s' \<subseteq> waiting s \<and> (admits Q s s' \<longrightarrow> owned Q A s')"

lemma remove_client_handled:
  assumes "server_ok s" and "owned Q A s"
  obtains s' where "remove_client s fd = Some (Inr s')" "handled Q A s s'" "sv_tasks s' = sv_tasks s" "sv_heap s' = sv_heap s"
    "owned Q A s'"
proof -
  obtain s' where s': "remove_client s fd = Some (Inr s')" "sv_tasks s' = sv_tasks s" "sv_heap s' = sv_heap s"
    "sv_kq s' = filter (\<lambda>(fd', _). fd' \<noteq> fd) (sv_kq s)"
    using remove_client_ok [OF assms(1), of fd] by blast
  have "sv_clients s' = sv_clients s \<or> (\<exists>p n. list_del p (sv_clients s) = Inr (n, sv_clients s'))"
    using s'(1) by (auto simp: remove_client_def rbind_eq_Inr close_client_def Let_def split: if_splits)
  then have "nodes_available (sv_clients s) \<Longrightarrow> nodes_available (sv_clients s')"
    by (metis list_del_alloc nodes_available_def)
  then have "owned Q A s'" using owned_cong [OF s'(3,2) _ assms(2)] by blast
  moreover have "sv_route s' = sv_route s"
    using s'(1) by (auto simp: remove_client_def rbind_eq_Inr close_client_def Let_def split: if_splits)
  ultimately show thesis using that s' by (auto simp: handled_def waiting_def)
qed

lemma read_from_client_handled:
  assumes ok: "server_ok s" and o: "owned Q A s" and f: "recv_fits rs" and A: "sv_tnext s \<notin> A"
  shows "\<exists>s'. read_from_client rs ti c s = Some (Inr s') \<and> handled Q A s s'"
proof -
  have r: "ready (sv_heap s)" using o by (simp add: owned_def)
  have leak: "handled Q A s (s\<lparr>sv_heap := h\<rparr>)" if "kept (sv_heap s) h" for h
    using owned_kept [OF o that] by (simp add: handled_def waiting_def)
  obtain e h where e: "rbind (new_string (Some []) (sv_heap s)) (\<lambda>(BUF, h). recv_loop rs BUF h) = Inr (e, h)"
    and k: "kept (sv_heap s) h"
    and B: "\<And>B. e = Got B \<Longrightarrow> only_new (sv_heap s) h B \<and> str_is h B (received (chunks rs))"
    by (rule recv_loop_total [OF r f]) blast
  show ?thesis
  proof (cases e)
    case Lost
    then show ?thesis using e leak [OF k] by (simp add: read_from_client_def)
  next
    case Gone
    have "server_ok (s\<lparr>sv_heap := h\<rparr>)" "owned Q A (s\<lparr>sv_heap := h\<rparr>)" using ok owned_kept [OF o k] by simp_all
    from remove_client_handled [OF this, of "cl_fd c"] obtain s' where
      "remove_client (s\<lparr>sv_heap := h\<rparr>) (cl_fd c) = Some (Inr s')" "handled Q A (s\<lparr>sv_heap := h\<rparr>) s'" "owned Q A s'" by blast
    then show ?thesis using Gone e by (auto simp: read_from_client_def handled_def waiting_def)
  next
    case (Got B)
    note B' = B [OF Got, THEN conjunct1] B [OF Got, THEN conjunct2]
    obtain b h2 h3 where 2: "copy_string B h = Inr (b, h2)" "sdata b \<noteq> None" "free_string B h2 = Inr h3"
      "str_is h3 b (received (chunks rs))" "only_new (sv_heap s) h3 b"
      using copy_then_free [OF r B'] by blast
    obtain h4 where 4: "free_string B h = Inr h4" "kept (sv_heap s) h4" by (rule free_new [OF r B'])
    obtain h5 where 5: "free_string b h3 = Inr h5" "kept (sv_heap s) h5" by (rule free_new [OF r 2(5,4)])
    note d = read_from_client_def [of rs ti c s, unfolded e Got, simplified]
    consider "\<not> ti_tnode ti" | "ti_tnode ti" "\<not> ti_req ti \<or> \<not> ti_resp ti" | "ti_tnode ti" "ti_req ti" "ti_resp ti" by blast
    then show ?thesis
    proof cases
      case 1
      then show ?thesis using leak [OF 4(2)] 4(1) by (simp add: d)
    next
      case 2
      then have "read_from_client rs ti c s = Some (Inr (s\<lparr>sv_heap := h5\<rparr>))"
        using \<open>copy_string _ _ = _\<close> \<open>sdata b \<noteq> None\<close> \<open>free_string B h2 = _\<close> 5(1) by (auto simp: d)
      then show ?thesis using leak [OF 5(2)] by blast
    next
      case 3
      let ?tn = "\<lparr>t_client = c, t_buffer = b, t_req = ti_req0 ti, t_resp = ti_resp0 ti\<rparr>"
      let ?s = "s\<lparr>sv_tasks := (sv_tasks s)(sv_tnext s \<mapsto> ?tn), sv_tnext := Suc (sv_tnext s),
         sv_pool := (if ti_pushed ti then sv_pool s @ [sv_tnext s] else sv_pool s), sv_heap := h3\<rparr>"
      have n: "sv_tasks s (sv_tnext s) = None" using ok by (auto simp: server_inv_def tasks_ok_def)
      have "owned Q A ?s" if "received (chunks rs) \<in> Q"
        by (rule owned_cong [OF _ _ _ owned_new_task [OF o n A, where tn = ?tn and h = h3 and q = "received (chunks rs)"]])
          (use 2 that in simp_all)
      moreover have "received (chunks rs) \<in> Q" if "admits Q s ?s" using that n 2(4) by (fastforce simp: admits_def)
      ultimately have "handled Q A s ?s" by (auto simp: handled_def waiting_def)
      moreover have "read_from_client rs ti c s = Some (Inr ?s)" using 2(1-3) 3 by (auto simp: d Let_def)
      ultimately show ?thesis by blast
    qed
  qed
qed

section \<open>Accepting\<close>

text \<open>The text that \<open>inet_ntop\<close> writes has at most 15 characters, and the local client of the loop has an
  array for it.\<close>

definition conns_fit :: "client_t \<Rightarrow> conn_in list \<Rightarrow> bool" where
  "conns_fit c0 cis \<longleftrightarrow> length (a_host (c_addr c0)) = HOST_SIZE \<and> (\<forall>ci \<in> set cis. length (ci_host ci) \<le> 15)"

text \<open>An enrolled connection adds a node and at most a READ registration.\<close>

lemma list_add_available:
  assumes "nodes_available cl" and "list_add c cl = Inr (node, cl')"
  shows "nodes_available cl'"
  using assms by (cases cl) (auto simp: nodes_available_def list_add_def insert_client_def Let_def rbind_eq_Inr dest: set_link_room split: if_splits)

lemma enrol_client_owned:
  assumes "enrol_client ci c (s\<lparr>sv_conns := cs\<rparr>) = Inr s'" and "owned Q A s"
  shows "owned Q A s' \<and> sv_route s' = sv_route s \<and> waiting s' \<subseteq> waiting s"
proof -
  have f: "sv_heap s' = sv_heap s" "sv_tasks s' = sv_tasks s" "sv_route s' = sv_route s"
    and w: "(fd, f, TaskData i) \<in> set (sv_kq s') \<Longrightarrow> (fd, f, TaskData i) \<in> set (sv_kq s)" for fd f i
    using assms(1) by (auto simp: enrol_client_def close_client_def Let_def rbind_eq_Inr set_ev_add split: if_splits)
  have "sv_clients s' = sv_clients s \<or> (\<exists>node. list_add c (sv_clients s) = Inr (node, sv_clients s'))"
    using assms(1) by (auto simp: enrol_client_def close_client_def Let_def rbind_eq_Inr split: if_splits)
  then have "nodes_available (sv_clients s) \<Longrightarrow> nodes_available (sv_clients s')" by (metis list_add_available)
  with f waiting_subset [of s' s, OF w] owned_cong [OF f(1,2) _ assms(2)] show ?thesis by blast
qed

lemma accept_client_owned:
  "accept_client c0 cis s = Inr s' \<Longrightarrow> owned Q A s \<Longrightarrow> owned Q A s' \<and> sv_route s' = sv_route s \<and> waiting s' \<subseteq> waiting s"
proof (induction cis arbitrary: s)
  case (Cons ci cis)
  define conn where "conn = s_accept c0 (ci_fd ci, ci_addr ci)"
  note step = Cons.prems(1) [simplified Let_def accept_client.simps, folded conn_def]
  show ?case
  proof (cases "cl_fd conn = -1 \<or> cl_err conn \<noteq> 0")
    case True
    have "owned Q A (close_client conn s)" by (rule owned_cong [OF _ _ _ Cons.prems(2)]) (simp_all add: close_client_def)
    moreover have "waiting (close_client conn s) \<subseteq> waiting s" by (auto simp: close_client_def waiting_def)
    ultimately show ?thesis using True step Cons.prems(2) Cons.IH [of "close_client conn s"]
      by (auto simp: close_client_def split: if_splits)
  next
    case False
    then obtain c t s2 where 2: "enrol_client ci c (s\<lparr>sv_conns := t\<rparr>) = Inr s2" "accept_client c0 cis s2 = Inr s'"
      using step by (auto simp: rbind_eq_Inr)
    from enrol_client_owned [OF 2(1) Cons.prems(2)] Cons.IH [OF 2(2)] show ?thesis by auto
  qed
qed simp

lemma accept_client_total:
  "server_ok s \<Longrightarrow> nodes_available (sv_clients s) \<Longrightarrow> answers_ok c0 cis s \<Longrightarrow> conns_fit c0 cis \<Longrightarrow>
     \<exists>s'. accept_client c0 cis s = Inr s'"
proof (induction cis arbitrary: s)
  case (Cons ci cis)
  show ?case
  proof (cases "ci_fd ci = -1")
    case True
    then show ?thesis by (simp add: s_accept_def)
  next
    case False
    have a: "answer_ok ci s" using Cons.prems(3) by (simp del: accept_client.simps)
    then have fd: "0 \<le> ci_fd ci" "ci_fd ci \<notin> set (sv_conns s)" using False by (auto simp: answer_in_def)
    have h: "length (ci_host ci) \<le> 15" "length (a_host (c_addr c0)) = HOST_SIZE" using Cons.prems(4) by (simp_all add: conns_fit_def)
    from accept_one [OF fd(1) h] obtain c where
      c: "accept_client c0 [ci] s = enrol_client ci c (s\<lparr>sv_conns := ci_fd ci # sv_conns s\<rparr>)" "cl_fd c = ci_fd ci" by blast
    have "tracks False holds (sv_clients s) (sv_conns s)" "cl_fd c \<notin> set (sv_conns s)" "list_room (sv_clients s)"
      using Cons.prems(1,2) fd(2) c(2) by (simp_all add: server_inv_def nodes_available_def list_room_def)
    then obtain node cl where l: "list_add c (sv_clients s) = Inr (node, cl)" using clients.add_tracks by blast
    have "\<exists>s1. enrol_client ci c (s\<lparr>sv_conns := ci_fd ci # sv_conns s\<rparr>) = Inr s1 \<and> (sv_clients s1 = sv_clients s \<or> sv_clients s1 = cl)"
      using l by (simp add: enrol_client_def close_client_def Let_def)
    then obtain s1 where 1: "accept_client c0 [ci] s = Inr s1" "sv_clients s1 = sv_clients s \<or> sv_clients s1 = cl"
      unfolding c(1) by blast
    have "nodes_available (sv_clients s1)" using 1(2) list_add_available [OF Cons.prems(2) l] Cons.prems(2) by auto
    moreover have "server_ok s1" using accept_round_ok [OF Cons.prems(1) a 1(1)] by blast
    moreover have "answers_ok c0 cis s1" using Cons.prems(3) 1(1) by (simp del: accept_client.simps)
    moreover have "conns_fit c0 cis" using Cons.prems(4) by (simp add: conns_fit_def)
    ultimately have "\<exists>s'. accept_client c0 cis s1 = Inr s'" by (intro Cons.IH)
    then show ?thesis using 1(1) False unfolding accept_rounds [of c0 ci cis] by simp
  qed
qed simp

section \<open>Writing\<close>

lemma write_to_client_handled:
  assumes ok: "server_ok s" and o: "owned Q A s" and i: "i \<in> A" "sv_tasks s i = Some tn" and fd: "cl_fd (t_client tn) = fd"
  shows "\<exists>s'. write_to_client sends i s = Some (Inr s') \<and> owned Q A s' \<and> sv_route s' = sv_route s \<and> waiting s' \<subseteq> insert i (waiting s)"
proof -
  obtain resp where t: "str_is (sv_heap s) (complete_resp (t_resp tn)) resp" using ownedD(4) [OF o i] by blast
  obtain q where q: "str_is (sv_heap s) (t_buffer tn) q" using ownedD(3) [OF o i(2)] by blast
  obtain out e where l: "send_loop sends resp = (out, e)" by (cases "send_loop sends resp")
  let ?s = "s\<lparr>sv_out := (sv_out s)(fd := sv_out s fd @ out)\<rparr>"
  have o1: "owned Q A ?s" by (rule owned_cong [OF _ _ _ o]) simp_all
  have "server_ok ?s" using ok by simp
  from remove_client_handled [OF this o1, of fd] obtain s2 where
    2: "remove_client ?s fd = Some (Inr s2)" "handled Q A ?s s2" "sv_tasks s2 = sv_tasks s" "sv_heap s2 = sv_heap s" "owned Q A s2"
    by auto
  have w: "sv_route s2 = sv_route s" "waiting s2 \<subseteq> waiting s" using 2(2) by (auto simp: handled_def waiting_def)
  note d = write_to_client_def [of sends i s, unfolded Let_def i(2) option.case fd load_str [OF t] sum.case l prod.case]
  show ?thesis
  proof (cases e)
    case SWait
    have "owned Q A (?s\<lparr>sv_kq := ev_add fd EVFILT_WRITE (TaskData i) (sv_kq ?s)\<rparr>)" by (rule owned_cong [OF _ _ _ o1]) simp_all
    then show ?thesis using SWait by (auto simp: d waiting_def set_ev_add)
  next
    case SLost
    then show ?thesis using o1 by (auto simp: d waiting_def)
  next
    case SFail
    then show ?thesis using 2(1,5) w by (auto simp: d)
  next
    case SDone
    obtain b where b: "b \<in> dom (hmem (sv_heap s))" "sdata (t_buffer tn) = Some b" using live_block [OF q] by blast
    let ?h = "(sv_heap s)\<lparr>hmem := (hmem (sv_heap s))(b := None)\<rparr>"
    have "free_string (t_buffer tn) (sv_heap s2) = Inr ?h" using free_string_ok [OF b(2,1)] 2(4) by simp
    moreover have "owned Q A (s2\<lparr>sv_heap := ?h, sv_tasks := (sv_tasks s2)(i := None)\<rparr>)"
      using owned_free_task [OF 2(5), of i tn b] i(2) b(2) 2(3,4) by (intro owned_cong [OF _ _ _ owned_free_task [OF 2(5), of i tn b]]) simp_all
    ultimately show ?thesis using SDone 2(1) w by (auto simp: d)
  qed
qed

section \<open>Events\<close>

text \<open>What the calls of the handler of an event answer fits the arrays.\<close>

definition event_fits :: "client_t \<Rightarrow> 'p kevent_t \<Rightarrow> ('m, 'p) server_t \<Rightarrow> bool" where
  "event_fits c0 e s \<longleftrightarrow> (if ke_ident e = ln_fd (sv_ln s) then conns_fit c0 (ke_conns e) else recv_fits (ke_recvs e))"

text \<open>The record a reported event points to.\<close>

lemma reported_read:
  assumes "server_ok s" and "reported e s" and "ke_filter e = EVFILT_READ" and "ke_ident e \<noteq> ln_fd (sv_ln s)"
  obtains p c where "ke_udata e = NodeData p" "list_client p (sv_clients s) = Inr c"
proof -
  have "(ke_ident e, EVFILT_READ, ke_udata e) \<in> set (sv_kq s)" using assms(2-4) by (simp add: reported_def)
  then have "reg_ok s (ke_ident e, EVFILT_READ, ke_udata e)" using assms(1) by (auto simp: server_inv_def)
  with that show thesis by (auto simp: reg_inv_def node_for_def)
qed

lemma reported_write:
  assumes ok: "server_ok s" and o: "owned Q A s" and r: "reported e s" and f: "ke_filter e = EVFILT_WRITE" and A: "waiting s \<subseteq> A"
  shows "\<exists>s'. handle_event c0 e s = Some (Inr s') \<and> handled Q A s s'"
proof -
  let ?s = "s\<lparr>sv_kq := ev_delete (ke_ident e) EVFILT_WRITE (sv_kq s)\<rparr>"
  have reg: "(ke_ident e, EVFILT_WRITE, ke_udata e) \<in> set (sv_kq s)" using r f by (simp add: reported_def)
  then have "reg_ok s (ke_ident e, EVFILT_WRITE, ke_udata e)" using ok by (auto simp: server_inv_def)
  then obtain i tn where i: "ke_udata e = TaskData i" "sv_tasks s i = Some tn" "cl_fd (t_client tn) = ke_ident e"
    by (auto simp: reg_inv_def task_for_def)
  have w: "i \<in> waiting s" using reg i(1) by (auto simp: waiting_def)
  have "owned Q A ?s" by (rule owned_cong [OF _ _ _ o]) simp_all
  moreover have "server_ok ?s" by (rule server_ok_delete [OF ok])
  moreover have "i \<in> A" "sv_tasks ?s i = Some tn" using w A i(2) by auto
  ultimately obtain s' where "write_to_client (ke_sends e) i ?s = Some (Inr s')" "owned Q A s'" "sv_route s' = sv_route ?s"
    "waiting s' \<subseteq> insert i (waiting ?s)"
    using write_to_client_handled [OF _ _ _ _ i(3)] by blast
  moreover have "waiting ?s \<subseteq> waiting s" by (auto simp: waiting_def set_ev_delete)
  ultimately show ?thesis using f i(1) w by (auto simp: handle_event_def handled_def)
qed

lemma handle_event_handled:
  assumes ok: "server_ok s" and o: "owned Q A s" and r: "reported e s"
    and A: "waiting s \<subseteq> A" "sv_tnext s \<notin> A" and h: "handle_event c0 e s = Some (Inr s')"
  shows "handled Q A s s'"
proof (cases "ke_filter e")
  case EVFILT_READ
  consider "ke_eof e" | "\<not> ke_eof e" "ke_ident e = ln_fd (sv_ln s)"
    | "\<not> ke_eof e" "ke_ident e \<noteq> ln_fd (sv_ln s)" by blast
  then show ?thesis
  proof cases
    case 1
    from remove_client_handled [OF ok o, of "ke_ident e"] obtain s1 where
      "remove_client s (ke_ident e) = Some (Inr s1)" "handled Q A s s1" by blast
    then show ?thesis using h 1 EVFILT_READ by (simp add: handle_event_def)
  next
    case 2
    then have "accept_client c0 (ke_conns e) s = Inr s'" using h EVFILT_READ by (simp add: handle_event_def)
    from accept_client_owned [OF this o] show ?thesis by (simp add: handled_def)
  next
    case 3
    obtain p c where c: "ke_udata e = NodeData p" "list_client p (sv_clients s) = Inr c"
      by (rule reported_read [OF ok r EVFILT_READ 3(2)])
    then have s': "read_from_client (ke_recvs e) (ke_task e) c s = Some (Inr s')"
      using h 3 EVFILT_READ by (simp add: handle_event_def)
    from read_from_client_handled [OF ok o recv_fits_if_read [OF ownedD(1) [OF o] s'] A(2), of "ke_task e" c] s'
    show ?thesis by simp
  qed
next
  case EVFILT_WRITE
  from reported_write [OF ok o r this A(1), of c0] h show ?thesis by auto
next
  case EVFILT_TIMER
  then show ?thesis using h o by (simp add: handle_event_def handled_def)
qed

lemma handle_event_total:
  assumes ok: "server_ok s" and o: "owned Q A s" and r: "reported e s" and a: "answers_ok c0 (ke_conns e) s"
    and f: "event_fits c0 e s" and A: "waiting s \<subseteq> A" "sv_tnext s \<notin> A"
  shows "\<exists>s'. handle_event c0 e s = Some (Inr s')"
proof (cases "ke_filter e")
  case EVFILT_READ
  consider "ke_eof e" | "\<not> ke_eof e" "ke_ident e = ln_fd (sv_ln s)"
    | "\<not> ke_eof e" "ke_ident e \<noteq> ln_fd (sv_ln s)" by blast
  then show ?thesis
  proof cases
    case 1
    then show ?thesis using remove_client_ok [OF ok, of "ke_ident e"] EVFILT_READ by (auto simp: handle_event_def)
  next
    case 2
    have "conns_fit c0 (ke_conns e)" using f 2(2) by (simp add: event_fits_def)
    from accept_client_total [OF ok ownedD(2) [OF o] a this] 2 EVFILT_READ show ?thesis by (simp add: handle_event_def)
  next
    case 3
    obtain p c where c: "ke_udata e = NodeData p" "list_client p (sv_clients s) = Inr c"
      by (rule reported_read [OF ok r EVFILT_READ 3(2)])
    have "recv_fits (ke_recvs e)" using f 3(2) by (simp add: event_fits_def)
    from read_from_client_handled [OF ok o this A(2), of "ke_task e" c] c 3 EVFILT_READ show ?thesis
      by (auto simp: handle_event_def)
  qed
next
  case EVFILT_WRITE
  from reported_write [OF ok o r this A(1)] show ?thesis by blast
next
  case EVFILT_TIMER
  then show ?thesis by (simp add: handle_event_def)
qed

section \<open>Answering\<close>

text \<open>What a worker needs to know of its surroundings: the parser returns on every request of \<open>Q\<close>, and where it
  accepts, the switch over the method leaves a response that can be serialised.  Theory \<open>Limits\<close> derives it
  from the sizes of the code's arrays.\<close>

definition answerable :: "('m, 'f, 'p) worker_env \<Rightarrow> 'm \<Rightarrow> 'p request_ctx_t \<Rightarrow> bool" where
  "answerable w table rctx \<longleftrightarrow> (\<exists>code hs b. \<forall>h files. ready h \<longrightarrow>
     (\<exists>wc h' t. respond w (Some table) init_resp_ctx rctx h files = Inr (wc, h', t) \<and> prepared wc h' code hs b \<and> kept h h'))"

definition serves :: "char list set \<Rightarrow> ('m, 'f, 'p) worker_env \<Rightarrow> 'm \<Rightarrow> bool" where
  "serves Q w table \<longleftrightarrow> (\<forall>q \<in> Q. \<forall>r x. \<exists>ret rctx.
     parse_http_request (we_llhttp w) (we_junk w) (init_req_ctx (we_llhttp w) r) (q @ NUL # x) (int (length q)) = Inr (ret, rctx)
     \<and> (ret \<noteq> 1 \<longrightarrow> answerable w table rctx))"

lemma answer_conn_handled:
  assumes o: "owned Q A s" and tn: "sv_tasks s i = Some tn" and i: "i \<notin> A" and w: "serves Q w table" "sv_route s = Some table"
  obtains c s' where "answer_conn w i s = Inr (c, s')"
    "owned Q (if c = None then A else insert i A) s'" "sv_route s' = sv_route s" "waiting s' = waiting s"
proof -
  obtain q where q: "q \<in> Q" "str_is (sv_heap s) (t_buffer tn) q" using ownedD(3) [OF o tn] by blast
  obtain a x where x: "sdata (t_buffer tn) = Some a" "hmem (sv_heap s) a = Some (q @ NUL # x)" "slen (t_buffer tn) = int (length q)"
    using q(2) by (auto elim: str_isE)
  obtain ret rctx where p: "parse_http_request (we_llhttp w) (we_junk w) (init_req_ctx (we_llhttp w) (t_req tn)) (q @ NUL # x)
      (int (length q)) = Inr (ret, rctx)" "ret \<noteq> 1 \<longrightarrow> answerable w table rctx"
    using w(1) q(1) unfolding serves_def by blast
  show thesis
  proof (cases "ret = 1")
    case True
    then have "answer_conn w i s = Inr (None, s\<lparr>sv_tasks := (sv_tasks s)(i \<mapsto> tn\<lparr>t_req := rctx, t_resp := init_resp_ctx\<rparr>)\<rparr>)"
      using tn x p(1) by (simp add: answer_conn_def block_def Let_def)
    from that [OF this] owned_reject [OF o tn _ i] show thesis by simp
  next
    case False
    then obtain code hs b wc h t where 1: "respond w (sv_route s) init_resp_ctx rctx (sv_heap s) (sv_files s) = Inr (wc, h, t)"
      "prepared wc h code hs b" "kept (sv_heap s) h"
      using p(2) ownedD(1) [OF o] unfolding answerable_def w(2) by blast
    have "ready h" using 1(3) by (simp add: kept_def)
    from prepared_generate [OF this 1(2)] obtain c h1 where
      2: "generate_response wc h = Inr (c, h1)" "str_is h1 c (wire code hs b)" "only_new h h1 c" by blast
    let ?tn = "tn\<lparr>t_req := rctx, t_resp := wc\<lparr>complete_resp := c\<rparr>\<rparr>"
    let ?s = "s\<lparr>sv_heap := h1, sv_files := t, sv_tasks := (sv_tasks s)(i \<mapsto> ?tn)\<rparr>"
    have "answer_conn w i s = Inr (Some (t_client tn), ?s)"
      using False tn x p(1) 1(1) 2(1) by (simp add: answer_conn_def block_def Let_def)
    moreover have "owned Q (insert i A) ?s"
      by (rule owned_cong [OF _ _ _ owned_response [OF o tn _ 1(3), of ?tn h1 "wire code hs b"]]) (use 2 in simp_all)
    moreover have "waiting ?s = waiting s" by (simp add: waiting_def)
    ultimately show thesis using that [of "Some (t_client tn)" ?s] by simp
  qed
qed

end
