(* ===== verification/Limits.thy ===== *)
theory Limits
  imports Ownership
begin

text \<open>
  When the workers serve: the sizes of the arrays of \<^verbatim>\<open>parser.h\<close>, \<^verbatim>\<open>url.h\<close> and \<^verbatim>\<open>utils.c\<close> as conditions on
  a request and on the files under \<^verbatim>\<open>./www\<close>.  For a request within them the parser, the two pages that
  \<^verbatim>\<open>main.c\<close> registers, the 404 page and the static files run to their end without a fault.
\<close>

section \<open>Conditions\<close>

text \<open>A file that \<open>handle_static_files\<close> can serve: its extension fits the array of \<open>get_mime\<close>, its size an
  \<open>int\<close> (with room for the headers), and \<open>read\<close> answers at most as many bytes as it was asked for.\<close>

definition file_within :: "file_env \<Rightarrow> char list \<Rightarrow> char list \<Rightarrow> bool" where
  "file_within E ext0 f \<longleftrightarrow> length ext0 = EXT_SIZE
     \<and> (case f_stat E f of Some (Regular, sz) \<Rightarrow> length (extension f) < EXT_SIZE \<and> 0 \<le> sz \<and> sz \<le> 100000000
           \<and> (case f_read E f (nat sz + 1) of (n, u) \<Rightarrow> n < 0 \<or> n = int (length u) \<and> length u \<le> nat sz + 1)
        | _ \<Rightarrow> True)"

text \<open>What the server has for a path: a page of the application, or the file system.\<close>

definition path_within :: "('m, 'f, 'p) worker_env \<Rightarrow> 'm \<Rightarrow> char list \<Rightarrow> bool" where
  "path_within w table p \<longleftrightarrow>
     (case route_lookup (we_khash w) (we_handler w) table p of (found, handler) \<Rightarrow>
        if found then we_run w (func handler) = home_page \<or> we_run w (func handler) = api_home_page
        else file_within (we_files w) (we_ext w) (''./www'' @ p))"

text \<open>A request, by what llhttp reports for it: every span and the number of header values fit the arrays of
  the request; and if llhttp accepts it, the fields of the decoded query fit those of the URL, and the path of
  a \<open>GET\<close> request is as above.\<close>

definition request_within :: "('m, 'f, 'p) worker_env \<Rightarrow> 'm \<Rightarrow> char list \<Rightarrow> bool" where
  "request_within w table q \<longleftrightarrow> int (length q) < INT_MAX
     \<and> (case lh_execute (we_llhttp w) (lh_init (we_llhttp w)) q of (evs, err, _) \<Rightarrow>
          (\<forall>e \<in> set evs. Parser.event_fits e) \<and> value_count evs \<le> 128
        \<and> (err = HPE_OK \<longrightarrow> (\<forall>r u d m. run_events evs http_request_t_init = Inr r \<longrightarrow> cstring (r_raw_path r) = Inr u \<longrightarrow>
             pct_decode u = Some d \<longrightarrow> cstring (r_method r) = Inr m \<longrightarrow>
             (CHR ''?'' \<in> set d \<longrightarrow> count_list (query_part d) (CHR ''&'') < 10 \<and> (\<forall>f \<in> set (Url.fields (query_part d)). length f < 128))
           \<and> (get_mothod_type m = GET \<longrightarrow> path_within w table (path_part d)))))"

section \<open>Files\<close>

definition new_body :: "heap \<Rightarrow> response_ctx_t \<Rightarrow> bool" where
  "new_body h w \<longleftrightarrow> (\<forall>y. sdata (p_body (resp w)) = Some y \<longrightarrow> y \<notin> dom (hmem h))"

lemma static_files_prepared:
  assumes e: "length ext0 = EXT_SIZE" "no_nul f" "length (extension f) < EXT_SIZE" and sz: "0 \<le> sz" "sz \<le> 100000000"
    and rd: "f_read E f (nat sz + 1) = (n, u)" "n < 0 \<or> n = int (length u) \<and> length u \<le> nat sz + 1"
  obtains code hs b where "\<And>h t. ready h \<Longrightarrow>
    \<exists>w h' t'. handle_static_files E ext0 init_resp_ctx f sz h t = Inr (w, h', t') \<and> prepared w h' code hs b \<and> kept h h' \<and> new_body h w"
proof -
  let ?m = "mime_class (extension f)"
  have m: "get_mime ext0 f = Inr ?m" using get_mime_class [OF e(2,1)] e(3) by simp
  consider "?m = -1 \<or> f_open E f < 0" | "?m \<noteq> -1" "0 \<le> f_open E f" "n < 0" | "?m \<noteq> -1" "0 \<le> f_open E f" "0 \<le> n" by linarith
  then show thesis
  proof cases
    case 1
    then have "handle_static_files E ext0 init_resp_ctx f sz h t = Inr (init_resp_ctx, h, t)" for h t
      by (auto simp: handle_static_files_def m)
    then show thesis using prepared_init by (intro that [of 0 "[]" "[]"]) (auto simp: kept_def new_body_def init_resp_ctx_def null_string_def)
  next
    case 2
    let ?w = "init_resp_ctx\<lparr>resp := (resp init_resp_ctx)\<lparr>p_status := HTTP_STATUS_OK\<rparr>\<rparr>"
    show thesis
    proof (rule that [of 200 "[]" "[]"])
      fix h t assume h: "ready h"
      define B where "B = map (hjunk h (hnext h)) [0..<nat sz + 1] @ [NUL]"
      have nn: "new_n_string (sz + 1) h = Inr (\<lparr>slen = sz + 1, sdata = Some (hnext h)\<rparr>, with_block h B)"
        using new_n_string_eq [of h "sz + 1"] h sz by (simp add: ready_def INT_MAX_def nat_add_distrib B_def)
      have fr: "free_string \<lparr>slen = sz + 1, sdata = Some (hnext h)\<rparr> (with_block h B)
          = Inr ((with_block h B)\<lparr>hmem := (hmem (with_block h B))(hnext h := None)\<rparr>)"
        by (rule free_string_ok) simp_all
      have "size_of_int (sz + 1) = nat sz + 1" using sz by (simp add: nat_add_distrib)
      then have "handle_static_files E ext0 init_resp_ctx f sz h t = Inr (?w,
          (with_block h B)\<lparr>hmem := (hmem (with_block h B))(hnext h := None)\<rparr>, f_open E f # t)"
        using 2 sz rd(1) fr by (simp add: handle_static_files_def m Let_def nn INT_MAX_def)
      moreover have "prepared ?w h' 200 [] []" for h'
        using prepared_init [of h'] length_status_line [of 200]
        by (simp add: prepared_def status_codes wire_def INT_MAX_def has_headers_def nul_pad_def)
      moreover have "kept h ((with_block h B)\<lparr>hmem := (hmem (with_block h B))(hnext h := None)\<rparr>)"
        using h by (auto simp: kept_def ready_def heap_ok_def)
      moreover have "new_body h ?w" by (simp add: new_body_def init_resp_ctx_def null_string_def)
      ultimately show "\<exists>w h' t'. handle_static_files E ext0 init_resp_ctx f sz h t = Inr (w, h', t')
          \<and> prepared w h' 200 [] [] \<and> kept h h' \<and> new_body h w" by blast
    qed
  next
    case 3
    then obtain ct where ct: "content_type ?m = Some ct" by (cases "content_type ?m") (auto simp: content_type_def mime_class_def split: if_splits)
    have u: "length u \<le> Suc (nat sz)" "nat sz \<le> 100000000" "f_read E f (nat sz + 1) = (int (length u), u)"
      using rd 3(3) sz by auto
    have c: "no_nul ct" "length ct \<le> 30" "no_nul ''keep-alive''" using content_type_small [OF ct] by (simp_all add: NUL_def)
    show thesis
    proof (rule that [of 200 "page_headers u ct ''keep-alive''" u])
      fix h t assume h: "ready h"
      from handle_static_files_ok [OF h e ct 3(2) u(2,1,3) has_headers_init, of t] sz(1) obtain w h1 where
        1: "handle_static_files E ext0 init_resp_ctx f sz h t = Inr (w, h1, f_open E f # t)"
        "has_headers w (page_headers u ct ''keep-alive'')" "p_status (resp w) = 200" "str_is h1 (p_body (resp w)) u"
        "ready h1" "\<forall>x \<in> dom (hmem h). hmem h1 x = hmem h x" "sdata (p_body (resp w)) = Some (Suc (hnext h))" by auto
      moreover have "Suc (hnext h) \<notin> dom (hmem h)" using h by (auto simp: ready_def heap_ok_def)
      ultimately have n: "new_body h w" by (simp add: new_body_def)
      have "prepared w h1 200 (page_headers u ct ''keep-alive'') u"
        using page_prepared [OF 1(2,4) _ c] 1(3) u(1,2) by (simp add: INT_MAX_def)
      with 1 n show "\<exists>w h' t'. handle_static_files E ext0 init_resp_ctx f sz h t = Inr (w, h', t')
          \<and> prepared w h' 200 (page_headers u ct ''keep-alive'') u \<and> kept h h' \<and> new_body h w"
        unfolding kept_def new_body_def by blast
    qed
  qed
qed

text \<open>A response survives the release of the block of the file name.\<close>

lemma prepared_free:
  assumes h: "ready h" and n: "only_new h h2 s" "sdata s = Some q" "q \<notin> dom (hmem h)"
    and k: "kept h2 h3" and p: "prepared w h3 code hs b" and y: "new_body h2 w" and q: "q \<in> dom (hmem h2)"
  shows "\<exists>h4. free_string s h3 = Inr h4 \<and> prepared w h4 code hs b \<and> kept h h4"
proof -
  let ?h4 = "h3\<lparr>hmem := (hmem h3)(q := None)\<rparr>"
  have sq: "sdata (p_body (resp w)) \<noteq> Some q" using y q by (auto simp: new_body_def)
  have "q \<in> dom (hmem h3)" using q k unfolding kept_def by (metis domIff)
  from free_string_ok [OF n(2) this] have "free_string s h3 = Inr ?h4" .
  moreover have "str_is ?h4 (p_body (resp w)) b" if "str_is h3 (p_body (resp w)) b"
    using that sq by (elim str_isE) (rule str_is_cong [OF _ _ that], auto)
  then have "body_is ?h4 (p_body (resp w)) b" using p by (auto simp: prepared_def body_is_def)
  then have "prepared w ?h4 code hs b" using p by (simp add: prepared_def)
  moreover have "kept h ?h4"
    unfolding kept_def
  proof (intro conjI ballI)
    show "ready ?h4" using k by (auto simp: kept_def ready_def no_fail_def heap_ok_def)
    fix x assume x: "x \<in> dom (hmem h)"
    then have "x \<noteq> q" "hmem h2 x = hmem h x" using n by (auto simp: only_new_def)
    moreover from this x k have "hmem h3 x = hmem h2 x" unfolding kept_def by (metis domIff)
    ultimately show "hmem ?h4 x = hmem h x" by simp
  qed
  ultimately show ?thesis by blast
qed

text \<open>So a path is answered, whatever is open and whatever has been allocated.\<close>

lemma file_found:
  assumes st: "f_stat E (''./www'' @ p) = Some (kind, sz)" and h: "ready h" and p: "length p < 256"
    and raw: "cstring (path (r_url (req rctx))) = Inr p"
    and i: "\<And>h2. ready h2 \<Longrightarrow> \<exists>w h3 t1.
      (if kind = Regular then handle_static_files E ext0 init_resp_ctx (''./www'' @ p) (int_of_off sz) h2 t else Inr (init_resp_ctx, h2, t))
        = Inr (w, h3, t1) \<and> prepared w h3 code hs b \<and> kept h2 h3 \<and> new_body h2 w"
  shows "\<exists>w h' t'. handle_not_found E ext0 init_resp_ctx rctx h t = Inr (w, h', t') \<and> prepared w h' code hs b \<and> kept h h'"
proof -
  have "no_nul p" using cstring_no_nul [OF raw] by simp
  from file_name_string [OF h this p] obtain temp h1 s h2 q where
    1: "new_string (Some ''./www'') h = Inr (temp, h1)" "append_string_cstr (Some temp) (Some p) h1 = Inr (True, Some s, h2)"
    "rbind (block (sdata s) h2) cstring = Inr (''./www'' @ p)" "only_new h h2 s" "sdata s = Some q" "q \<notin> dom (hmem h)"
    "dom (hmem h2) = insert q (dom (hmem h))" by blast
  have "ready h2" using 1(4) by (simp add: only_new_def)
  from i [OF this] obtain w h3 t1 where
    2: "(if kind = Regular then handle_static_files E ext0 init_resp_ctx (''./www'' @ p) (int_of_off sz) h2 t else Inr (init_resp_ctx, h2, t))
        = Inr (w, h3, t1)" "prepared w h3 code hs b" "kept h2 h3" "new_body h2 w" by blast
  from prepared_free [OF h 1(4-6) 2(3,2,4)] 1(7) obtain h4 where
    3: "free_string s h3 = Inr h4" "prepared w h4 code hs b" "kept h h4" by auto
  moreover have "handle_not_found E ext0 init_resp_ctx rctx h t
      = rbind (Inr (w, h3, t1)) (\<lambda>(w, h3, t1). rbind (free_string s h3) (\<lambda>h4. Inr (w, h4, t1)))"
    unfolding 2(1) [symmetric] using 1(1-3) raw st by (simp add: handle_not_found_def Let_def)
  ultimately show ?thesis by simp
qed

lemma file_answered:
  assumes f: "file_within E ext0 (''./www'' @ p)" and p: "length p < 256"
    and raw: "cstring (path (r_url (req rctx))) = Inr p" "cstring (r_raw_path (req rctx)) = Inr u" "length (r_raw_path (req rctx)) = 256"
  obtains code hs b where "\<And>h t. ready h \<Longrightarrow>
    \<exists>w h' t'. handle_not_found E ext0 init_resp_ctx rctx h t = Inr (w, h', t') \<and> prepared w h' code hs b \<and> kept h h'"
proof -
  let ?f = "''./www'' @ p"
  have nf: "no_nul ?f" using cstring_no_nul [OF raw(1)] by (simp add: NUL_def)
  consider "f_stat E ?f = None" | kind sz where "f_stat E ?f = Some (kind, sz)" "kind \<noteq> Regular"
    | sz where "f_stat E ?f = Some (Regular, sz)" by (cases "f_stat E ?f") auto
  then show thesis
  proof cases
    case 1
    from handle_not_found_missing [OF raw(1) p 1 raw(2,3)] show thesis by (intro that) blast
  next
    case 2
    show thesis
      by (rule that [of 0 "[]" "[]"], rule file_found [OF 2(1) _ p raw(1)])
        (use 2(2) prepared_init in \<open>auto simp: kept_def new_body_def init_resp_ctx_def null_string_def\<close>)
  next
    case 3
    obtain n v where nv: "f_read E ?f (nat sz + 1) = (n, v)" by (cases "f_read E ?f (nat sz + 1)")
    have w: "length ext0 = EXT_SIZE" "length (extension ?f) < EXT_SIZE" "0 \<le> sz" "sz \<le> 100000000"
      "n < 0 \<or> n = int (length v) \<and> length v \<le> nat sz + 1"
      using f nv unfolding file_within_def 3 by auto
    obtain code hs b where st: "\<And>h t. ready h \<Longrightarrow> \<exists>w h' t'. handle_static_files E ext0 init_resp_ctx ?f sz h t = Inr (w, h', t')
        \<and> prepared w h' code hs b \<and> kept h h' \<and> new_body h w"
      by (rule static_files_prepared [OF w(1) nf w(2-4) nv w(5)]) blast
    have "int_of_off sz = sz" using w(3,4) by (simp add: int_of_off_def)
    then show thesis by (intro that [of code hs b] file_found [OF 3 _ p raw(1)]) (use st in simp_all)
  qed
qed

section \<open>Requests\<close>

text \<open>What a parsed request may be handed to: its arrays are C strings.\<close>

lemma typed_answerable:
  assumes t: "req_typed (req rctx)" and m: "cstring (r_method (req rctx)) = Inr m"
    and p: "cstring (path (r_url (req rctx))) = Inr p" and w: "get_mothod_type m = GET \<longrightarrow> path_within w table p"
  shows "answerable w table rctx"
proof -
  obtain u where u: "cstring (r_raw_path (req rctx)) = Inr u" "length (r_raw_path (req rctx)) = 256"
    using t text_array_cstring unfolding req_typed_def text_array_def config_sizes by blast
  have lp: "length p < 256" using t p cstring_no_nul by (fastforce simp: req_typed_def url_typed_def text_array_def config_sizes)
  show ?thesis
  proof (cases "get_mothod_type m = GET")
    case False
    then show ?thesis unfolding answerable_def
      using m by (intro exI [of _ 0] exI [of _ "[]"]) (auto simp: respond_def kept_def intro: prepared_init)
  next
    case True
    obtain found handler where l: "route_lookup (we_khash w) (we_handler w) table p = (found, handler)" by fastforce
    have "\<exists>code hs b. \<forall>h files. ready h \<longrightarrow> (\<exists>wc h' t. (if found
        then rbind (we_run w (func handler) init_resp_ctx rctx h) (\<lambda>(v, h1). Inr (v, h1, files))
        else handle_not_found (we_files w) (we_ext w) init_resp_ctx rctx h files) = Inr (wc, h', t)
      \<and> prepared wc h' code hs b \<and> kept h h')"
    proof (cases found)
      case f: True
      then consider "we_run w (func handler) = home_page" | "we_run w (func handler) = api_home_page"
        using w True l by (auto simp: path_within_def)
      then show ?thesis
        using home.run_prepares [OF u] api_home.run_prepares [OF u] f unfolding prepares_def
        by cases (fastforce simp del: split_paired_Ex)+
    next
      case False
      then have "file_within (we_files w) (we_ext w) (''./www'' @ p)" using w True l by (simp add: path_within_def)
      from file_answered [OF this lp p u] obtain code hs b where "\<And>h t. ready h \<Longrightarrow>
        \<exists>v h' t'. handle_not_found (we_files w) (we_ext w) init_resp_ctx rctx h t = Inr (v, h', t') \<and> prepared v h' code hs b \<and> kept h h'"
        by blast
      with False show ?thesis by (intro exI [of _ code] exI [of _ hs] exI [of _ b]) simp
    qed
    then show ?thesis using True m p l by (simp add: answerable_def respond_def)
  qed
qed

lemma request_within_parsed:
  assumes "request_within w table q"
  shows "\<exists>ret rctx. parse_http_request (we_llhttp w) (we_junk w) (init_req_ctx (we_llhttp w) r) (q @ NUL # x) (int (length q))
      = Inr (ret, rctx) \<and> (ret \<noteq> 1 \<longrightarrow> answerable w table rctx)"
proof -
  let ?L = "we_llhttp w"
  obtain evs err p where x: "lh_execute ?L (lh_init ?L) q = (evs, err, p)" by (cases "lh_execute ?L (lh_init ?L) q") auto
  have q: "int (length q) < INT_MAX" and ev: "\<forall>e \<in> set evs. Parser.event_fits e" "value_count evs \<le> 128"
    using assms by (auto simp: request_within_def x)
  obtain r1 where r1: "run_events evs http_request_t_init = Inr r1"
    using run_events_cases [OF req_sized_init, of evs] ev by (auto simp: http_request_t_init_def)
  have t1: "req_typed r1" by (rule run_events_typed [OF req_typed_init r1])
  have n: "size_of_int (int (length q)) = length q" using q by (simp add: INT_MAX_def)
  have run: "parse_http_request ?L (we_junk w) (init_req_ctx ?L r) (q @ NUL # x) (int (length q))
      = (let ctx1 = r\<lparr>req := r1, lparser := p\<rparr> in if err \<noteq> HPE_OK then Inr (1, ctx1)
         else rbind (cstring (r_raw_path r1)) (\<lambda>raw. rbind (seperate_query (we_junk w) raw) (\<lambda>(ret, u).
           Inr (ret, ctx1\<lparr>req := r1\<lparr>r_url := u\<rparr>\<rparr>))))"
    using x r1 by (simp add: parse_http_request_def init_req_ctx_def reset_req_ctx_def n)
  show ?thesis
  proof (cases "err = HPE_OK")
    case False
    then show ?thesis by (simp add: run Let_def)
  next
    case True
    obtain u m where u: "cstring (r_raw_path r1) = Inr u" "length u < 256" and m: "cstring (r_method r1) = Inr m"
      using t1 text_array_cstring unfolding req_typed_def config_sizes by blast
    have nu: "no_nul u" using cstring_no_nul [OF u(1)] by simp
    obtain ret w1 where s: "seperate_query (we_junk w) u = Inr (ret, w1)"
      "ret \<noteq> 1 \<longrightarrow> (\<exists>d. pct_decode u = Some d \<and> ret = 0 \<and> cstring (path w1) = Inr (path_part d))"
    proof (cases "pct_decode u")
      case None
      then show thesis using that seperate_query_eq [OF nu] by simp
    next
      case (Some d)
      have d: "length d < 256" using length_pct_decode [OF Some] u(2) by simp
      have "CHR ''?'' \<in> set d \<longrightarrow> query_fits 0 0 (query_part d)"
        using assms r1 u(1) m Some True by (auto simp: request_within_def x query_fits_0)
      then obtain v where "split_url d = Inr v" using split_url_cases [OF d] by (auto split: if_splits)
      then have "seperate_query (we_junk w) u = Inr (0, v)" using seperate_query_eq [OF nu] Some by simp
      with that path_of_result [OF nu u(2) Some this] Some show thesis by blast
    qed
    let ?ctx = "r\<lparr>lparser := p, req := r1\<lparr>r_url := w1\<rparr>\<rparr>"
    have "answerable w table ?ctx" if ok: "ret \<noteq> 1"
    proof -
      obtain d where d: "pct_decode u = Some d" "cstring (path w1) = Inr (path_part d)" using s(2) ok by blast
      have "req_typed (req ?ctx)" using t1 seperate_query_typed [OF s(1)] by (simp add: req_typed_def)
      moreover have "get_mothod_type m = GET \<longrightarrow> path_within w table (path_part d)"
        using assms r1 u(1) m d(1) True by (simp add: request_within_def x)
      ultimately show ?thesis using typed_answerable [of ?ctx m "path_part d"] m d(2) by simp
    qed
    then show ?thesis using True u(1) s(1) by (simp add: run Let_def)
  qed
qed

lemma within_serves: "\<forall>q \<in> Q. request_within w table q \<Longrightarrow> serves Q w table"
  using request_within_parsed by (fastforce simp: serves_def)

end
