(* ===== verification/Soundness.thy ===== *)
theory Soundness
  imports Limits
begin

text \<open>
  The whole system is sound while it serves: no current event and no worker faults, in whatever order they come,
  and every task that is queued is run to its end.  The invariant of \<open>System\<close> is joined by the ownership of
  memory, and the measure of a shutdown by one for the work that is left in the pool.
\<close>

section \<open>Serving\<close>

text \<open>The states that loop and workers can reach, from an idle server with memory available, as long as the
  requests received are in \<open>Q\<close> and the route table has not been destroyed.\<close>

inductive sys_serving :: "nat \<Rightarrow> char list set \<Rightarrow> 'm \<Rightarrow> ('m, 'f, 'p) worker_env set \<Rightarrow> ('m, 'p) system_t \<Rightarrow> bool"
  for n :: nat and Q :: "char list set" and table :: 'm and E :: "('m, 'f, 'p) worker_env set" where
  start: "q_inv q \<Longrightarrow> q_list q = [] \<Longrightarrow> idle s \<Longrightarrow> ready (sv_heap s) \<Longrightarrow> nodes_available (sv_clients s) \<Longrightarrow>
     sv_route s = Some table \<Longrightarrow> sys_serving n Q table E \<lparr>sy_pool = pool_init q n, sy_server = s, sy_ready = (\<lambda>_. None)\<rparr>"
| step: "sys_serving n Q table E y \<Longrightarrow> system_step E y y' \<Longrightarrow> admits Q (sy_server y) (sy_server y') \<Longrightarrow>
     sv_route (sy_server y') = Some table \<Longrightarrow> sys_serving n Q table E y'"

lemma serving_reach: "sys_serving n Q table E y \<Longrightarrow> sys_reach n E y"
  by (induction rule: sys_serving.induct) (blast intro: sys_reach.intros)+

lemma serving_route: "sys_serving n Q table E y \<Longrightarrow> sv_route (sy_server y) = Some table"
  by (induction rule: sys_serving.induct) simp_all

text \<open>The tasks with a response: it waits for the connection to become writable, or to be registered.\<close>

definition holding :: "pool_t \<Rightarrow> (nat \<Rightarrow> client_t option) \<Rightarrow> nat set" where
  "holding p R = {i. \<exists>k t c. k < nthreads p \<and> wpc p k = Running t \<and> R k = Some c \<and> i = task_arg t}"

definition awaiting :: "('m, 'p) system_t \<Rightarrow> nat set" where
  "awaiting y = waiting (sy_server y) \<union> holding (sy_pool y) (sy_ready y)"

lemma holding_mono:
  assumes "\<And>k t c. k < nthreads p' \<Longrightarrow> wpc p' k = Running t \<Longrightarrow> R' k = Some c \<Longrightarrow>
     k < nthreads p \<and> wpc p k = Running t \<and> R k = Some c"
  shows "holding p' R' \<subseteq> holding p R"
  using assms unfolding holding_def by blast

lemma complete_holding:
  assumes "complete_step k t p p'" and "\<And>j. j \<noteq> k \<Longrightarrow> R' j = R j"
  shows "holding p' R' \<subseteq> holding p R"
proof (rule holding_mono)
  fix j u c
  assume j: "j < nthreads p'" "wpc p' j = Running u" "R' j = Some c"
  note p' = complete_same [OF assms(1)]
  from j(2) have "j \<noteq> k" by (auto simp: p')
  with j assms(2) show "j < nthreads p \<and> wpc p j = Running u \<and> R j = Some c" by (simp add: p')
qed

lemma waiting_allocated:
  assumes "server_ok s" and "i \<in> waiting s"
  shows "sv_tasks s i \<noteq> None \<and> i \<notin> set (sv_pool s)"
proof -
  obtain fd f where "(fd, f, TaskData i) \<in> set (sv_kq s)" using assms(2) by (auto simp: waiting_def)
  then have "reg_ok s (fd, f, TaskData i)" using assms(1) by (auto simp: server_inv_def)
  then show ?thesis by (auto simp: reg_inv_def node_for_def task_for_def split: filter_t.splits)
qed

lemma running_listed:
  assumes "system_ok n y" and "k < nthreads (sy_pool y)" and "wpc (sy_pool y) k = Running t"
  shows "task_arg t \<in> set (sv_pool (sy_server y)) \<and> sv_tasks (sy_server y) (task_arg t) \<noteq> None"
proof -
  note ok = assms(1) [unfolded system_ok_def]
  have "t \<in># pool_jobs (sy_pool y)" using running_job [of n "sy_pool y" k t] ok assms(2,3) by blast
  moreover have "mset (sv_pool (sy_server y)) = image_mset task_arg (pool_jobs (sy_pool y))" using ok by blast
  ultimately have "task_arg t \<in># mset (sv_pool (sy_server y))" by simp
  then have i: "task_arg t \<in> set (sv_pool (sy_server y))" by simp
  moreover have "tasks_ok (sy_server y)" using ok by (simp add: server_inv_def)
  ultimately show ?thesis by (simp add: tasks_ok_def)
qed

lemma awaiting_allocated:
  assumes "system_ok n y" and "i \<in> awaiting y"
  shows "sv_tasks (sy_server y) i \<noteq> None"
proof -
  have "server_ok (sy_server y)" using assms(1) by (simp add: system_ok_def)
  with assms waiting_allocated running_listed [OF assms(1)] show ?thesis unfolding awaiting_def holding_def by blast
qed

lemma awaiting_fresh:
  assumes "system_ok n y"
  shows "sv_tnext (sy_server y) \<notin> awaiting y"
proof
  assume "sv_tnext (sy_server y) \<in> awaiting y"
  from awaiting_allocated [OF assms this] have "sv_tasks (sy_server y) (sv_tnext (sy_server y)) \<noteq> None" .
  moreover have "tasks_ok (sy_server y)" using assms by (simp add: system_ok_def server_inv_def)
  ultimately show False unfolding tasks_ok_def by blast
qed

text \<open>A task that is being answered has no response yet.\<close>

lemma running_not_awaiting:
  assumes ok: "system_ok n y" and k: "k < nthreads (sy_pool y)" "wpc (sy_pool y) k = Running t" and R: "sy_ready y k = None"
  shows "task_arg t \<notin> awaiting y"
proof
  assume "task_arg t \<in> awaiting y"
  moreover have "server_ok (sy_server y)" using ok by (simp add: system_ok_def)
  then have "task_arg t \<notin> waiting (sy_server y)" using waiting_allocated running_listed [OF ok k] by blast
  ultimately obtain j u where j: "j < nthreads (sy_pool y)" "wpc (sy_pool y) j = Running u" "sy_ready y j \<noteq> None" "task_arg u = task_arg t"
    unfolding awaiting_def holding_def by auto
  then have "j \<noteq> k" using R by auto
  then have "{#t, u#} \<subseteq># pool_jobs (sy_pool y)" using running_two [of n "sy_pool y" k j] ok k j by (simp add: system_ok_def)
  then have "task_arg t \<noteq> task_arg u"
    using exec.jobs_distinct [of "sv_pool (sy_server y)" task_arg "sy_pool y" t u] ok
    by (simp add: system_ok_def server_inv_def tasks_ok_def)
  then show False using j(4) by simp
qed

section \<open>Ownership is kept\<close>

definition sys_owned :: "char list set \<Rightarrow> ('m, 'p) system_t \<Rightarrow> bool" where
  "sys_owned Q y \<longleftrightarrow> owned Q (awaiting y) (sy_server y)"

lemma event_owned:
  assumes ok: "system_ok n y" and o: "sys_owned Q y" and r: "reported e (sy_server y)"
    and h: "handle_event c0 e (sy_server y) = Some (Inr s')" and a: "admits Q (sy_server y) s'"
    and y': "sy_server y' = s'" "sy_ready y' = sy_ready y" "nthreads (sy_pool y') = nthreads (sy_pool y)" "wpc (sy_pool y') = wpc (sy_pool y)"
  shows "sys_owned Q y'"
proof -
  have "server_ok (sy_server y)" using ok by (simp add: system_ok_def)
  moreover have "waiting (sy_server y) \<subseteq> awaiting y" by (simp add: awaiting_def)
  ultimately have h: "handled Q (awaiting y) (sy_server y) s'"
    using handle_event_handled [OF _ o [unfolded sys_owned_def] r _ awaiting_fresh [OF ok] h] by blast
  then have "owned Q (awaiting y) s'" "waiting s' \<subseteq> waiting (sy_server y)" using a by (simp_all add: handled_def)
  moreover have "holding (sy_pool y') (sy_ready y') = holding (sy_pool y) (sy_ready y)" using y' by (simp add: holding_def)
  ultimately have "owned Q (awaiting y) s'" "awaiting y' \<subseteq> awaiting y" using y'(1) unfolding awaiting_def by auto
  then show ?thesis unfolding sys_owned_def y'(1) by (rule owned_mono)
qed

lemma system_step_owned:
  assumes "system_step E y y'" and ok: "system_ok n y" and o: "sys_owned Q y"
    and E: "\<forall>w \<in> E. serves Q w table" and r: "sv_route (sy_server y) = Some table" "sv_route (sy_server y') = Some table"
    and a: "admits Q (sy_server y) (sy_server y')"
  shows "sys_owned Q y'"
  using assms(1)
proof (cases rule: system_step.cases)
  case (sync p p' s R)
  have ro: "ready_ok p s R" using ok by (simp add: sync(1) system_ok_def)
  have "wpc p k = Running t" if t: "wpc p' k = Running t" and c: "R k = Some c" for k t c
  proof -
    obtain u where u: "wpc p k = Running u" using ro c unfolding ready_ok_def by blast
    with quiet_wpc [OF sync(3) u] t show ?thesis by simp
  qed
  then have "holding p' R \<subseteq> holding p R" using quiet_nthreads [OF sync(3)] by (intro holding_mono) simp_all
  then have "awaiting y' \<subseteq> awaiting y" by (auto simp: sync(1,2) awaiting_def)
  then show ?thesis using o owned_mono by (auto simp: sync(1,2) sys_owned_def)
next
  case (event p s e c0 s' R)
  show ?thesis by (rule event_owned [OF ok o _ _ a, of e c0]) (simp_all add: event)
next
  case (submit t b p p' e s c0 s' R)
  show ?thesis
    by (rule event_owned [OF ok o _ _ a, of e c0])
      (use submit submit_same [OF submit(3)] nthreads_step [OF submit_pool_step [OF submit(3)]] in simp_all)
next
  case (answer k p t R w s c s')
  have k: "k < nthreads (sy_pool y)" "wpc (sy_pool y) k = Running t" "sy_ready y k = None" using answer by simp_all
  obtain tn where tn: "sv_tasks s (task_arg t) = Some tn" using running_listed [OF ok k(1,2)] answer(1) by auto
  have W: "serves Q w table" "sv_route s = Some table" using E answer(1,6) r(1) by auto
  have "owned Q (awaiting y) s" using o answer(1) by (simp add: sys_owned_def)
  from answer_conn_handled [OF this tn running_not_awaiting [OF ok k] W]
  have s': "owned Q (insert (task_arg t) (awaiting y)) s'" "waiting s' = waiting s" using answer(7) by auto
  have "awaiting y' \<subseteq> insert (task_arg t) (awaiting y)" using s'(2) answer(4) by (auto simp: answer(1,2) awaiting_def holding_def split: if_splits)
  then show ?thesis using owned_mono [OF s'(1)] by (simp add: sys_owned_def answer(2))
next
  case (reject k t p p' R w s s')
  have k: "k < nthreads (sy_pool y)" "wpc (sy_pool y) k = Running t" "sy_ready y k = None"
    using reject by (simp_all add: complete_step_def)
  obtain tn where tn: "sv_tasks s (task_arg t) = Some tn" using running_listed [OF ok k(1,2)] reject(1) by auto
  have W: "serves Q w table" "sv_route s = Some table" using E reject(1,5) r(1) by auto
  have "owned Q (awaiting y) s" using o reject(1) by (simp add: sys_owned_def)
  from answer_conn_handled [OF this tn running_not_awaiting [OF ok k] W]
  have s': "owned Q (awaiting y) s'" "waiting s' = waiting s" using reject(6) by auto
  have "owned Q (awaiting y) (take_task (task_arg t) s')" by (rule owned_cong [OF _ _ _ s'(1)]) (simp_all add: take_task_def)
  moreover have "awaiting y' \<subseteq> awaiting y"
    using complete_holding [OF reject(3), of R R] s'(2) by (auto simp: reject(1,2) awaiting_def waiting_def take_task_def)
  ultimately show ?thesis using owned_mono by (simp add: sys_owned_def reject(2))
next
  case (register k t p p' R c s kev)
  have k: "k < nthreads p" "wpc p k = Running t" using register(3) by (simp_all add: complete_step_def)
  then have t: "task_arg t \<in> awaiting y" using register(4) by (auto simp: register(1) awaiting_def holding_def)
  let ?s = "register_write kev c (task_arg t) (take_task (task_arg t) s)"
  have "owned Q (awaiting y) s" using o register(1) by (simp add: sys_owned_def)
  then have "owned Q (awaiting y) ?s"
    by (rule owned_cong [rotated 3]) (simp_all add: register_write_def take_task_def)
  moreover have "waiting ?s \<subseteq> insert (task_arg t) (waiting s)"
    by (auto simp: waiting_def register_write_def take_task_def set_ev_add)
  then have "awaiting y' \<subseteq> awaiting y"
    using complete_holding [OF register(3), of "R(k := None)" R] t by (auto simp: register(1,2) awaiting_def)
  ultimately show ?thesis using owned_mono by (simp add: sys_owned_def register(2))
next
  case (quit p s table w h R)
  then show ?thesis using r(2) by simp
qed

lemma serving_owned:
  assumes "sys_serving n Q table E y" and "0 < n" and "\<forall>w \<in> E. serves Q w table"
  shows "sys_owned Q y"
  using assms(1)
proof (induction rule: sys_serving.induct)
  case (start q s)
  then show ?case by (auto simp: sys_owned_def owned_def idle_def awaiting_def)
next
  case (step y y')
  show ?case
    by (rule system_step_owned [OF step.hyps(2) sys_reach_ok [OF serving_reach [OF step.hyps(1)] assms(2)] step.IH assms(3)
        serving_route [OF step.hyps(1)] step.hyps(4,3)])
qed

section \<open>The work left in the pool\<close>

text \<open>Without shutdown a worker that finds the ring empty goes to sleep, so sleeping weighs nothing; a task in
  the ring costs the five steps from popping it to the lock again.\<close>

fun work_weight :: "worker_pc \<Rightarrow> nat" where
  "work_weight Exited = 0"
| "work_weight Asleep = 0"
| "work_weight Checking = 1"
| "work_weight AtLock = 2"
| "work_weight Woken = 2"
| "work_weight (Running t) = 3"
| "work_weight (Popped v) = 4"

definition pool_work :: "pool_t \<Rightarrow> nat" where
  "pool_work p = 5 * length (q_list (pq p)) + (\<Sum>i < nthreads p. work_weight (wpc p i))"

lemma pool_work_step:
  assumes "worker_step k p p'" and "k < nthreads p" and "q_inv (pq p)" and "wpc p k \<noteq> Asleep"
  shows "pool_work p' < pool_work p"
proof -
  have up: "(\<Sum>j < nthreads p. work_weight (((wpc p)(k := c)) j)) + work_weight (wpc p k)
          = (\<Sum>j < nthreads p. work_weight (wpc p j)) + work_weight c" for c
    by (rule sum_pc_upd [OF assms(2)])
  note upk = up [of "wpc p' k"]
  from assms(1) show ?thesis
    by (cases rule: worker_step.cases)
      (use assms(3,4) upk in \<open>auto simp: pool_work_def is_empty_q_list dest: pop_ok pop_ring_false
        simp del: fun_upd_apply simp add: fun_upd_same\<close>)
qed

text \<open>A step of a worker that was not asleep: in the pool, or from the request to the response.\<close>

definition work_step :: "('m, 'f, 'p) worker_env set \<Rightarrow> ('m, 'p) system_t \<Rightarrow> ('m, 'p) system_t \<Rightarrow> bool" where
  "work_step E y y' \<longleftrightarrow> system_step E y y' \<and> (\<exists>k < nthreads (sy_pool y). wpc (sy_pool y) k \<noteq> Asleep
     \<and> (worker_step k (sy_pool y) (sy_pool y') \<or> sy_pool y' = sy_pool y \<and> sy_ready y k = None \<and> sy_ready y' k \<noteq> None))"

definition sys_work :: "('m, 'p) system_t \<Rightarrow> nat" where
  "sys_work y = Suc (nthreads (sy_pool y)) * pool_work (sy_pool y)
     + card {k. k < nthreads (sy_pool y) \<and> sy_ready y k = None}"

lemma work_step_lowers:
  assumes w: "work_step E y y'" and q: "q_inv (pq (sy_pool y))"
  shows "sys_work y' < sys_work y \<and> mpc (sy_pool y') = mpc (sy_pool y)"
proof -
  obtain k where st: "system_step E y y'" and k: "k < nthreads (sy_pool y)" "wpc (sy_pool y) k \<noteq> Asleep"
    and c: "worker_step k (sy_pool y) (sy_pool y') \<or> sy_pool y' = sy_pool y \<and> sy_ready y k = None \<and> sy_ready y' k \<noteq> None"
    using w by (auto simp: work_step_def)
  show ?thesis
  proof (cases "worker_step k (sy_pool y) (sy_pool y')")
    case True
    from pool_work_step [OF this k(1) q k(2)] worker_step_mpc [OF True] nthreads_step [OF pool_step.worker [OF k(1) True]]
      idle_workers_le [of "nthreads (sy_pool y)" "sy_ready y'"]
    show ?thesis by (simp add: sys_work_def measure_drop del: mult_Suc)
  next
    case False
    with c have p: "sy_pool y' = sy_pool y" and n: "sy_ready y k = None" "sy_ready y' k \<noteq> None" by auto
    have "sy_ready y' = (sy_ready y)(k := sy_ready y' k)"
      using st n by (cases rule: system_step.cases) auto
    moreover obtain d where "sy_ready y' k = Some d" using n(2) by blast
    ultimately have R: "sy_ready y' = (sy_ready y)(k := Some d)" by metis
    have "{j. j < nthreads (sy_pool y) \<and> sy_ready y' j = None} \<subset> {j. j < nthreads (sy_pool y) \<and> sy_ready y j = None}"
      using k(1) n(1) unfolding R by auto
    then have "card {j. j < nthreads (sy_pool y) \<and> sy_ready y' j = None} < card {j. j < nthreads (sy_pool y) \<and> sy_ready y j = None}"
      by (intro psubset_card_mono) simp_all
    then show ?thesis using p by (simp add: sys_work_def)
  qed
qed

text \<open>What such a step does to the server; the loop's own steps are not among them.\<close>

lemma work_step_cases:
  assumes w: "work_step E y y'" and q: "q_inv (pq (sy_pool y))" and m: "mpc (sy_pool y) = MIdle"
  obtains "sy_server y' = sy_server y"
    | k t w c where "k < nthreads (sy_pool y)" "wpc (sy_pool y) k = Running t" "sy_ready y k = None" "w \<in> E"
        "answer_conn w (task_arg t) (sy_server y) = Inr (Some c, sy_server y')"
    | k t w s where "k < nthreads (sy_pool y)" "wpc (sy_pool y) k = Running t" "sy_ready y k = None" "w \<in> E"
        "answer_conn w (task_arg t) (sy_server y) = Inr (None, s)" "sy_server y' = take_task (task_arg t) s"
    | k t c kev where "k < nthreads (sy_pool y)" "wpc (sy_pool y) k = Running t" "sy_ready y k = Some c"
        "sy_server y' = register_write kev c (task_arg t) (take_task (task_arg t) (sy_server y))"
proof -
  have st: "system_step E y y'" and "sys_work y' < sys_work y" using w work_step_lowers [OF w q] by (auto simp: work_step_def)
  then have n: "\<not> (sy_pool y' = sy_pool y \<and> sy_ready y' = sy_ready y)" by (auto simp: sys_work_def)
  show thesis
    using st
  proof (cases rule: system_step.cases)
    case (submit t b p p' e s c0 s' R)
    then show thesis using m by (simp add: submit_step_def)
  qed (use that n in \<open>auto simp: complete_step_def\<close>)
qed

lemma work_step_serving:
  assumes y: "sys_serving n Q table E y" and w: "work_step E y y'" and q: "q_inv (pq (sy_pool y))" and m: "mpc (sy_pool y) = MIdle"
  shows "sys_serving n Q table E y'"
proof -
  have "sv_route (sy_server y') = sv_route (sy_server y)
      \<and> (\<forall>i. sv_tasks (sy_server y) i = None \<longrightarrow> sv_tasks (sy_server y') i = None)"
    using w q m
  proof (cases rule: work_step_cases)
    case (2 k t v c)
    then show ?thesis using answer_conn_effect [OF 2(5)] by (metis option.distinct(1))
  next
    case (3 k t v s)
    then show ?thesis using answer_conn_effect [OF 3(5)] by (simp add: take_task_def) (metis option.distinct(1))
  qed (auto simp: register_write_def take_task_def)
  then have "admits Q (sy_server y) (sy_server y')" "sv_route (sy_server y') = Some table"
    using serving_route [OF y] by (auto simp: admits_def)
  then show ?thesis using sys_serving.step [OF y _] w by (simp add: work_step_def)
qed

text \<open>How a task leaves the pool: its request was rejected, or its response is there and its connection is
  registered for it, unless that call was refused.\<close>

definition task_over :: "('m, 'f, 'p) worker_env set \<Rightarrow> nat \<Rightarrow> ('m, 'p) server_t \<Rightarrow> ('m, 'p) server_t \<Rightarrow> bool" where
  "task_over E i s s' \<longleftrightarrow> (\<exists>w \<in> E. \<exists>s1. answer_conn w i s = Inr (None, s1) \<and> s' = take_task i s1)
     \<or> (\<exists>tn resp. sv_tasks s' i = Some tn \<and> str_is (sv_heap s') (complete_resp (t_resp tn)) resp
          \<and> ((cl_fd (t_client tn), EVFILT_WRITE, TaskData i) \<in> set (sv_kq s') \<or> sv_kq s' = sv_kq s))"

lemma work_step_over:
  assumes ok: "system_ok n y" and o: "sys_owned Q y" and w: "work_step E y y'" and q: "q_inv (pq (sy_pool y))"
    and m: "mpc (sy_pool y) = MIdle" and i: "i \<in> set (sv_pool (sy_server y))" "i \<notin> set (sv_pool (sy_server y'))"
  shows "task_over E i (sy_server y) (sy_server y')"
  using w q m
proof (cases rule: work_step_cases)
  case 1
  then show ?thesis using i by simp
next
  case (2 k t v c)
  have "sv_pool (sy_server y') = sv_pool (sy_server y)" using answer_conn_effect [OF 2(5)] by blast
  then show ?thesis using i by simp
next
  case (3 k t v s)
  have "sv_pool s = sv_pool (sy_server y)" using answer_conn_effect [OF 3(5)] by blast
  then have "i = task_arg t" using i unfolding 3(6) by (auto simp: take_task_def dest: in_set_remove1 [THEN iffD2, rotated])
  then show ?thesis using 3 unfolding task_over_def by blast
next
  case (4 k t c kev)
  have t: "i = task_arg t" using i unfolding 4(4)
    by (auto simp: take_task_def register_write_def dest: in_set_remove1 [THEN iffD2, rotated] split: if_splits)
  obtain tn where tn: "sv_tasks (sy_server y) i = Some tn" "t_client tn = c"
    using ok 4(2,3) unfolding system_ok_def ready_ok_def t by (metis worker_pc.inject(2))
  have "i \<in> awaiting y" using 4(1-3) by (auto simp: awaiting_def holding_def t)
  then obtain resp where "str_is (sv_heap (sy_server y)) (complete_resp (t_resp tn)) resp"
    using ownedD(4) [OF o [unfolded sys_owned_def] _ tn(1)] by blast
  then show ?thesis
    using tn unfolding task_over_def 4(4) t by (auto simp: register_write_def take_task_def set_ev_add)
qed

text \<open>While tasks are left some worker that is awake can move.\<close>

lemma awake_moves:
  assumes inv: "pool_inv p" and m: "mpc p = MIdle" and i: "i < nthreads p" "wpc p i \<noteq> Asleep" "wpc p i \<noteq> Exited"
  obtains j p' where "j < nthreads p" "wpc p j \<noteq> Asleep" "worker_step j p p'"
proof -
  have q: "q_inv (pq p)" using inv m by (simp add: pool_inv_def queue_inv_def)
  have free: "lock p = None \<or> (\<exists>j < nthreads p. holds_lock (wpc p j))"
    using inv m by (cases "lock p"; cases "the (lock p)") (auto simp: pool_inv_def lock_inv_def)
  show thesis
  proof (cases "\<exists>j < nthreads p. holds_lock (wpc p j)")
    case True
    then obtain j where j: "j < nthreads p" "holds_lock (wpc p j)" by blast
    then have "wpc p j \<noteq> Asleep" by auto
    with j holder_moves [OF j(2) q] that show thesis by blast
  next
    case False
    with free have l: "lock p = None" by blast
    have "\<exists>p'. worker_step i p p'"
    proof (cases "wpc p i")
      case AtLock
      then show ?thesis using l by (blast intro: w_lock)
    next
      case Woken
      then show ?thesis using l by (blast intro: w_relock)
    next
      case (Running t)
      then show ?thesis by (blast intro: w_done)
    qed (use False i in auto)
    with i that show thesis by blast
  qed
qed

lemma jobs_awake:
  assumes "pool_ok n p" and "mpc p = MIdle" and "pool_jobs p \<noteq> {#}"
  obtains i where "i < nthreads p" "wpc p i \<noteq> Asleep" "wpc p i \<noteq> Exited"
proof -
  have inv: "pool_inv p" using assms(1) reach_pool_inv by (auto simp: pool_ok_def)
  have j: "pool_jobs p = mset (q_list (pq p)) + flights p" using pool_jobs_eq [OF assms(1)] assms(2) by simp
  show thesis
  proof (cases "q_list (pq p) = []")
    case True
    then have "flights p \<noteq> {#}" using j assms(3) by simp
    then obtain i where "i < nthreads p" "in_flight (wpc p i) \<noteq> {#}" unfolding flights_def by (auto elim: sum.not_neutral_contains_not_neutral)
    then show thesis using that by (cases "wpc p i") auto
  next
    case False
    then show thesis using inv assms(2) that by (auto simp: pool_inv_def wake_inv_def)
  qed
qed

section \<open>A run\<close>

lemma calm_run_serving:
  assumes "calm_run (sv_tnext s) (sv_route s \<noteq> None) acts p = Some p'"
    and "sys_serving n Q table E \<lparr>sy_pool = p, sy_server = s, sy_ready = R\<rparr>"
  shows "sys_serving n Q table E \<lparr>sy_pool = p', sy_server = s, sy_ready = R\<rparr>"
  using assms
proof (induction acts arbitrary: p)
  case (Cons a acts)
  then obtain q where q: "exec_act a p = Some q" "calm (sv_tnext s) (sv_route s \<noteq> None) a p"
    "calm_run (sv_tnext s) (sv_route s \<noteq> None) acts q = Some p'" by (auto split: if_splits option.splits)
  from calm_sound [OF q(1,2)] have "quiet_step p q" "main_may p q s" by simp_all
  moreover have "sv_route s = Some table" using serving_route [OF Cons.prems(2)] by simp
  ultimately show ?case
    using Cons.IH [OF q(3) sys_serving.step [OF Cons.prems(2) system_step.sync]] by (simp add: admits_def)
qed simp

text \<open>Worker 0 runs the task of a client that asked for the registered home page, as in \<open>serve_home_page\<close>.\<close>

abbreviation home_table :: "(key \<times> nat route_handler_t) list" where
  "home_table \<equiv> [((0, ''/''), \<lparr>func = 1\<rparr>)]"

abbreviation get_worker :: "((key \<times> nat route_handler_t) list, nat, unit) worker_env" where
  "get_worker \<equiv> worker0 ''GET'' ''/''"

lemma get_worker_within: "request_within get_worker home_table ''GET''"
proof -
  let ?evs = "request_events ''GET'' ''/'' [(''Host'', ''h'')] [EvMessageComplete]"
  have x: "lh_execute (we_llhttp get_worker) (lh_init (we_llhttp get_worker)) ''GET'' = (?evs, 0, ())" by (simp add: worker0_def)
  have d: "pct_decode ''/'' = Some ''/''" "path_part ''/'' = ''/''" by code_simp+
  have f: "request_fits ''GET'' ''/'' [(''Host'', ''h'')]" by (simp add: request_fits_def NUL_def)
  have e: "e = ''/''" if "run_events ?evs http_request_t_init = Inr r" "cstring (r_raw_path r) = Inr v" "pct_decode v = Some e" for r v e
    using run_request [OF f, of "[EvMessageComplete]"] that d(1) by (auto simp: ignored_def)
  have p: "path_within get_worker home_table (path_part ''/'')"
    unfolding d(2) by (simp add: path_within_def worker0_def route_lookup_def assoc_khash_def)
  have s: "(\<forall>e \<in> set ?evs. Parser.event_fits e) \<and> value_count ?evs \<le> 128"
    by (simp add: request_events_def pair_events_def)
  show ?thesis
    unfolding request_within_def x prod.case
  proof (intro conjI impI allI)
    fix r v dd m
    assume "run_events ?evs http_request_t_init = Inr r" "cstring (r_raw_path r) = Inr v" "pct_decode v = Some dd"
    from e [OF this] have dd: "dd = ''/''" .
    show "path_within get_worker home_table (path_part dd)" unfolding dd by (rule p)
    assume "CHR ''?'' \<in> set dd"
    then show "count_list (query_part dd) (CHR ''&'') < 10" "\<forall>f \<in> set (Url.fields (query_part dd)). length f < 128"
      by (simp_all add: dd)
  qed (use s in \<open>simp_all add: INT_MAX_def\<close>)
qed

lemma get_worker_serves: "serves {''GET''} get_worker home_table"
  by (rule within_serves) (simp only: ball_simps get_worker_within simp_thms)

lemma serving_accepted:
  "sys_serving 2 Q home_table E \<lparr>sy_pool = pool_init one_cell 2, sy_server = server5, sy_ready = (\<lambda>_. None)\<rparr>"
proof (rule sys_serving.step)
  show "sys_serving 2 Q home_table E \<lparr>sy_pool = pool_init one_cell 2, sy_server = server0, sy_ready = (\<lambda>_. None)\<rparr>"
  proof (rule sys_serving.start [OF _ _ idle_server0])
    show "ready (sv_heap server0)" by (simp add: server0_def ready_heap0)
  qed (simp_all add: one_cell_def q_inv_def q_list_def server0_def nodes_available_def nheap0_def)
  have "ke_conns accept5 = [conn5]" by (simp add: accept5_def)
  moreover have "answer_ok conn5 server0" by (simp add: answer_in_def conn5_def server0_def listener0_def)
  ultimately have a: "answers_ok (client_n 0) (ke_conns accept5) server0" by (simp split: sum.split del: accept_client.simps)
  have r: "reported accept5 server0" by (simp add: reported_def accept5_def event0_def server0_def listener0_def)
  show "system_step E \<lparr>sy_pool = pool_init one_cell 2, sy_server = server0, sy_ready = (\<lambda>_. None)\<rparr>
      \<lparr>sy_pool = pool_init one_cell 2, sy_server = server5, sy_ready = (\<lambda>_. None)\<rparr>"
    by (rule system_step.event [OF _ _ r a accept5_event]) (simp_all add: pool_init_def server5_def server0_def)
qed (simp_all add: admits_def server5_def server0_def)

lemma serving_running:
  obtains p s where "sys_serving 2 {''GET''} home_table {get_worker} \<lparr>sy_pool = p, sy_server = s, sy_ready = (\<lambda>_. None)\<rparr>"
    "wpc p 0 = Running (sample_task 0)" "mpc p = MIdle" "sv_pool s = [0]"
proof -
  let ?R = "\<lambda>_. None" and ?S = "sys_serving 2 {''GET''} home_table {get_worker}"
  obtain p1 p2 p3 where
    p1: "calm_run 0 True (calm_acts ! 0) (pool_init one_cell 2) = Some p1" "mpc p1 = MPush (sample_task 0)"
    and p2: "exec_act M p1 = Some p2" "mpc p2 = MSignal"
    and p3: "calm_run 1 True (calm_acts ! 1) p2 = Some p3" "mpc p3 = MIdle" "wpc p3 0 = Running (sample_task 0)"
    using calm_acts_run by (auto split: option.split_asm)
  have f: "sv_tnext server5 = 0" "sv_route server5 = Some home_table" "sv_pool server5 = []" 
    "sv_tasks server5 = Map.empty"
    by (simp_all add: server5_def server0_def)
  have r1: "?S \<lparr>sy_pool = p1, sy_server = server5, sy_ready = ?R\<rparr>"
    by (rule calm_run_serving [where s = server5 and acts = "calm_acts ! 0", OF _ serving_accepted]) (use p1(1) in \<open>simp add: f\<close>)
  have e1: "request_event read5 5 ''GET'' server5" by (rule read5_event)
  have h: "ready (sv_heap server5)" using ready_heap0 by (simp add: server5_def server0_def)
  have ok: "server_ok server5" using sys_reach_ok [OF serving_reach [OF r1]] by (simp add: system_ok_def)
  obtain s1 tn where s: "handle_event (client_n 0) read5 server5 = Some (Inr s1)" "str_is (sv_heap s1) (t_buffer tn) ''GET''"
    and e: "s1 = server5\<lparr>sv_tasks := (sv_tasks server5)(sv_tnext server5 \<mapsto> tn), sv_tnext := Suc (sv_tnext server5),
       sv_pool := sv_pool server5 @ [sv_tnext server5], sv_heap := sv_heap s1\<rparr>"
    by (rule request_read [OF ok h e1]) blast
  obtain H where "sv_heap s1 = H" by blast
  with e have t: "sv_pool s1 = [0]" "sv_tnext s1 = 1" "sv_route s1 = Some home_table" "sv_tasks s1 = [0 \<mapsto> tn]" by (simp_all add: f)
  have "q = ''GET''" if "str_is (sv_heap s1) (t_buffer tn) q" for q using str_is_unique [OF that s(2)] .
  then have a: "admits {''GET''} server5 s1" by (simp add: admits_def t(4) f(4) split: if_splits)
  have sub: "submit_step (sample_task 0) True p1 p2" using main_exec_push p1(2) p2 by (auto simp: submit_step_def)
  have "reported read5 server5" "answers_ok (client_n 0) (ke_conns read5) server5" "ti_pushed (ke_task read5) = True"
    by (simp_all add: reported_def read5_def event0_def f server5_def task_in0_def)
  then have "?S \<lparr>sy_pool = p2, sy_server = s1, sy_ready = ?R\<rparr>"
    using sys_serving.step [OF r1 system_step.submit [OF sub _ _ s(1)]] t(2,3) f(1) a by simp
  then have "?S \<lparr>sy_pool = p3, sy_server = s1, sy_ready = ?R\<rparr>"
    by (rule calm_run_serving [where s = s1 and acts = "calm_acts ! 1", rotated]) (use p3(1) t in simp)
  with that p3(2,3) t(1) show thesis by blast
qed

text \<open>A worker can always answer its task.\<close>

lemma system_progress_answer:
  assumes "sys_serving n Q table E y" and "0 < n" and "\<forall>w \<in> E. serves Q w table"
    and k: "k < nthreads (sy_pool y)" "wpc (sy_pool y) k = Running t" "sy_ready y k = None" and w: "w \<in> E"
  shows "\<exists>c s'. answer_conn w (task_arg t) (sy_server y) = Inr (c, s')"
proof -
  have ok: "system_ok n y" by (rule sys_reach_ok [OF serving_reach [OF assms(1)] assms(2)])
  obtain tn where "sv_tasks (sy_server y) (task_arg t) = Some tn" using running_listed [OF ok k(1,2)] by auto
  then show ?thesis
    using answer_conn_handled [OF serving_owned [OF assms(1-3), unfolded sys_owned_def] _ running_not_awaiting [OF ok k]]
      w assms(3) serving_route [OF assms(1)] by metis
qed

text \<open>The workers can work as long as there is a task, and so they come to an end.\<close>

lemma serving_queue:
  assumes "sys_serving n Q table E y" and "0 < n" and "mpc (sy_pool y) = MIdle"
  shows "q_inv (pq (sy_pool y))"
proof -
  have "pool_ok n (sy_pool y)" using sys_reach_ok [OF serving_reach [OF assms(1)] assms(2)] by (simp add: system_ok_def)
  then have "pool_inv (sy_pool y)" using reach_pool_inv by (auto simp: pool_ok_def)
  then show ?thesis using assms(3) by (simp add: pool_inv_def queue_inv_def)
qed

lemma work_possible:
  assumes y: "sys_serving n Q table E y" "0 < n" "\<forall>w \<in> E. serves Q w table" and E: "E \<noteq> {}" and m: "mpc (sy_pool y) = MIdle"
    and i: "sv_pool (sy_server y) \<noteq> []"
  shows "\<exists>y'. work_step E y y'"
proof -
  have ok: "system_ok n y" by (rule sys_reach_ok [OF serving_reach [OF y(1)] y(2)])
  then have p: "pool_ok n (sy_pool y)" by (simp add: system_ok_def)
  then have inv: "pool_inv (sy_pool y)" and n: "nthreads (sy_pool y) = n"
    using reach_pool_inv reach_nthreads by (auto simp: pool_ok_def)
  have "mset (sv_pool (sy_server y)) = image_mset task_arg (pool_jobs (sy_pool y))" using ok by (simp add: system_ok_def)
  with i have "pool_jobs (sy_pool y) \<noteq> {#}" by auto
  from jobs_awake [OF p m this] obtain i where "i < nthreads (sy_pool y)" "wpc (sy_pool y) i \<noteq> Asleep" "wpc (sy_pool y) i \<noteq> Exited" .
  from awake_moves [OF inv m this] obtain k p' where
    k: "k < nthreads (sy_pool y)" "wpc (sy_pool y) k \<noteq> Asleep" "worker_step k (sy_pool y) p'" .
  obtain w where w: "w \<in> E" using E by blast
  have "\<exists>w \<in> E. \<exists>x. answer_conn w (task_arg t) (sy_server y) = Inr x" if "wpc (sy_pool y) k = Running t" "sy_ready y k = None" for t
    using system_progress_answer [OF y] that k(1) n w by blast
  then obtain y' where y': "system_step E \<lparr>sy_pool = sy_pool y, sy_server = sy_server y, sy_ready = sy_ready y\<rparr> y'"
    "sy_pool y' = p' \<or> sy_pool y' = sy_pool y \<and> sy_ready y k = None \<and> sy_ready y' k \<noteq> None"
    using worker_progress [OF k(1,3), of "sy_ready y" E "sy_server y"] by blast
  moreover have "\<lparr>sy_pool = sy_pool y, sy_server = sy_server y, sy_ready = sy_ready y\<rparr> = y" by simp
  ultimately have "system_step E y y'" by simp
  with y'(2) k show ?thesis unfolding work_step_def by blast
qed

lemma work_finishes:
  assumes "sys_serving n Q table E y" and n: "0 < n" and E: "\<forall>w \<in> E. serves Q w table" "E \<noteq> {}" and "mpc (sy_pool y) = MIdle"
  shows "\<exists>y'. (work_step E)\<^sup>*\<^sup>* y y' \<and> sv_pool (sy_server y') = []"
  using assms(1,5)
proof (induction "sys_work y" arbitrary: y rule: less_induct)
  case less
  show ?case
  proof (cases "sv_pool (sy_server y) = []")
    case False
    obtain y1 where w: "work_step E y y1" using work_possible [OF less.prems(1) n E less.prems(2) False] by blast
    note q = serving_queue [OF less.prems(1) n less.prems(2)]
    have "sys_work y1 < sys_work y" "mpc (sy_pool y1) = MIdle" using work_step_lowers [OF w q] less.prems(2) by simp_all
    from less.hyps [OF this(1) work_step_serving [OF less.prems(1) w q less.prems(2)] this(2)] w show ?thesis
      by (meson converse_rtranclp_into_rtranclp)
  qed blast
qed

section \<open>Properties\<close>

text \<open>C2: The server does not fault while it serves.  Take any state that loop and workers can reach, in any
  interleaving, while memory is available, the routes are not destroyed, and every request received is within
  the limits of the code (\<open>request_within\<close>: its spans, headers and query fit the arrays, and the file it
  names, if it is no registered page, can be served).  Then the next event, if its registration is current,
  is handled to the end, and every worker that holds an unanswered task generates its response or rejects
  it: no freed block is read, none is freed twice, no pointer is NULL and no array is overrun.  What the
  kernel answers must fit the arrays the code passes to it (\<open>event_fits\<close>), and \<open>accept\<close> give descriptors
  that are not open (\<open>answers_ok\<close>).  An event that is stale because of an earlier one of its batch is not
  covered: there the code does fault (\<open>batch_write_read_uaf\<close>); \<open>distinct_batch_handled\<close> says which batches are safe.\<close>

theorem system_never_faults:
  assumes "sys_serving n Q table E y" and "0 < n" and "\<forall>w \<in> E. \<forall>q \<in> Q. request_within w table q"
  shows "(\<forall>c0 e. reported e (sy_server y) \<longrightarrow> answers_ok c0 (ke_conns e) (sy_server y) \<longrightarrow> event_fits c0 e (sy_server y) \<longrightarrow>
            (\<exists>s'. handle_event c0 e (sy_server y) = Some (Inr s')))
     \<and> (\<forall>k < n. \<forall>t. wpc (sy_pool y) k = Running t \<longrightarrow> sy_ready y k = None \<longrightarrow>
            (\<forall>w \<in> E. \<exists>c s'. answer_conn w (task_arg t) (sy_server y) = Inr (c, s')))"
proof -
  have v: "\<forall>w \<in> E. serves Q w table" by (rule ballI, rule within_serves, rule bspec [OF assms(3)])
  have ok: "system_ok n y" by (rule sys_reach_ok [OF serving_reach [OF assms(1)] assms(2)])
  then have s: "server_ok (sy_server y)" and n: "nthreads (sy_pool y) = n"
    using reach_nthreads by (auto simp: system_ok_def pool_ok_def)
  note o = serving_owned [OF assms(1,2) v, unfolded sys_owned_def]
  have w: "waiting (sy_server y) \<subseteq> awaiting y" by (simp add: awaiting_def)
  from handle_event_total [OF s o _ _ _ w awaiting_fresh [OF ok]] system_progress_answer [OF assms(1,2) v] n show ?thesis by blast
qed

theorem system_never_faults_witness:
  "\<exists>y c s'. sys_serving 2 {''GET''} home_table {get_worker} y \<and> wpc (sy_pool y) 0 = Running (sample_task 0)
     \<and> answer_conn get_worker 0 (sy_server y) = Inr (c, s')"
proof -
  obtain p s where r: "sys_serving 2 {''GET''} home_table {get_worker} \<lparr>sy_pool = p, sy_server = s, sy_ready = (\<lambda>_. None)\<rparr>"
    and w: "wpc p 0 = Running (sample_task 0)"
    by (rule serving_running) blast
  have "\<exists>c s'. answer_conn get_worker (task_arg (sample_task 0)) s = Inr (c, s')"
    using system_never_faults [OF r _ _, THEN conjunct2, rule_format, of 0 "sample_task 0" get_worker] get_worker_within w by simp
  with r w show ?thesis by (intro exI [of _ "\<lparr>sy_pool = p, sy_server = s, sy_ready = (\<lambda>_. None)\<rparr>"]) (simp add: task_arg_def sample_task_def)
qed

text \<open>C6: Every task owns its memory: in every such state the block of a task's request is live, holds one of
  the requests received, and belongs to no other task; and the response of a task that is registered for
  writing is a live string in a block that is no task's request.\<close>

theorem system_blocks_owned:
  assumes "sys_serving n Q table E y" and "0 < n" and "\<forall>w \<in> E. serves Q w table" and "sv_tasks (sy_server y) i = Some tn"
  shows "(\<exists>q \<in> Q. str_is (sv_heap (sy_server y)) (t_buffer tn) q)
     \<and> (\<forall>j tm. sv_tasks (sy_server y) j = Some tm \<longrightarrow> j \<noteq> i \<longrightarrow> sdata (t_buffer tm) \<noteq> sdata (t_buffer tn))
     \<and> (\<forall>fd. (fd, EVFILT_WRITE, TaskData i) \<in> set (sv_kq (sy_server y)) \<longrightarrow>
           (\<exists>resp. str_is (sv_heap (sy_server y)) (complete_resp (t_resp tn)) resp)
         \<and> (\<forall>j tm. sv_tasks (sy_server y) j = Some tm \<longrightarrow> sdata (t_buffer tm) \<noteq> sdata (complete_resp (t_resp tn))))"
proof -
  have "owned Q (awaiting y) (sy_server y)" using serving_owned [OF assms(1-3)] by (simp add: sys_owned_def)
  moreover have "i \<in> awaiting y" if "(fd, EVFILT_WRITE, TaskData i) \<in> set (sv_kq (sy_server y))" for fd
    using that by (auto simp: awaiting_def waiting_def)
  ultimately show ?thesis using assms(4) unfolding owned_def by blast
qed

theorem system_blocks_owned_witness:
  "\<exists>y tn. sys_serving 2 {''GET''} home_table {get_worker} y \<and> sv_tasks (sy_server y) 0 = Some tn
     \<and> str_is (sv_heap (sy_server y)) (t_buffer tn) ''GET''"
proof -
  obtain p s where r: "sys_serving 2 {''GET''} home_table {get_worker} \<lparr>sy_pool = p, sy_server = s, sy_ready = (\<lambda>_. None)\<rparr>" (is "sys_serving _ _ _ _ ?y")
    and w: "sv_pool s = [0]"
    by (rule serving_running) blast
  have "server_ok s" using sys_reach_ok [OF serving_reach [OF r]] by (simp add: system_ok_def)
  then obtain tn where tn: "sv_tasks s 0 = Some tn" using w by (auto simp: server_inv_def tasks_ok_def)
  have "\<forall>w \<in> {get_worker}. serves {''GET''} w home_table" using get_worker_serves by simp
  from system_blocks_owned [OF r _ this, of 0 tn] tn r show ?thesis by (intro exI [of _ ?y] exI [of _ tn]) simp
qed

text \<open>C4: Every queued task is run to its end.  Take a state that the server reaches while it serves (as for
  \<open>system_never_faults\<close>), at a moment when the loop is outside the pool's functions.  The steps of the workers
  (spurious wake-ups are not counted among them) cannot go on forever, since each lowers \<open>sys_work\<close>; one is
  possible as long as any task is queued or held; so they come to a state in which none is.  A task leaves
  the pool in one of two ways only (\<open>task_over\<close>): the parser has rejected its request, which is then never
  answered (\<open>rejected_request_unanswered\<close>), or its response has been generated and its connection is
  registered for writing with it, unless \<open>kevent\<close> refused that.\<close>

theorem system_requests_served:
  assumes "sys_serving n Q table E y" and "0 < n" and "\<forall>w \<in> E. \<forall>q \<in> Q. request_within w table q" and "E \<noteq> {}"
    and "mpc (sy_pool y) = MIdle"
  shows "(\<forall>y'. work_step E y y' \<longrightarrow> sys_work y' < sys_work y \<and> mpc (sy_pool y') = MIdle
        \<and> (\<forall>i \<in> set (sv_pool (sy_server y)) - set (sv_pool (sy_server y')). task_over E i (sy_server y) (sy_server y')))
     \<and> (sv_pool (sy_server y) \<noteq> [] \<longrightarrow> (\<exists>y'. work_step E y y'))
     \<and> (\<exists>y'. (work_step E)\<^sup>*\<^sup>* y y' \<and> sv_pool (sy_server y') = [])"
proof -
  have v: "\<forall>w \<in> E. serves Q w table" by (rule ballI, rule within_serves, rule bspec [OF assms(3)])
  have ok: "system_ok n y" by (rule sys_reach_ok [OF serving_reach [OF assms(1)] assms(2)])
  have q: "q_inv (pq (sy_pool y))" by (rule serving_queue [OF assms(1,2,5)])
  note o = serving_owned [OF assms(1,2) v]
  show ?thesis
  proof (intro conjI allI impI ballI)
    fix y' assume w: "work_step E y y'"
    show "sys_work y' < sys_work y" "mpc (sy_pool y') = MIdle" using work_step_lowers [OF w q] assms(5) by simp_all
    fix i assume "i \<in> set (sv_pool (sy_server y)) - set (sv_pool (sy_server y'))"
    then show "task_over E i (sy_server y) (sy_server y')" using work_step_over [OF ok o w q assms(5)] by simp
  qed (rule work_possible [OF assms(1,2) v assms(4,5)] work_finishes [OF assms(1,2) v assms(4,5)]; assumption?)+
qed

theorem system_requests_served_witness:
  "\<exists>y y'. sys_serving 2 {''GET''} home_table {get_worker} y \<and> sv_pool (sy_server y) = [0]
     \<and> (work_step {get_worker})\<^sup>*\<^sup>* y y' \<and> sv_pool (sy_server y') = []"
proof -
  obtain p s where r: "sys_serving 2 {''GET''} home_table {get_worker} \<lparr>sy_pool = p, sy_server = s, sy_ready = (\<lambda>_. None)\<rparr>" (is "sys_serving _ _ _ _ ?y")
    and w: "sv_pool s = [0]" "mpc p = MIdle"
    by (rule serving_running) blast
  have v: "\<forall>w \<in> {get_worker}. \<forall>q \<in> {''GET''}. request_within w home_table q" using get_worker_within by simp
  have "\<exists>y'. (work_step {get_worker})\<^sup>*\<^sup>* ?y y' \<and> sv_pool (sy_server y') = []"
    using system_requests_served [OF r _ v] w(2) by simp
  with w r show ?thesis by fastforce
qed

end
