(* ===== verification/Batches.thy ===== *)
theory Batches
  imports Soundness
begin

text \<open>
  Batches of events.  \<open>kevent\<close> reports many events at once, and the loop handles them one after the other
  with the pointers they carry (\<^verbatim>\<open>serve_and_listen\<close> in \<^verbatim>\<open>src/http.c\<close>).  The counterpart of
  \<open>batch_write_read_uaf\<close>: without two events of one descriptor, a batch is as good as single events.  The
  batch is handled in one go; steps of workers between its events are not part of this theory.
\<close>

section \<open>Events stay current\<close>

lemma event_stays_reported:
  assumes ok: "server_ok s" and r: "reported e s" "answers_ok c0 (ke_conns e) s" "handle_event c0 e s = Some (Inr s')"
    and e': "reported e' s" "ke_ident e' \<noteq> ke_ident e"
  shows "reported e' s'"
proof (cases "(ke_ident e', ke_filter e', ke_udata e') \<in> set (sv_kq s)")
  case True
  then have "reg_ok s (ke_ident e', ke_filter e', ke_udata e')" using ok by (auto simp: server_inv_def)
  then have "ke_ident e' \<in> set (sv_conns s)" by (simp add: reg_inv_def)
  from handle_event_view [OF ok r this e'(2)] True show ?thesis by (simp add: reported_def same_view_def)
next
  case False
  then show ?thesis using e'(1) handle_event_listener [OF ok r] by (simp add: reported_def)
qed

text \<open>The answers to the calls of a batch, each in the state in which its handler runs: the kernel keeps its
  promises, what it writes fits, and the requests received are in \<open>Q\<close>.\<close>

fun batch_fits :: "char list set \<Rightarrow> client_t \<Rightarrow> 'p kevent_t list \<Rightarrow> ('m, 'p) server_t \<Rightarrow> bool" where
  "batch_fits Q c0 [] s \<longleftrightarrow> True"
| "batch_fits Q c0 (e # es) s \<longleftrightarrow> answers_ok c0 (ke_conns e) s \<and> event_fits c0 e s
     \<and> (\<forall>s1. handle_event c0 e s = Some (Inr s1) \<longrightarrow> admits Q s s1 \<and> batch_fits Q c0 es s1)"

lemma waiting_fresh: "server_ok s \<Longrightarrow> sv_tnext s \<notin> waiting s"
  using waiting_allocated [of s "sv_tnext s"] by (auto simp: server_inv_def tasks_ok_def)

lemma batch_handled:
  assumes "server_ok s" and "owned Q (waiting s) s" and "distinct (map ke_ident es)" and "\<forall>e \<in> set es. reported e s"
    and "batch_fits Q c0 es s"
  shows "\<exists>s'. handle_events c0 es s = Some (Inr s') \<and> server_ok s' \<and> owned Q (waiting s') s'
     \<and> (\<forall>fd \<in> set (sv_conns s). fd \<notin> ke_ident ` set es \<longrightarrow> same_view fd s s')"
  using assms
proof (induction es arbitrary: s)
  case Nil
  then show ?case by (simp add: same_view_refl)
next
  case (Cons e es)
  note ok = Cons.prems(1) and o = Cons.prems(2)
  have e: "reported e s" "answers_ok c0 (ke_conns e) s" "event_fits c0 e s" using Cons.prems(4,5) by simp_all
  obtain s1 where s1: "handle_event c0 e s = Some (Inr s1)"
    using handle_event_total [OF ok o e subset_refl waiting_fresh [OF ok]] by blast
  have "handled Q (waiting s) s s1" by (rule handle_event_handled [OF ok o e(1) subset_refl waiting_fresh [OF ok] s1])
  then have "owned Q (waiting s1) s1" using s1 Cons.prems(5) owned_mono by (auto simp: handled_def)
  moreover have ok1: "server_ok s1" by (rule handle_event_ok [OF ok e(1,2) s1])
  moreover have "\<forall>e' \<in> set es. reported e' s1"
    using event_stays_reported [OF ok e(1,2) s1] Cons.prems(3,4) by (auto simp: image_iff)
  ultimately obtain s' where s': "handle_events c0 es s1 = Some (Inr s')" "server_ok s'" "owned Q (waiting s') s'"
    "\<forall>fd \<in> set (sv_conns s1). fd \<notin> ke_ident ` set es \<longrightarrow> same_view fd s1 s'"
    using Cons.IH [of s1] Cons.prems(3,5) s1 by auto
  have "same_view fd s s'" if fd: "fd \<in> set (sv_conns s)" "fd \<notin> ke_ident ` set (e # es)" for fd
  proof -
    have v: "same_view fd s s1" using handle_event_view [OF ok e(1,2) s1 fd(1)] fd(2) by simp
    then have "fd \<in> set (sv_conns s1)" using fd(1) by (simp add: same_view_def)
    with s'(4) fd(2) same_view_trans [OF v] show ?thesis by simp
  qed
  with s1 s'(1-3) show ?case by auto
qed

section \<open>Properties\<close>

text \<open>C11: Batches are safe as long as no descriptor is in them twice: in every state that loop and workers can
  reach while the server serves, the events of one batch are all handled to the end, although the handlers
  before may have accepted, closed and freed other clients; and a connection without an event in the batch
  stays open, is sent nothing, and keeps its registrations and its tasks.\<close>

theorem distinct_batch_handled:
  assumes "sys_serving n Q table E y" and "0 < n" and "\<forall>w \<in> E. serves Q w table"
    and "distinct (map ke_ident es)" and "\<forall>e \<in> set es. reported e (sy_server y)" and "batch_fits Q c0 es (sy_server y)"
  shows "\<exists>s'. handle_events c0 es (sy_server y) = Some (Inr s')
     \<and> (\<forall>fd \<in> set (sv_conns (sy_server y)). fd \<notin> ke_ident ` set es \<longrightarrow>
          fd \<in> set (sv_conns s') \<and> sv_out s' fd = sv_out (sy_server y) fd
        \<and> (\<forall>f u. (fd, f, u) \<in> set (sv_kq s') \<longleftrightarrow> (fd, f, u) \<in> set (sv_kq (sy_server y)))
        \<and> (\<forall>i tn. sv_tasks (sy_server y) i = Some tn \<longrightarrow> cl_fd (t_client tn) = fd \<longrightarrow> sv_tasks s' i = Some tn))"
proof -
  have "server_ok (sy_server y)" using sys_reach_ok [OF serving_reach [OF assms(1)] assms(2)] by (simp add: system_ok_def)
  moreover have "owned Q (waiting (sy_server y)) (sy_server y)"
    using owned_mono [OF serving_owned [OF assms(1-3), unfolded sys_owned_def]] by (simp add: awaiting_def)
  ultimately show ?thesis using batch_handled [OF _ _ assms(4-6)] unfolding same_view_def by blast
qed

text \<open>The connection of the first client and a second one in one batch.\<close>

theorem distinct_batch_handled_witness:
  "\<exists>s'. handle_events (client_n 0) [read5, accept6] server5 = Some (Inr s')"
proof -
  let ?y = "\<lparr>sy_pool = pool_init one_cell 2, sy_server = server5, sy_ready = (\<lambda>_. None)\<rparr>"
  have r: "sys_serving 2 {''GET''} home_table {get_worker} ?y" by (rule serving_accepted)
  have ok: "server_ok server5" using sys_reach_ok [OF serving_reach [OF r]] by (simp add: system_ok_def)
  have h: "ready (sv_heap server5)" using ready_heap0 by (simp add: server5_def server0_def)
  obtain s1 tn where s: "handle_event (client_n 0) read5 server5 = Some (Inr s1)" "str_is (sv_heap s1) (t_buffer tn) ''GET''"
    and e: "s1 = server5\<lparr>sv_tasks := (sv_tasks server5)(sv_tnext server5 \<mapsto> tn), sv_tnext := Suc (sv_tnext server5),
       sv_pool := sv_pool server5 @ [sv_tnext server5], sv_heap := sv_heap s1\<rparr>"
    by (rule request_read [OF ok h read5_event]) blast
  obtain H where "sv_heap s1 = H" by blast
  with e have t: "sv_tasks s1 = [0 \<mapsto> tn]" "sv_conns s1 = sv_conns server5" "sv_ln s1 = sv_ln server5"
    by (simp_all add: server5_def server0_def)
  have "q = ''GET''" if "str_is (sv_heap s1) (t_buffer tn) q" for q using str_is_unique [OF that s(2)] .
  then have a: "admits {''GET''} server5 s1" by (simp add: admits_def t(1) server5_def server0_def split: if_splits)
  have c: "ke_conns accept6 = [conn5\<lparr>ci_fd := 6\<rparr>]" "ke_filter accept6 = EVFILT_READ" "\<not> ke_eof accept6" "ke_ident accept6 = 8"
    "ln_fd (sv_ln s1) = 8" by (simp_all add: accept6_def event0_def t(3) server5_def server0_def listener0_def)
  have "answer_ok (conn5\<lparr>ci_fd := 6\<rparr>) s1" by (simp add: answer_in_def conn5_def t(2,3) server5_def server0_def listener0_def)
  then have a1: "answers_ok (client_n 0) (ke_conns accept6) s1" by (simp add: c(1) split: sum.split del: accept_client.simps)
  have f1: "event_fits (client_n 0) accept6 s1"
    by (simp add: event_fits_def c conns_fit_def client_n_def addr0_def conn5_def HOST_SIZE_def INET_ADDRSTRLEN_def)
  have "admits {''GET''} s1 s2" if "handle_event (client_n 0) accept6 s1 = Some (Inr s2)" for s2
  proof -
    have "accept_client (client_n 0) (ke_conns accept6) s1 = Inr s2" using that c by (simp add: handle_event_def)
    from accept_client_tasks [OF this] show ?thesis by (simp add: admits_def)
  qed
  moreover have "answers_ok (client_n 0) (ke_conns read5) server5" "event_fits (client_n 0) read5 server5"
    by (simp_all add: read5_def event0_def event_fits_def recv_fits_def server5_def server0_def listener0_def received_def INT_MAX_def cstr_def NUL_def)
  ultimately have b: "batch_fits {''GET''} (client_n 0) [read5, accept6] server5" using s(1) a a1 f1 by simp
  have d: "distinct (map ke_ident [read5, accept6])" "\<forall>e \<in> set [read5, accept6]. reported e server5"
    by (simp_all add: read5_def accept6_def event0_def reported_def server5_def server0_def listener0_def)
  have "\<forall>w \<in> {get_worker}. serves {''GET''} w home_table" using get_worker_serves by simp
  from distinct_batch_handled [OF r _ this d(1), of "client_n 0"] d(2) b show ?thesis by auto
qed

end
