(* ===== verification/Spec2Isabelle.thy ===== *)
theory Spec2Isabelle
  imports Batches Serve
begin

text \<open>
  Verification of ccybe, an HTTP/1.1 server in C for kqueue systems.

  \<^bold>\<open>The program.\<close>  \<^verbatim>\<open>main\<close> (\<^verbatim>\<open>main.c\<close>) calls \<^verbatim>\<open>init_server\<close>, registers two pages and calls
  \<^verbatim>\<open>serve_and_listen\<close> (\<^verbatim>\<open>src/http.c\<close>).  That opens a listener (\<^verbatim>\<open>src/cnet.c\<close>) and loops over \<^verbatim>\<open>kevent\<close>: a
  readable listener is accepted from, each connection gets a node on the client list
  (\<^verbatim>\<open>src/ds/llist.c\<close>); a readable connection is read to the end into a string (\<^verbatim>\<open>src/ds/buffer.c\<close>), which
  becomes a task for the thread pool (\<^verbatim>\<open>src/ds/threadpool.c\<close>, over the ring of \<^verbatim>\<open>src/ds/queue.c\<close>).  A worker
  runs \<^verbatim>\<open>handle_conn\<close>: it parses the request (\<^verbatim>\<open>src/parser.c\<close>, with llhttp), decodes and splits the target
  (\<^verbatim>\<open>src/url\<close>), looks the path up (\<^verbatim>\<open>src/route.c\<close>, with khash) and runs the page, or serves a file or the
  404 page (\<^verbatim>\<open>src/response.c\<close>, \<^verbatim>\<open>src/mime.c\<close>), serialises the response and registers the connection for
  writing; a writable connection is sent the response and closed.  \<^verbatim>\<open>SIGINT\<close> and \<^verbatim>\<open>SIGTERM\<close> end the loop.

  \<^bold>\<open>The theories\<close>, in the order in which they build on each other.  Definitions carry the names of the
  code; a fault of C (out of bounds, use after free, invalid free, null pointer, uninitialised value) is
  the left side of the result type \<open>res\<close> of \<open>Prelude\<close>, so that \<open>= Inr _\<close> says that none happens.

  \<^item> \<open>Prelude\<close>: results, checked arrays, C strings, decimal numbers.
  \<^item> \<open>Queue\<close> (\<^verbatim>\<open>src/ds/queue.c\<close>): the ring buffer; its abstraction is the list of waiting tasks, and the
    locale \<open>fifo\<close> states what a client may rely on, interpreted on \<open>push\<close> and \<open>pop\<close>.
  \<^item> \<open>ThreadPool\<close>, \<open>PoolSteps\<close> (\<^verbatim>\<open>src/ds/threadpool.c\<close>): creation and destruction with every error label,
    over a record of the resources held; and the threads as a step relation over the mutex and the
    condition variable: no task is lost or run twice, no lost wake-up, termination of a shutdown.
  \<^item> \<open>Config\<close>, \<open>Decoder\<close>, \<open>Url\<close> (\<^verbatim>\<open>src/config/config.h\<close>, \<^verbatim>\<open>src/url\<close>): sizes, percent decoding, splitting of
    the query, with the exact conditions under which the fixed arrays are overrun.
  \<^item> \<open>CMemory\<close>, \<open>Buffer\<close> (\<^verbatim>\<open>src/ds/buffer.c\<close>): a byte heap with failing allocations, and the strings on
    it; the locale \<open>text_builder\<close> is the contract of everything that appends to a string.
  \<^item> \<open>Cnet\<close> (\<^verbatim>\<open>src/cnet.c\<close>): addresses, listening and its error codes.
  \<^item> \<open>LList\<close> (\<^verbatim>\<open>src/ds/llist.c\<close>): the doubly linked list over a node heap; the locales \<open>client_table\<close> and
    \<open>client_nodes\<close> are what the server needs of it.
  \<^item> \<open>Parser\<close> (\<^verbatim>\<open>src/parser.c\<close>): the callbacks of llhttp on the arrays of a request.
  \<^item> \<open>Mime\<close>, \<open>Route\<close>, \<open>Response\<close>, \<open>Pages\<close>, \<open>App\<close> (\<^verbatim>\<open>src/mime.c\<close>, \<^verbatim>\<open>src/route.c\<close>, \<^verbatim>\<open>src/response.c\<close>, the pages
    of \<^verbatim>\<open>main.c\<close>): types of files, the route table, serialisation, the pages; the locale \<open>page_handler\<close> is
    the contract of a page, interpreted on the 404 page and on both pages of the application.
  \<^item> \<open>Http\<close> (\<^verbatim>\<open>src/http.c\<close>): one record for the server (listener, table, client list, open descriptors,
    kqueue registrations, byte heap, tasks, the pool's queue, bytes sent to each descriptor) and one
    definition per handler.
  \<^item> \<open>HttpInv\<close>: the handlers as a transition system (\<open>server_step\<close>: an event whose registration is
    current, or a worker's task), its invariant \<open>server_ok\<close> and its preservation by every handler:
    registered pointers are alive and every open connection is on the client list.  The kernel may refuse any
    call; as long as it refuses to register no accepted connection (\<open>calm_reach\<close>), the list holds nothing
    but the open connections (\<open>server_inv True\<close>), and \<open>accept_unregistered_stays\<close> shows what is left otherwise.
  \<^item> \<open>HttpIO\<close>: what reading, handling and writing do with the bytes.
  \<^item> \<open>Conversation\<close>: the three steps in a row, from the bytes received to the bytes sent, for an unknown
    path, a registered page and another method; and two ways in which they go wrong: a response that
    does not fit the socket's buffer, and two events of one connection in one batch.
  \<^item> \<open>Orphans\<close>: tasks that nothing refers to stay allocated whatever happens; a rejected request leaves one.
  \<^item> \<open>Isolation\<close>: an event of one connection leaves every other connection as it was.
  \<^item> \<open>Races\<close>: orders of steps the code does not expect: a descriptor given to another client while a request
    is in the pool, a second request before the first response is written, a task the pool refuses.
  \<^item> \<open>Serve\<close>: \<^verbatim>\<open>init_server\<close>, the loop, both exits and \<^verbatim>\<open>main\<close>, and runs of the whole program.
  \<^item> \<open>System\<close>: the event loop and the threads of the pool together, as one step relation; the locale
    \<open>job_pool\<close> is what the server needs of the pool, interpreted on the steps of \<open>PoolSteps\<close>.  The
    invariant \<open>system_ok\<close> ties the tasks of the server to the tasks in the ring and in the workers' hands;
    \<open>sys_measure\<close> bounds what is left of a shutdown.
  \<^item> \<open>Ownership\<close>: \<open>owned\<close>, which block of the heap belongs to which task: the copy of its request, and its
    response once that has been generated; every handler keeps it, and completes without a fault under it.
  \<^item> \<open>Limits\<close>: \<open>request_within\<close>, when a request stays within the arrays of the code, in terms of what llhttp
    reports, of the route table and of the file system; such a request is parsed, and answered or rejected,
    without a fault (\<open>within_serves\<close>), by the handlers as they are modelled.
  \<^item> \<open>Soundness\<close>: the same for \<open>System\<close>, in every interleaving: no current event and no worker faults while the
    server serves, and the workers run every task that is queued to its end (\<open>sys_work\<close> bounds their steps):
    its request is rejected, or its response generated and registered.
    \<open>sys_serving\<close> says when: allocations succeed, every request received is within the limits, the routes are
    not destroyed, what the kernel writes fits the arrays handed to it (\<open>event_fits\<close>), and each event is
    current when it is handled.  What can go wrong otherwise is the subject of \<open>batch_write_read_uaf\<close> in
    \<open>Conversation\<close>, of \<open>Orphans\<close>, and of the overflow conditions of \<open>Decoder\<close>, \<open>Url\<close> and \<open>Parser\<close>.
  \<^item> \<open>Batches\<close>: all events of a batch are current when their turn comes, provided no two are of one
    descriptor and no worker registers a response in between; the counterpart of \<open>batch_write_read_uaf\<close>.

  \<^bold>\<open>What is a parameter.\<close>  llhttp reports a list of callback events and an error number for a buffer;
  khash is a record of operations with its documented behaviour as the hypothesis \<open>khash_spec\<close>,
  satisfied by \<open>assoc_khash\<close>.  The answers of system calls (\<^verbatim>\<open>recv\<close>, \<^verbatim>\<open>send\<close>, \<^verbatim>\<open>accept\<close>, \<^verbatim>\<open>fcntl\<close>, \<^verbatim>\<open>kevent\<close>,
  \<^verbatim>\<open>open\<close>, \<^verbatim>\<open>stat\<close>, \<^verbatim>\<open>read\<close>, \<^verbatim>\<open>sigaction\<close>), the success of allocations and the content of indeterminate
  memory are arguments; \<open>answers_ok\<close> and \<open>kernel_ok\<close> say that the kernel hands out descriptors that are
  not open and registers only open ones.  Every call may fail: \<open>answers_ok\<close> says nothing of the registration of
  an accepted connection, \<open>SStuck\<close> is a socket that would block and cannot be registered again.

  \<^bold>\<open>Bounds.\<close>  Loops over arrays and lists are total functions with a measure; the loops over linked nodes
  are partial functions into \<open>option\<close>, with theorems that they return on every well-formed list.  The
  loops around \<^verbatim>\<open>accept\<close>, \<^verbatim>\<open>recv\<close> and \<^verbatim>\<open>send\<close> take a finite list of answers, whose end stands for the answer
  that ends the loop in the code (\<^verbatim>\<open>EAGAIN\<close>: nobody waits, nothing to read, no room); a peer that keeps a
  loop busy forever is not modelled.  A length that the code keeps in an \<^verbatim>\<open>int\<close> is a natural number where the
  array it measures is smaller than 256 bytes.  The
  event loop consumes a list of answers of \<^verbatim>\<open>kevent\<close> and is None when it has not ended by then;
  \<open>main_stops\<close> and \<open>signal_stops_loop\<close> say when it ends.

  \<^bold>\<open>Granularity.\<close>  In \<open>HttpInv\<close> and what builds on it a handler of the loop and a worker's \<^verbatim>\<open>handle_conn\<close> are
  one step each, in every order, and the pool inside \<open>server_t\<close> is the list of tasks it holds.  \<open>System\<close> is
  finer: locking, waiting, popping, \<^verbatim>\<open>push_task\<close> and \<^verbatim>\<open>destroy_pool\<close> are the steps of \<open>PoolSteps\<close>, and a worker
  first generates its response (\<open>answer_conn\<close>) and later registers it (\<open>register_write\<close>), with events handled
  in between; \<open>system_pool_listed\<close> shows that the list is what the real pool holds, \<open>system_worker\<close> that a
  coarse step of a worker is a run of fine ones.  The effect of the handler that pushes a task is placed at
  the moment \<^verbatim>\<open>push_task\<close> decides.  Generating a response and handling an event stay atomic; no two of them
  share a task, by \<open>system_memory_safe\<close>, and what they do share is thread-safe (the allocator, the kqueue)
  or only read until the loop has ended (the route table; see \<open>shutdown_uses_freed_routes\<close>).
  Addresses are never reused.  The one-shot registration of a WRITE event is removed when the event is handled,
  in the code when \<^verbatim>\<open>kevent\<close> delivers the batch; inside a batch no handler of another event touches it, and a
  worker's registration inside a batch is not modelled.  Threads do not run before \<^verbatim>\<open>create_pool\<close> returns, with
  nothing queued.  In \<open>Serve\<close>, where the loop is over, \<open>release\<close> runs the queued tasks in order after the
  table is destroyed, and tasks in a worker's hands like queued ones; \<open>System\<close> has every order.

  \<^bold>\<open>Not modelled.\<close>  The trie (empty files), the tests (commented out), the files under \<^verbatim>\<open>www\<close>, the log
  output, the time-outs (stored, never used), the bodies of llhttp and khash (git submodules that are not
  part of the repository).  The descriptor of the kqueue is among \<open>sv_files\<close> and never closed (\<open>main_stops\<close>).
\<close>

end
